(* ===== verification/Prelude.thy ===== *)
theory Prelude
  imports Complex_Main "HOL-Library.Word" "HOL-Library.Signed_Division" "HOL-Library.Multiset"
begin

text \<open>
  Shared vocabulary of the development: the machine integer types of the C++ code, the result
  type that separates a value from undefined behaviour, \<open>memcpy\<close> on byte buffers, and
  the lemmas on signed words, ring positions and lists that the component theories use.
\<close>

section \<open>Collections of facts\<close>

named_theorems sword_simps \<open>signed values of 64-bit words, under range conditions\<close>
named_theorems ring_simps \<open>positions of a ring buffer\<close>

section \<open>Machine integers and buffers\<close>

type_synonym u8 = "8 word"
type_synonym i32 = "32 word"
type_synonym i64 = "64 word"
type_synonym u64 = "64 word"

text \<open>
  A computation of the C++ program either delivers a value or runs into behaviour that the
  language leaves undefined (a null dereference, an access past the end of a buffer).
\<close>

datatype 'a exec = Ret 'a | UB

fun exec_bind :: "'a exec \<Rightarrow> ('a \<Rightarrow> 'b exec) \<Rightarrow> 'b exec" where
  "exec_bind (Ret x) f = f x"
| "exec_bind UB f = UB"

lemma exec_bind_Ret_iff: "exec_bind e f = Ret y \<longleftrightarrow> (\<exists>x. e = Ret x \<and> f x = Ret y)"
  by (cases e) auto

text \<open>\<open>memcpy(dst, src, n)\<close>: both buffers must hold \<open>n\<close> bytes.\<close>

definition memcpy :: "'b list \<Rightarrow> 'b list \<Rightarrow> nat \<Rightarrow> 'b list exec" where
  "memcpy dst src n =
     (if n \<le> length dst \<and> n \<le> length src then Ret (take n src @ drop n dst) else UB)"

lemma memcpy_Ret:
  "n \<le> length dst \<Longrightarrow> n \<le> length src \<Longrightarrow> memcpy dst src n = Ret (take n src @ drop n dst)"
  by (simp add: memcpy_def)

lemma memcpy_length: "memcpy dst src n = Ret d \<Longrightarrow> length d = length dst"
  by (auto simp: memcpy_def split: if_splits)

text \<open>Loops whose body may run into undefined behaviour, and checked \<open>int\<close> arithmetic.\<close>

fun exec_fold :: "('a \<Rightarrow> 's \<Rightarrow> 's exec) \<Rightarrow> 'a list \<Rightarrow> 's \<Rightarrow> 's exec" where
  "exec_fold f [] s = Ret s"
| "exec_fold f (x # xs) s = exec_bind (f x s) (exec_fold f xs)"

lemma exec_fold_append: "exec_fold f (xs @ ys) s = exec_bind (exec_fold f xs s) (exec_fold f ys)"
proof (induction xs arbitrary: s)
  case (Cons x xs)
  show ?case by (cases "f x s") (simp_all add: Cons.IH)
qed simp

lemma exec_fold_Ret:
  assumes "\<And>x s. x \<in> set xs \<Longrightarrow> f x s = Ret (g x s)"
  shows "exec_fold f xs s = Ret (fold g xs s)"
  using assms by (induction xs arbitrary: s) simp_all

text \<open>As \<open>exec_fold_Ret\<close>, with an invariant on the state that the body may rely on.\<close>

lemma exec_fold_inv:
  assumes "\<And>x s. x \<in> set xs \<Longrightarrow> I s \<Longrightarrow> f x s = Ret (g x s) \<and> I (g x s)" "I s"
  shows "exec_fold f xs s = Ret (fold g xs s) \<and> I (fold g xs s)"
  using assms by (induction xs arbitrary: s) simp_all

text \<open>The same without naming the results; each round adds at most \<open>k\<close> to a measure.\<close>

lemma exec_fold_count:
  fixes m :: "'s \<Rightarrow> nat"
  assumes "\<And>x s. x \<in> set xs \<Longrightarrow> I s \<Longrightarrow> \<exists>s'. f x s = Ret s' \<and> I s' \<and> m s' \<le> m s + k" "I s"
  shows "\<exists>s'. exec_fold f xs s = Ret s' \<and> I s' \<and> m s' \<le> m s + k * length xs"
  using assms
proof (induction xs arbitrary: s)
  case (Cons x xs)
  from Cons.prems(1) [OF _ Cons.prems(2), of x] obtain s1 where "f x s = Ret s1" "I s1" "m s1 \<le> m s + k" by auto
  moreover from Cons.IH [of s1] Cons.prems(1) \<open>I s1\<close>
  obtain s2 where "exec_fold f xs s1 = Ret s2" "I s2" "m s2 \<le> m s1 + k * length xs" by auto
  ultimately show ?case by fastforce
qed simp

lemma exec_fold_total:
  assumes "\<And>x s. x \<in> set xs \<Longrightarrow> I s \<Longrightarrow> \<exists>s'. f x s = Ret s' \<and> I s'" "I s"
  shows "\<exists>s'. exec_fold f xs s = Ret s' \<and> I s'"
  using exec_fold_count [of xs I f "\<lambda>_. 0" 0 s] assms by auto

text \<open>The value of an \<open>int\<close> expression: overflow is undefined.\<close>

definition ci32 :: "int \<Rightarrow> int exec" where
  "ci32 k = (if - (2 ^ 31) \<le> k \<and> k < 2 ^ 31 then Ret k else UB)"

lemma ci32_Ret [simp]: "- (2 ^ 31) \<le> k \<Longrightarrow> k < 2 ^ 31 \<Longrightarrow> ci32 k = Ret k"
  by (simp add: ci32_def)

text \<open>
  The same for \<open>int64_t\<close>, and the two checked operations on stored words: the difference of two
  \<open>int64_t\<close> and the increment of an \<open>int32_t\<close>.
\<close>

definition ci64 :: "int \<Rightarrow> int exec" where
  "ci64 k = (if - (2 ^ 63) \<le> k \<and> k < 2 ^ 63 then Ret k else UB)"

definition sub64 :: "i64 \<Rightarrow> i64 \<Rightarrow> i64 exec" where
  "sub64 a b = exec_bind (ci64 (sint a - sint b)) (\<lambda>d. Ret (word_of_int d))"

definition inc32 :: "i32 \<Rightarrow> i32 exec" where
  "inc32 a = exec_bind (ci32 (sint a + 1)) (\<lambda>k. Ret (word_of_int k))"

text \<open>\<open>static_cast<int>\<close> of a floating-point value: towards zero, undefined out of range.\<close>

definition rtrunc :: "rat \<Rightarrow> int" where
  "rtrunc x = (if 0 \<le> x then \<lfloor>x\<rfloor> else \<lceil>x\<rceil>)"

definition to_int :: "rat \<Rightarrow> int exec" where
  "to_int x = ci32 (rtrunc x)"

definition read_at :: "'b list \<Rightarrow> int \<Rightarrow> 'b exec" where
  "read_at buf i = (if 0 \<le> i \<and> i < int (length buf) then Ret (buf ! nat i) else UB)"

lemma read_at_Ret [simp]: "0 \<le> i \<Longrightarrow> i < int (length buf) \<Longrightarrow> read_at buf i = Ret (buf ! nat i)"
  by (simp add: read_at_def)

lemma rtrunc_of_int [simp]: "rtrunc (of_int k) = k"
  by (simp add: rtrunc_def)

lemma rtrunc_nonneg: "0 \<le> x \<Longrightarrow> 0 \<le> rtrunc x"
  by (simp add: rtrunc_def)

lemma rtrunc_mono: "x \<le> y \<Longrightarrow> rtrunc x \<le> rtrunc y"
  by (auto simp: rtrunc_def intro: floor_mono ceiling_mono)
    (meson ceiling_le_zero linorder_le_cases order_trans zero_le_floor)

section \<open>Signed 64-bit arithmetic\<close>

lemma sint_i64_range: "- (2 ^ 63) \<le> sint (a :: i64)" "sint (a :: i64) < 2 ^ 63"
  using sint_ge [of a] sint_lt [of a] by simp_all

lemma sint_of_int_i64 [sword_simps]:
  "- (2 ^ 63) \<le> k \<Longrightarrow> k < 2 ^ 63 \<Longrightarrow> sint (word_of_int k :: i64) = k"
  by (simp add: sint_sbintrunc' signed_take_bit_int_eq_self)

lemma sint_of_int_i32 [sword_simps]:
  "- (2 ^ 31) \<le> k \<Longrightarrow> k < 2 ^ 31 \<Longrightarrow> sint (word_of_int k :: i32) = k"
  by (simp add: sint_sbintrunc' signed_take_bit_int_eq_self)

lemma sint_diff_i64 [sword_simps]:
  assumes "- (2 ^ 63) \<le> sint a - sint b" "sint a - sint b < 2 ^ 63"
  shows "sint ((a :: i64) - b) = sint a - sint b"
proof -
  have "a - b = word_of_int (sint a - sint b)"
    by (simp add: wi_hom_sub [symmetric])
  then show ?thesis
    using sint_of_int_i64 [OF assms] by (simp only:)
qed

lemma sint_add_i64 [sword_simps]:
  assumes "- (2 ^ 63) \<le> sint a + sint b" "sint a + sint b < 2 ^ 63"
  shows "sint ((a :: i64) + b) = sint a + sint b"
proof -
  have "a + b = word_of_int (sint a + sint b)"
    by (simp add: wi_hom_add [symmetric])
  then show ?thesis
    using sint_of_int_i64 [OF assms] by (simp only:)
qed

lemma sint_inc_i64 [sword_simps]:
  assumes "sint a < 2 ^ 63 - 1"
  shows "sint ((a :: i64) + 1) = sint a + 1"
  using assms sint_i64_range [of a] by (simp add: sint_add_i64)

lemma uint_of_int_i64: "0 \<le> k \<Longrightarrow> k < 2 ^ 63 \<Longrightarrow> uint (word_of_int k :: i64) = k"
  by (simp add: uint_word_of_int_eq take_bit_int_eq_self)

text \<open>Checked arithmetic either has the exact value or is undefined.\<close>

lemma sub64_Ret_iff: "sub64 a b = Ret d \<longleftrightarrow> sint d = sint a - sint b"
proof
  assume "sub64 a b = Ret d"
  then have r: "- (2 ^ 63) \<le> sint a - sint b" "sint a - sint b < 2 ^ 63" "d = word_of_int (sint a - sint b)"
    by (auto simp: sub64_def ci64_def split: if_splits)
  then show "sint d = sint a - sint b" using sint_of_int_i64 [OF r(1,2)] by simp
next
  assume d: "sint d = sint a - sint b"
  then show "sub64 a b = Ret d"
    using sint_i64_range [of d] by (simp add: sub64_def ci64_def d [symmetric])
qed

lemma sub64_Ret:
  assumes "- (2 ^ 63) \<le> sint a - sint b" "sint a - sint b < 2 ^ 63"
  shows "sub64 a b = Ret (a - b)"
  unfolding sub64_Ret_iff by (rule sint_diff_i64 [OF assms])

lemma sub64_value: "sub64 a b = Ret d \<Longrightarrow> d = a - b"
  by (metis sub64_Ret sub64_Ret_iff exec.inject sint_i64_range)

lemma sint_ucast_i32 [sword_simps]:
  assumes "0 \<le> sint (a :: i64)" "sint a < 2 ^ 31"
  shows "sint (ucast a :: i32) = sint a"
proof -
  have "uint a = sint a"
    using uint_of_int_i64 [OF assms(1) sint_i64_range(2)] by simp
  then have eq: "ucast a = (word_of_int (sint a) :: i32)" by (metis ucast_eq)
  show ?thesis unfolding eq by (rule sint_of_int_i32) (use assms in simp_all)
qed

lemma sint_inc_i32 [sword_simps]:
  assumes "sint a < 2 ^ 31 - 1"
  shows "sint ((a :: i32) + 1) = sint a + 1"
proof -
  have r: "- (2 ^ 31) \<le> sint a" using sint_ge [of a] by simp
  have eq: "a + 1 = word_of_int (sint a + 1)" by (simp add: wi_hom_add [symmetric])
  show ?thesis unfolding eq by (rule sint_of_int_i32) (use assms r in simp_all)
qed

lemma inc32_eq: "inc32 a = (if sint a < 2 ^ 31 - 1 then Ret (a + 1) else UB)"
proof -
  have "- (2 ^ 31) \<le> sint a" using sint_ge [of a] by simp
  then show ?thesis by (simp add: inc32_def ci32_def wi_hom_add [symmetric])
qed

lemma sint_add_nat_i32:
  "sint n + int i < 2 ^ 31 \<Longrightarrow> sint ((n :: i32) + of_nat i) = sint n + int i"
proof (induction i)
  case (Suc i)
  then have ih: "sint (n + of_nat i) = sint n + int i" by simp
  have "n + of_nat (Suc i) = (n + of_nat i) + 1" by (simp add: algebra_simps)
  then show ?case using sint_inc_i32 [of "n + of_nat i"] ih Suc.prems by (simp only: of_nat_Suc)
qed simp

lemma smod_nonneg [ring_simps]:
  "0 \<le> (a :: int) \<Longrightarrow> 0 < b \<Longrightarrow> a smod b = a mod b"
  by (simp add: signed_modulo_int_def sgn_if)

section \<open>Ring positions\<close>

lemma ring_inj:
  fixes j k a n :: int
  assumes "a \<le> j" "j < a + n" "a \<le> k" "k < a + n" "j mod n = k mod n"
  shows "j = k"
proof -
  have "n dvd (j - k)"
    using assms(5) by (simp add: mod_eq_dvd_iff)
  moreover have "\<bar>j - k\<bar> < n"
    using assms(1-4) by linarith
  ultimately show ?thesis
    by (metis zdvd_not_zless abs_of_nonneg abs_of_nonpos abs_ge_zero dvd_abs_iff eq_iff_diff_eq_0
        abs_eq_0 less_le)
qed

lemma ring_nat_inj:
  fixes j k a n :: int
  assumes "0 < n" "a \<le> j" "j < a + n" "a \<le> k" "k < a + n"
  shows "nat (j mod n) = nat (k mod n) \<longleftrightarrow> j = k"
proof
  assume "nat (j mod n) = nat (k mod n)"
  then have "j mod n = k mod n"
    using \<open>0 < n\<close> by (simp add: nat_eq_iff2)
  with assms show "j = k" by (blast intro: ring_inj)
qed simp

lemma nat_mod_less [ring_simps]: "0 < n \<Longrightarrow> nat (k mod int n) < n"
  by (simp add: nat_less_iff)

end
