(* ===== verification/Frame_Queue.thy ===== *)
theory Frame_Queue
  imports Prelude
begin

text \<open>
  The shared-memory frame queue (\<open>shm_frame_queue.h\<close>, \<open>shm_frame_queue.cpp\<close>): a ring of
  64 slots with a write and a read sequence number. Every C function is one definition over the
  record \<open>shm_queue\<close>; pointer arguments that the code tests for null are options, a
  frame buffer is a list of bytes. Then the well-formedness invariant, the abstraction of the
  ring to the list of pending frames, and the refinement of each operation to that list.

  The ring's steps (claim a slot by compare-and-swap, fill it, publish it, advance the sequence
  number) are separate definitions: the functions below compose them, and the theory
  \<open>Queue_Spsc\<close> interleaves them.
\<close>

section \<open>Layout\<close>

definition SHM_QUEUE_CAPACITY :: int where "SHM_QUEUE_CAPACITY = 64"
definition MAX_FRAME_WIDTH :: nat where "MAX_FRAME_WIDTH = 1920"
definition MAX_FRAME_HEIGHT :: nat where "MAX_FRAME_HEIGHT = 1080"
definition MAX_FRAME_CHANNELS :: nat where "MAX_FRAME_CHANNELS = 3"
definition MAX_FRAME_SIZE :: nat where
  "MAX_FRAME_SIZE = MAX_FRAME_WIDTH * MAX_FRAME_HEIGHT * MAX_FRAME_CHANNELS"

datatype frame_type = VISIBLE_LIGHT | ULTRAVIOLET

record frame_header =
  fh_pts_ns :: i64
  fh_width :: i32
  fh_height :: i32
  fh_channels :: i32
  fh_type :: frame_type
  fh_stream_index :: i32
  fh_timestamp_wall :: i64

datatype slot_state = SLOT_FREE | SLOT_WRITING | SLOT_READY | SLOT_READING

record frame_slot =
  fs_header :: frame_header
  fs_data :: "u8 list"
  fs_state :: slot_state

record shm_queue =
  write_seq :: i64
  read_seq :: i64
  slots :: "frame_slot list"

section \<open>Steps on the ring\<close>

text \<open>
  The number of payload bytes: the product of the dimensions in \<open>size_t\<close> (each 32-bit
  value sign-extended), capped at the size of a slot.
\<close>

definition frame_size :: "frame_header \<Rightarrow> nat" where
  "frame_size h =
     (let n = (scast (fh_width h) :: u64) * scast (fh_height h) * scast (fh_channels h)
      in unat (if word_of_nat MAX_FRAME_SIZE < n then word_of_nat MAX_FRAME_SIZE else n))"

definition slot_index :: "i64 \<Rightarrow> int" where
  "slot_index s = sint s smod SHM_QUEUE_CAPACITY"

definition slot_at :: "shm_queue \<Rightarrow> i64 \<Rightarrow> frame_slot" where
  "slot_at q s = slots q ! nat (slot_index s)"

definition update_slot :: "shm_queue \<Rightarrow> i64 \<Rightarrow> (frame_slot \<Rightarrow> frame_slot) \<Rightarrow> shm_queue" where
  "update_slot q s f =
     q\<lparr>slots := (slots q)[nat (slot_index s) := f (slot_at q s)]\<rparr>"

text \<open>\<open>slot.state.compare_exchange_strong(expected, desired)\<close>\<close>

definition slot_cas :: "shm_queue \<Rightarrow> i64 \<Rightarrow> slot_state \<Rightarrow> slot_state \<Rightarrow> bool \<times> shm_queue" where
  "slot_cas q s expected desired =
     (if fs_state (slot_at q s) = expected
      then (True, update_slot q s (fs_state_update (\<lambda>_. desired)))
      else (False, q))"

definition store_state :: "shm_queue \<Rightarrow> i64 \<Rightarrow> slot_state \<Rightarrow> shm_queue" where
  "store_state q s st = update_slot q s (fs_state_update (\<lambda>_. st))"

text \<open>Write the header, stamped with the wall clock \<open>now\<close>.\<close>

definition write_header :: "i64 \<Rightarrow> frame_header \<Rightarrow> shm_queue \<Rightarrow> i64 \<Rightarrow> shm_queue" where
  "write_header now header q s =
     update_slot q s (fs_header_update (\<lambda>_. header\<lparr>fh_timestamp_wall := now\<rparr>))"

text \<open>Copy the payload into the slot.\<close>

definition write_data :: "frame_header \<Rightarrow> u8 list \<Rightarrow> shm_queue \<Rightarrow> i64 \<Rightarrow> shm_queue exec" where
  "write_data header data q s =
     exec_bind (memcpy (fs_data (slot_at q s)) data (frame_size header))
       (\<lambda>d. Ret (update_slot q s (fs_data_update (\<lambda>_. d))))"

definition read_slot :: "shm_queue \<Rightarrow> i64 \<Rightarrow> u8 list \<Rightarrow> (frame_header \<times> u8 list) exec" where
  "read_slot q s out_data =
     (let slot = slot_at q s
      in exec_bind (memcpy out_data (fs_data slot) (frame_size (fs_header slot)))
           (\<lambda>d. Ret (fs_header slot, d)))"

section \<open>The queue's functions\<close>

text \<open>
  Named shared-memory segments: \<open>shm_open\<close> with \<open>O_CREAT\<close> attaches to an existing segment
  or makes a zero-filled one. The flags say whether \<open>shm_open\<close>, \<open>ftruncate\<close> and
  \<open>mmap\<close> succeed.
\<close>

type_synonym shm_store = "u64 \<Rightarrow> shm_queue option"

record shm_os =
  os_shm_open :: bool
  os_ftruncate :: bool
  os_mmap :: bool

definition zero_header :: frame_header where
  "zero_header = \<lparr>fh_pts_ns = 0, fh_width = 0, fh_height = 0, fh_channels = 0,
     fh_type = VISIBLE_LIGHT, fh_stream_index = 0, fh_timestamp_wall = 0\<rparr>"

definition zero_queue :: shm_queue where
  "zero_queue = \<lparr>write_seq = 0, read_seq = 0,
     slots = replicate (nat SHM_QUEUE_CAPACITY)
       \<lparr>fs_header = zero_header, fs_data = replicate MAX_FRAME_SIZE 0, fs_state = SLOT_FREE\<rparr>\<rparr>"

definition reset_queue :: "shm_queue \<Rightarrow> shm_queue" where
  "reset_queue q = q\<lparr>write_seq := 0, read_seq := 0,
     slots := map (fs_state_update (\<lambda>_. SLOT_FREE)) (slots q)\<rparr>"

definition shm_queue_create :: "shm_os \<Rightarrow> u64 \<Rightarrow> shm_store \<Rightarrow> shm_queue option \<times> shm_store" where
  "shm_queue_create os shm_key store =
     (if \<not> os_shm_open os then (None, store)
      else let seg = (case store shm_key of None \<Rightarrow> zero_queue | Some q \<Rightarrow> q);
               store1 = store(shm_key \<mapsto> seg)
           in if \<not> os_ftruncate os then (None, store1)
              else if \<not> os_mmap os then (None, store1)
              else (Some (reset_queue seg), store1(shm_key \<mapsto> reset_queue seg)))"

definition shm_queue_destroy :: "bool \<Rightarrow> u64 \<Rightarrow> shm_store \<Rightarrow> shm_store" where
  "shm_queue_destroy queue_nonnull shm_key store =
     (if \<not> queue_nonnull then store else store(shm_key := None))"

definition shm_queue_push ::
    "i64 \<Rightarrow> shm_queue option \<Rightarrow> frame_header option \<Rightarrow> u8 list option \<Rightarrow>
     (int \<times> shm_queue option) exec" where
  "shm_queue_push now queue header data =
     (case (queue, header, data) of
        (Some q, Some h, Some d) \<Rightarrow>
          let w = write_seq q; r = read_seq q
          in if SHM_QUEUE_CAPACITY \<le> sint (w - r) then Ret (- 2, Some q)
             else if slot_index w < 0 then UB
             else (case slot_cas q w SLOT_FREE SLOT_WRITING of
                 (False, _) \<Rightarrow> Ret (- 3, Some q)
               | (True, q1) \<Rightarrow>
                   exec_bind (write_data h d (write_header now h q1 w) w)
                     (\<lambda>q2. Ret (0, Some ((store_state q2 w SLOT_READY)\<lparr>write_seq := w + 1\<rparr>))))
      | _ \<Rightarrow> Ret (- 1, queue))"

definition shm_queue_pop ::
    "shm_queue option \<Rightarrow> frame_header option \<Rightarrow> u8 list option \<Rightarrow>
     (int \<times> shm_queue option \<times> frame_header option \<times> u8 list option) exec" where
  "shm_queue_pop queue out_header out_data =
     (case (queue, out_header, out_data) of
        (Some q, Some oh, Some od) \<Rightarrow>
          let r = read_seq q; w = write_seq q
          in if sint w \<le> sint r then Ret (- 2, queue, out_header, out_data)
             else if slot_index r < 0 then UB
             else (case slot_cas q r SLOT_READY SLOT_READING of
                 (False, _) \<Rightarrow> Ret (- 3, queue, out_header, out_data)
               | (True, q1) \<Rightarrow>
                   exec_bind (read_slot q1 r od)
                     (\<lambda>(h, d). Ret (0, Some ((store_state q1 r SLOT_FREE)\<lparr>read_seq := r + 1\<rparr>),
                        Some h, Some d)))
      | _ \<Rightarrow> Ret (- 1, queue, out_header, out_data))"

text \<open>
  The variant that copies from device memory: \<open>cuda_ok\<close> is the outcome of
  \<open>cudaMemcpyAsync\<close>; on failure the slot is given back, its header already overwritten.
\<close>

definition shm_queue_push_gpu ::
    "i64 \<Rightarrow> bool \<Rightarrow> shm_queue option \<Rightarrow> frame_header option \<Rightarrow> u8 list option \<Rightarrow>
     (int \<times> shm_queue option) exec" where
  "shm_queue_push_gpu now cuda_ok queue header gpu_data =
     (case (queue, header, gpu_data) of
        (Some q, Some h, Some d) \<Rightarrow>
          let w = write_seq q; r = read_seq q
          in if SHM_QUEUE_CAPACITY \<le> sint (w - r) then Ret (- 2, Some q)
             else if slot_index w < 0 then UB
             else (case slot_cas q w SLOT_FREE SLOT_WRITING of
                 (False, _) \<Rightarrow> Ret (- 3, Some q)
               | (True, q1) \<Rightarrow>
                   let q2 = write_header now h q1 w
                   in if \<not> cuda_ok then Ret (- 4, Some (store_state q2 w SLOT_FREE))
                      else exec_bind (write_data h d q2 w)
                        (\<lambda>q3. Ret (0, Some ((store_state q3 w SLOT_READY)\<lparr>write_seq := w + 1\<rparr>))))
      | _ \<Rightarrow> Ret (- 1, queue))"

text \<open>
  The loop of \<open>shm_queue_pop_batch\<close>: \<open>k\<close> iterations are left, \<open>i\<close> is the loop variable,
  \<open>n\<close> the value of \<open>*out_count\<close>. A failed compare-and-swap leaves the loop.
\<close>

fun pop_batch_loop ::
    "nat \<Rightarrow> nat \<Rightarrow> i64 \<Rightarrow> shm_queue \<Rightarrow> frame_header list \<Rightarrow> u8 list list \<Rightarrow> int \<Rightarrow>
     (shm_queue \<times> frame_header list \<times> u8 list list \<times> int) exec" where
  "pop_batch_loop 0 i r q hs ds n = Ret (q, hs, ds, n)"
| "pop_batch_loop (Suc k) i r q hs ds n =
     (let s = r + word_of_nat i
      in if slot_index s < 0 then UB
         else case slot_cas q s SLOT_READY SLOT_READING of
             (False, _) \<Rightarrow> Ret (q, hs, ds, n)
           | (True, q1) \<Rightarrow>
               if length hs \<le> i \<or> length ds \<le> i then UB
               else exec_bind (read_slot q1 s (ds ! i))
                 (\<lambda>(h, d). pop_batch_loop k (Suc i) r (store_state q1 s SLOT_FREE)
                    (hs[i := h]) (ds[i := d]) (n + 1)))"

definition shm_queue_pop_batch ::
    "shm_queue option \<Rightarrow> frame_header list option \<Rightarrow> u8 list list option \<Rightarrow> i32 \<Rightarrow> int option \<Rightarrow>
     (int \<times> shm_queue option \<times> frame_header list option \<times> u8 list list option \<times> int option) exec"
where
  "shm_queue_pop_batch queue out_headers out_datas max_count out_count =
     (case (queue, out_headers, out_datas, out_count) of
        (Some q, Some hs, Some ds, Some _) \<Rightarrow>
          let r = read_seq q; w = write_seq q;
              available = w - r;
              count = (if sint available < sint max_count then ucast available else max_count) :: i32
          in exec_bind (pop_batch_loop (nat (sint count)) 0 r q hs ds 0)
               (\<lambda>(q1, hs1, ds1, n).
                  Ret (0, Some (q1\<lparr>read_seq := r + word_of_int n\<rparr>), Some hs1, Some ds1, Some n))
      | _ \<Rightarrow> Ret (- 1, queue, out_headers, out_datas, out_count))"

section \<open>Invariant and abstraction\<close>

definition ring_slot :: "shm_queue \<Rightarrow> int \<Rightarrow> frame_slot" where
  "ring_slot q k = slots q ! nat (k mod SHM_QUEUE_CAPACITY)"

definition slots_ok :: "shm_queue \<Rightarrow> bool" where
  "slots_ok q \<longleftrightarrow> length (slots q) = nat SHM_QUEUE_CAPACITY \<and>
     (\<forall>s\<in>set (slots q). length (fs_data s) = MAX_FRAME_SIZE)"

text \<open>
  The slots between the two sequence numbers hold unread frames; all others are free.
\<close>

definition queue_inv :: "shm_queue \<Rightarrow> bool" where
  "queue_inv q \<longleftrightarrow> slots_ok q \<and> 0 \<le> sint (read_seq q) \<and> sint (read_seq q) \<le> sint (write_seq q) \<and>
     sint (write_seq q) \<le> sint (read_seq q) + SHM_QUEUE_CAPACITY \<and>
     (\<forall>k. sint (read_seq q) \<le> k \<and> k < sint (write_seq q) \<longrightarrow> fs_state (ring_slot q k) = SLOT_READY) \<and>
     (\<forall>k. sint (write_seq q) \<le> k \<and> k < sint (read_seq q) + SHM_QUEUE_CAPACITY \<longrightarrow>
        fs_state (ring_slot q k) = SLOT_FREE)"

type_synonym frame = "frame_header \<times> u8 list"

definition slot_frame :: "frame_slot \<Rightarrow> frame" where
  "slot_frame s = (fs_header s, take (frame_size (fs_header s)) (fs_data s))"

definition sent_frame :: "i64 \<Rightarrow> frame_header \<Rightarrow> u8 list \<Rightarrow> frame" where
  "sent_frame now h d = (h\<lparr>fh_timestamp_wall := now\<rparr>, take (frame_size h) d)"

definition pending :: "shm_queue \<Rightarrow> frame list" where
  "pending q = map (\<lambda>k. slot_frame (ring_slot q k)) [sint (read_seq q)..sint (write_seq q) - 1]"

section \<open>Slots\<close>

lemma cap_simps [simp]: "SHM_QUEUE_CAPACITY = 64" "nat SHM_QUEUE_CAPACITY = 64"
  by (simp_all add: SHM_QUEUE_CAPACITY_def)

lemma MAX_FRAME_SIZE_eq: "MAX_FRAME_SIZE = 6220800"
  by (simp add: MAX_FRAME_SIZE_def MAX_FRAME_WIDTH_def MAX_FRAME_HEIGHT_def MAX_FRAME_CHANNELS_def)

lemma frame_size_min:
  "frame_size h = min MAX_FRAME_SIZE (unat (scast (fh_width h) * scast (fh_height h) * scast (fh_channels h) :: u64))"
proof -
  have "unat (word_of_nat MAX_FRAME_SIZE :: u64) = MAX_FRAME_SIZE" by (simp add: MAX_FRAME_SIZE_eq)
  then show ?thesis by (simp add: frame_size_def Let_def word_less_nat_alt)
qed

lemma frame_size_le: "frame_size h \<le> MAX_FRAME_SIZE"
  by (simp add: frame_size_def Let_def MAX_FRAME_SIZE_eq not_less word_le_nat_alt)

lemma frame_size_wall [simp]: "frame_size (h\<lparr>fh_timestamp_wall := t\<rparr>) = frame_size h"
  by (simp add: frame_size_def)

lemma slot_index_nonneg: "0 \<le> sint s \<Longrightarrow> slot_index s = sint s mod 64"
  by (simp add: slot_index_def ring_simps)

lemma slot_at_ring: "0 \<le> sint s \<Longrightarrow> slot_at q s = ring_slot q (sint s)"
  by (simp add: slot_at_def ring_slot_def slot_index_nonneg)

lemma ring_slot_in: "slots_ok q \<Longrightarrow> ring_slot q k \<in> set (slots q)"
  using nat_mod_less [of 64 k] by (simp add: slots_ok_def ring_slot_def)

lemma ring_slot_data: "slots_ok q \<Longrightarrow> length (fs_data (ring_slot q k)) = MAX_FRAME_SIZE"
  using ring_slot_in [of q k] by (simp add: slots_ok_def)

lemma update_slot_seqs [simp]:
  "write_seq (update_slot q s f) = write_seq q" "read_seq (update_slot q s f) = read_seq q"
  by (simp_all add: update_slot_def)

lemma ring_slot_seqs [simp]:
  "ring_slot (q\<lparr>write_seq := w\<rparr>) k = ring_slot q k" "ring_slot (q\<lparr>read_seq := r\<rparr>) k = ring_slot q k"
  "slots_ok (q\<lparr>write_seq := w\<rparr>) = slots_ok q" "slots_ok (q\<lparr>read_seq := r\<rparr>) = slots_ok q"
  by (simp_all add: ring_slot_def slots_ok_def)

lemma ring_slot_update:
  assumes "slots_ok q" "0 \<le> sint s"
  shows "ring_slot (update_slot q s f) k =
    (if k mod 64 = sint s mod 64 then f (ring_slot q (sint s)) else ring_slot q k)"
proof -
  have "nat (sint s mod 64) < length (slots q)"
    using assms nat_mod_less [of 64 "sint s"] by (simp add: slots_ok_def)
  then show ?thesis
    using assms(2) by (auto simp: ring_slot_def update_slot_def slot_at_def slot_index_nonneg
        nth_list_update nat_eq_iff2)
qed

lemma slots_ok_update:
  "slots_ok q \<Longrightarrow> length (fs_data (f (slot_at q s))) = MAX_FRAME_SIZE \<Longrightarrow> slots_ok (update_slot q s f)"
  by (auto simp: slots_ok_def update_slot_def dest!: set_update_subset_insert [THEN subsetD])

lemma length_slots_update [simp]: "length (slots (update_slot q s f)) = length (slots q)"
  by (simp add: update_slot_def)

lemma slots_ok_length: "slots_ok q \<Longrightarrow> length (slots q) = 64"
  by (simp add: slots_ok_def)

lemma slot_position: "length (slots q) = 64 \<Longrightarrow> 0 \<le> sint s \<Longrightarrow> nat (slot_index s) < length (slots q)"
  using nat_mod_less [of 64 "sint s"] by (simp add: slot_index_nonneg)

lemma update_slot_twice:
  "length (slots q) = 64 \<Longrightarrow> 0 \<le> sint s \<Longrightarrow>
   update_slot (update_slot q s f) s g = update_slot q s (\<lambda>x. g (f x))"
  using slot_position [of q s] by (simp add: update_slot_def slot_at_def)

lemma slot_at_update_same:
  "length (slots q) = 64 \<Longrightarrow> 0 \<le> sint s \<Longrightarrow> slot_at (update_slot q s f) s = f (slot_at q s)"
  using slot_position [of q s] by (simp add: update_slot_def slot_at_def)

text \<open>Successive writes to one slot are one write.\<close>

lemmas slot_chain = update_slot_twice slot_at_update_same slots_ok_length

section \<open>The two state changes\<close>

definition put_frame :: "i64 \<Rightarrow> frame_header \<Rightarrow> u8 list \<Rightarrow> shm_queue \<Rightarrow> shm_queue" where
  "put_frame now h d q =
     (update_slot q (write_seq q)
        (\<lambda>s. \<lparr>fs_header = h\<lparr>fh_timestamp_wall := now\<rparr>,
               fs_data = take (frame_size h) d @ drop (frame_size h) (fs_data s),
               fs_state = SLOT_READY\<rparr>))\<lparr>write_seq := write_seq q + 1\<rparr>"

definition take_frame :: "shm_queue \<Rightarrow> shm_queue" where
  "take_frame q =
     (update_slot q (read_seq q) (fs_state_update (\<lambda>_. SLOT_FREE)))\<lparr>read_seq := read_seq q + 1\<rparr>"

lemma queue_invD:
  assumes "queue_inv q"
  shows "slots_ok q" "0 \<le> sint (read_seq q)" "sint (read_seq q) \<le> sint (write_seq q)"
    "sint (write_seq q) \<le> sint (read_seq q) + 64" "0 \<le> sint (write_seq q)"
    "sint (write_seq q - read_seq q) = sint (write_seq q) - sint (read_seq q)"
  using assms sint_i64_range [of "write_seq q"]
  by (auto simp: queue_inv_def intro!: sint_diff_i64)

lemma queue_inv_ready:
  "queue_inv q \<Longrightarrow> sint (read_seq q) \<le> k \<Longrightarrow> k < sint (write_seq q) \<Longrightarrow>
   fs_state (ring_slot q k) = SLOT_READY"
  by (simp add: queue_inv_def)

lemma queue_inv_free:
  "queue_inv q \<Longrightarrow> sint (write_seq q) \<le> k \<Longrightarrow> k < sint (read_seq q) + 64 \<Longrightarrow>
   fs_state (ring_slot q k) = SLOT_FREE"
  by (simp add: queue_inv_def)

lemma pending_length: "queue_inv q \<Longrightarrow> int (length (pending q)) = sint (write_seq q) - sint (read_seq q)"
  by (auto simp: pending_def dest: queue_invD(3))

lemma put_frame_seqs [simp]:
  "write_seq (put_frame now h d q) = write_seq q + 1" "read_seq (put_frame now h d q) = read_seq q"
  by (simp_all add: put_frame_def)

lemma take_frame_seqs [simp]:
  "write_seq (take_frame q) = write_seq q" "read_seq (take_frame q) = read_seq q + 1"
  by (simp_all add: take_frame_def)

lemma put_frame_slots_ok: "slots_ok q \<Longrightarrow> 0 \<le> sint (write_seq q) \<Longrightarrow> frame_size h \<le> length d \<Longrightarrow>
   slots_ok (put_frame now h d q)"
  using frame_size_le [of h] ring_slot_data [of q "sint (write_seq q)"]
  by (simp add: put_frame_def slots_ok_update slot_at_ring)

lemma take_frame_slots_ok: "slots_ok q \<Longrightarrow> 0 \<le> sint (read_seq q) \<Longrightarrow> slots_ok (take_frame q)"
  using ring_slot_data [of q "sint (read_seq q)"]
  by (simp add: take_frame_def slots_ok_update slot_at_ring)

text \<open>Positions of the current window that differ denote different slots.\<close>

lemma window_mod:
  fixes r j k :: int
  assumes "r \<le> j" "j < r + 64" "r \<le> k" "k < r + 64"
  shows "j mod 64 = k mod 64 \<longleftrightarrow> j = k"
  using ring_inj [of r j 64 k] assms by auto

lemma put_frame_ring:
  assumes "queue_inv q" "sint (write_seq q) < sint (read_seq q) + 64"
    "sint (read_seq q) \<le> k" "k < sint (read_seq q) + 64"
  shows "ring_slot (put_frame now h d q) k =
    (if k = sint (write_seq q)
     then \<lparr>fs_header = h\<lparr>fh_timestamp_wall := now\<rparr>,
           fs_data = take (frame_size h) d @ drop (frame_size h) (fs_data (ring_slot q k)),
           fs_state = SLOT_READY\<rparr>
     else ring_slot q k)"
  using assms queue_invD [OF assms(1)] window_mod [of "sint (read_seq q)" k "sint (write_seq q)"]
  by (simp add: put_frame_def ring_slot_update)

lemma take_frame_ring:
  assumes "queue_inv q" "sint (read_seq q) \<le> k" "k < sint (read_seq q) + 64"
  shows "ring_slot (take_frame q) k =
    (if k = sint (read_seq q) then (ring_slot q k)\<lparr>fs_state := SLOT_FREE\<rparr> else ring_slot q k)"
  using assms queue_invD [OF assms(1)] window_mod [of "sint (read_seq q)" k "sint (read_seq q)"]
  by (simp add: take_frame_def ring_slot_update)

lemma ring_slot_wrap: "ring_slot q (k + 64) = ring_slot q k"
  by (simp add: ring_slot_def)

lemma put_frame_inv:
  assumes "queue_inv q" "sint (write_seq q) < sint (read_seq q) + 64"
    "sint (write_seq q) < 2 ^ 63 - 1" "frame_size h \<le> length d"
  shows "queue_inv (put_frame now h d q)"
  using assms queue_invD [OF assms(1)] put_frame_ring [OF assms(1,2)]
    queue_inv_ready [OF assms(1)] queue_inv_free [OF assms(1)]
  by (auto simp: queue_inv_def [of "put_frame now h d q"] put_frame_slots_ok sint_inc_i64)

lemma take_frame_inv:
  assumes "queue_inv q" "sint (read_seq q) < sint (write_seq q)"
  shows "queue_inv (take_frame q)"
proof -
  have r: "sint (read_seq q + 1) = sint (read_seq q) + 1"
    using assms sint_i64_range(2) [of "write_seq q"] by (intro sint_inc_i64) simp
  have last: "fs_state (ring_slot (take_frame q) (sint (read_seq q) + 64)) = SLOT_FREE"
    using take_frame_ring [OF assms(1), of "sint (read_seq q)"] by (simp add: ring_slot_wrap)
  have free: "fs_state (ring_slot (take_frame q) k) = SLOT_FREE"
    if "sint (write_seq q) \<le> k" "k < sint (read_seq q) + 1 + 64" for k
  proof (cases "k = sint (read_seq q) + 64")
    case True
    then show ?thesis using last by simp
  next
    case False
    then show ?thesis
      using that assms queue_inv_free [OF assms(1), of k] take_frame_ring [OF assms(1), of k]
      by simp
  qed
  show ?thesis
    using assms queue_invD [OF assms(1)] r free take_frame_ring [OF assms(1)]
      queue_inv_ready [OF assms(1)]
    by (auto simp: queue_inv_def [of "take_frame q"] take_frame_slots_ok)
qed

lemma put_frame_pending:
  assumes "queue_inv q" "sint (write_seq q) < sint (read_seq q) + 64"
    "sint (write_seq q) < 2 ^ 63 - 1" "frame_size h \<le> length d"
  shows "pending (put_frame now h d q) = pending q @ [sent_frame now h d]"
proof -
  have "[sint (read_seq q)..sint (write_seq q)] =
      [sint (read_seq q)..sint (write_seq q) - 1] @ [sint (write_seq q)]"
    using queue_invD(3) [OF assms(1)] by (rule upto_rec2)
  moreover have "map (\<lambda>k. slot_frame (ring_slot (put_frame now h d q) k))
      [sint (read_seq q)..sint (write_seq q) - 1] = pending q"
    using put_frame_ring [OF assms(1,2), of _ now h d] queue_invD [OF assms(1)]
    unfolding pending_def by (intro map_cong) auto
  moreover have "slot_frame (ring_slot (put_frame now h d q) (sint (write_seq q))) = sent_frame now h d"
    using put_frame_ring [OF assms(1,2), of "sint (write_seq q)" now h d] assms(2,4)
      queue_invD(3) [OF assms(1)]
    by (simp add: slot_frame_def sent_frame_def)
  ultimately show ?thesis
    using assms(3) by (simp add: pending_def [of "put_frame now h d q"] sint_inc_i64)
qed

lemma take_frame_pending:
  assumes "queue_inv q" "sint (read_seq q) < sint (write_seq q)"
  shows "pending q = slot_frame (slot_at q (read_seq q)) # pending (take_frame q)"
proof -
  have r: "sint (read_seq q + 1) = sint (read_seq q) + 1"
    using assms sint_i64_range(2) [of "write_seq q"] by (intro sint_inc_i64) simp
  have "[sint (read_seq q)..sint (write_seq q) - 1] =
      sint (read_seq q) # [sint (read_seq q) + 1..sint (write_seq q) - 1]"
    using assms(2) by (intro upto_rec1) simp
  moreover have "slot_frame (ring_slot (take_frame q) k) = slot_frame (ring_slot q k)"
    if "k \<in> set [sint (read_seq q) + 1..sint (write_seq q) - 1]" for k
    using that take_frame_ring [OF assms(1), of k] queue_invD [OF assms(1)] by simp
  ultimately show ?thesis
    using queue_invD(2) [OF assms(1)] r by (simp add: pending_def slot_at_ring)
qed

section \<open>Functional behaviour of the operations\<close>

lemma update_slot_cong:
  "f (slot_at q s) = g (slot_at q s) \<Longrightarrow>
   (update_slot q s f)\<lparr>write_seq := w\<rparr> = (update_slot q s g)\<lparr>write_seq := w\<rparr>"
  "f (slot_at q s) = g (slot_at q s) \<Longrightarrow>
   (update_slot q s f)\<lparr>read_seq := w\<rparr> = (update_slot q s g)\<lparr>read_seq := w\<rparr>"
  by (simp_all add: update_slot_def)

lemma push_eq:
  assumes "queue_inv q" "frame_size h \<le> length d"
  shows "shm_queue_push now (Some q) (Some h) (Some d) =
    (if sint (write_seq q) - sint (read_seq q) < 64 then Ret (0, Some (put_frame now h d q))
     else Ret (- 2, Some q))"
proof -
  note inv = queue_invD [OF assms(1)]
  have free: "fs_state (slot_at q (write_seq q)) = SLOT_FREE"
    if "sint (write_seq q) - sint (read_seq q) < 64"
    using that inv queue_inv_free [OF assms(1), of "sint (write_seq q)"] by (simp add: slot_at_ring)
  have len: "length (fs_data (slot_at q (write_seq q))) = MAX_FRAME_SIZE"
    using inv by (simp add: slot_at_ring ring_slot_data)
  show ?thesis
    using inv free len assms(2) frame_size_le [of h]
    by (auto simp: shm_queue_push_def Let_def slot_index_nonneg slot_cas_def write_header_def
        write_data_def store_state_def slot_chain memcpy_Ret put_frame_def intro!: update_slot_cong)
qed

lemma push_gpu_eq:
  assumes "queue_inv q" "frame_size h \<le> length d"
  shows "shm_queue_push_gpu now True (Some q) (Some h) (Some d) =
    shm_queue_push now (Some q) (Some h) (Some d)"
  by (simp add: shm_queue_push_gpu_def shm_queue_push_def Let_def split: prod.split bool.split)

lemma pop_eq:
  assumes "queue_inv q" "MAX_FRAME_SIZE \<le> length od"
  shows "shm_queue_pop (Some q) (Some oh) (Some od) =
    (if sint (read_seq q) < sint (write_seq q)
     then case slot_frame (slot_at q (read_seq q)) of (h, bytes) \<Rightarrow>
       Ret (0, Some (take_frame q), Some h, Some (bytes @ drop (length bytes) od))
     else Ret (- 2, Some q, Some oh, Some od))"
proof -
  note inv = queue_invD [OF assms(1)]
  have ready: "fs_state (slot_at q (read_seq q)) = SLOT_READY"
    if "sint (read_seq q) < sint (write_seq q)"
    using that inv queue_inv_ready [OF assms(1), of "sint (read_seq q)"] by (simp add: slot_at_ring)
  have len: "length (fs_data (slot_at q (read_seq q))) = MAX_FRAME_SIZE"
    using inv by (simp add: slot_at_ring ring_slot_data)
  have fs: "frame_size (fs_header (slot_at q (read_seq q))) \<le> length od"
    "frame_size (fs_header (slot_at q (read_seq q))) \<le> MAX_FRAME_SIZE"
    using frame_size_le [of "fs_header (slot_at q (read_seq q))"] assms(2) by simp_all
  show ?thesis
    using inv ready len fs
    by (auto simp: shm_queue_pop_def Let_def slot_index_nonneg slot_cas_def read_slot_def
        store_state_def slot_chain memcpy_Ret take_frame_def slot_frame_def min_def
        intro!: update_slot_cong)
qed

section \<open>The queue as a bounded first-in first-out buffer\<close>

text \<open>
  The contract between the queue and its two clients. \<open>deliver\<close> stores an item and says
  whether there was room; \<open>fetch\<close> removes the oldest one; \<open>ok\<close> is what a client must
  ensure before it delivers. \<open>fifo_run\<close> executes a sequence of such calls and collects the
  accepted and the fetched items.
\<close>

datatype 'i fifo_op = Deliver 'i | Fetch

fun fifo_run ::
    "('i \<Rightarrow> 'q \<Rightarrow> bool) \<Rightarrow> ('i \<Rightarrow> 'q \<Rightarrow> (bool \<times> 'q) option) \<Rightarrow> ('q \<Rightarrow> ('a option \<times> 'q) option) \<Rightarrow>
     ('i \<Rightarrow> 'a) \<Rightarrow> 'i fifo_op list \<Rightarrow> 'q \<Rightarrow> ('a list \<times> 'a list \<times> 'q) option" where
  "fifo_run ok deliver fetch item [] q = Some ([], [], q)"
| "fifo_run ok deliver fetch item (Deliver i # ops) q =
     (if ok i q
      then Option.bind (deliver i q) (\<lambda>(b, q1).
        map_option (\<lambda>(acc, out, q2). (if b then item i # acc else acc, out, q2))
          (fifo_run ok deliver fetch item ops q1))
      else None)"
| "fifo_run ok deliver fetch item (Fetch # ops) q =
     Option.bind (fetch q) (\<lambda>(x, q1).
       map_option (\<lambda>(acc, out, q2). (acc, (case x of None \<Rightarrow> out | Some a \<Rightarrow> a # out), q2))
         (fifo_run ok deliver fetch item ops q1))"

locale bounded_fifo =
  fixes inv :: "'q \<Rightarrow> bool"
    and contents :: "'q \<Rightarrow> 'a list"
    and deliver :: "'i \<Rightarrow> 'q \<Rightarrow> (bool \<times> 'q) option"
    and fetch :: "'q \<Rightarrow> ('a option \<times> 'q) option"
    and item :: "'i \<Rightarrow> 'a"
    and cap :: nat
    and ok :: "'i \<Rightarrow> 'q \<Rightarrow> bool"
  assumes deliver_room: "inv q \<Longrightarrow> ok i q \<Longrightarrow> length (contents q) < cap \<Longrightarrow>
      \<exists>q'. deliver i q = Some (True, q') \<and> inv q' \<and> contents q' = contents q @ [item i]"
    and deliver_full: "inv q \<Longrightarrow> ok i q \<Longrightarrow> \<not> length (contents q) < cap \<Longrightarrow> deliver i q = Some (False, q)"
    and fetch_some: "inv q \<Longrightarrow> contents q = a # as \<Longrightarrow>
      \<exists>q'. fetch q = Some (Some a, q') \<and> inv q' \<and> contents q' = as"
    and fetch_none: "inv q \<Longrightarrow> contents q = [] \<Longrightarrow> fetch q = Some (None, q)"
begin

lemma deliver_contents: "inv q \<Longrightarrow> ok i q \<Longrightarrow> deliver i q = Some (b, q') \<Longrightarrow>
    inv q' \<and> contents q' = contents q @ (if b then [item i] else [])"
  using deliver_room [of q i] deliver_full [of q i] by (cases "length (contents q) < cap") auto

lemma fetch_contents: "inv q \<Longrightarrow> fetch q = Some (x, q') \<Longrightarrow>
    inv q' \<and> contents q = (case x of None \<Rightarrow> [] | Some a \<Rightarrow> [a]) @ contents q'"
  using fetch_some [of q] fetch_none [of q] by (cases "contents q") auto

text \<open>Nothing is lost, duplicated or reordered between the two clients.\<close>

lemma run_conserves:
  "inv q \<Longrightarrow> fifo_run ok deliver fetch item ops q = Some (acc, out, q') \<Longrightarrow>
   inv q' \<and> contents q @ acc = out @ contents q'"
proof (induction ops arbitrary: q acc out)
  case Nil
  then show ?case by simp
next
  case (Cons op ops)
  show ?case
  proof (cases op)
    case (Deliver i)
    with Cons.prems obtain b q1 acc1 where d: "ok i q" "deliver i q = Some (b, q1)"
      "fifo_run ok deliver fetch item ops q1 = Some (acc1, out, q')"
      "acc = (if b then item i # acc1 else acc1)"
      by (auto split: if_splits simp: bind_eq_Some_conv)
    note c = deliver_contents [OF Cons.prems(1) d(1,2)]
    show ?thesis using Cons.IH [of q1 acc1 out] c d(3,4) by (cases b) auto
  next
    case Fetch
    with Cons.prems obtain x q1 out1 where d: "fetch q = Some (x, q1)"
      "fifo_run ok deliver fetch item ops q1 = Some (acc, out1, q')"
      "out = (case x of None \<Rightarrow> out1 | Some a \<Rightarrow> a # out1)"
      by (auto simp: bind_eq_Some_conv)
    note c = fetch_contents [OF Cons.prems(1) d(1)]
    show ?thesis using Cons.IH [of q1 acc out1] c d(2,3) by (cases x) auto
  qed
qed

lemma deliver_total: "inv q \<Longrightarrow> ok i q \<Longrightarrow> \<exists>b q'. deliver i q = Some (b, q') \<and> inv q'"
  using deliver_room [of q i] deliver_full [of q i] by blast

lemma fetch_total: "inv q \<Longrightarrow> \<exists>x q'. fetch q = Some (x, q') \<and> inv q'"
  using fetch_some [of q] fetch_none [of q] by (cases "contents q") blast+

text \<open>A run whose calls stay admissible (a predicate \<open>good\<close> on the calls left) never fails.\<close>

lemma run_total:
  assumes ok: "\<And>i ops q. good (Deliver i # ops) q \<Longrightarrow> ok i q"
    and del: "\<And>i ops q b q'. inv q \<Longrightarrow> good (Deliver i # ops) q \<Longrightarrow> deliver i q = Some (b, q') \<Longrightarrow> good ops q'"
    and fet: "\<And>ops q x q'. inv q \<Longrightarrow> good (Fetch # ops) q \<Longrightarrow> fetch q = Some (x, q') \<Longrightarrow> good ops q'"
  shows "inv q \<Longrightarrow> good ops q \<Longrightarrow> \<exists>r. fifo_run ok deliver fetch item ops q = Some r"
proof (induction ops arbitrary: q)
  case Nil
  then show ?case by simp
next
  case (Cons op ops)
  show ?case
  proof (cases op)
    case (Deliver i)
    with Cons.prems have o: "ok i q" by (blast intro: ok)
    then obtain b q1 where d: "deliver i q = Some (b, q1)" "inv q1"
      using deliver_total Cons.prems(1) by blast
    then obtain r where "fifo_run ok deliver fetch item ops q1 = Some r"
      using Cons.IH del Cons.prems Deliver by blast
    then show ?thesis by (cases r) (simp add: Deliver o d(1))
  next
    case Fetch
    obtain x q1 where d: "fetch q = Some (x, q1)" "inv q1"
      using fetch_total Cons.prems(1) by blast
    then obtain r where "fifo_run ok deliver fetch item ops q1 = Some r"
      using Cons.IH fet Cons.prems Fetch by blast
    then show ?thesis by (cases r) (simp add: Fetch d(1))
  qed
qed

end

section \<open>The model is a bounded buffer\<close>

definition queue_deliver :: "i64 \<times> frame_header \<times> u8 list \<Rightarrow> shm_queue \<Rightarrow> (bool \<times> shm_queue) option" where
  "queue_deliver i q = (case i of (now, h, d) \<Rightarrow>
     case shm_queue_push now (Some q) (Some h) (Some d) of
       Ret (rc, Some q') \<Rightarrow> if rc = 0 then Some (True, q') else if rc = - 2 then Some (False, q') else None
     | _ \<Rightarrow> None)"

definition queue_fetch :: "shm_queue \<Rightarrow> (frame option \<times> shm_queue) option" where
  "queue_fetch q =
     (case shm_queue_pop (Some q) (Some zero_header) (Some (replicate MAX_FRAME_SIZE 0)) of
       Ret (rc, Some q', Some h, Some d) \<Rightarrow>
         if rc = 0 then Some (Some (h, take (frame_size h) d), q')
         else if rc = - 2 then Some (None, q') else None
     | _ \<Rightarrow> None)"

definition queue_item :: "i64 \<times> frame_header \<times> u8 list \<Rightarrow> frame" where
  "queue_item i = (case i of (now, h, d) \<Rightarrow> sent_frame now h d)"

text \<open>
  A caller passes a buffer that holds the payload, and the 64-bit write counter is not at its
  end.
\<close>

definition queue_ok :: "i64 \<times> frame_header \<times> u8 list \<Rightarrow> shm_queue \<Rightarrow> bool" where
  "queue_ok i q = (case i of (now, h, d) \<Rightarrow>
     frame_size h \<le> length d \<and> sint (write_seq q) < 2 ^ 63 - 1)"

lemma slot_frame_length:
  "slot_frame s = (h, bytes) \<Longrightarrow> slots_ok q \<Longrightarrow> s \<in> set (slots q) \<Longrightarrow> length bytes = frame_size h"
  using frame_size_le [of h] by (auto simp: slot_frame_def slots_ok_def)

interpretation fq: bounded_fifo queue_inv pending queue_deliver queue_fetch queue_item 64 queue_ok
proof
  fix q i
  assume q: "queue_inv q" and ok: "queue_ok i q"
  obtain now h d where i: "i = (now, h, d)" by (cases i)
  from ok have h: "frame_size h \<le> length d" "sint (write_seq q) < 2 ^ 63 - 1"
    by (auto simp: queue_ok_def i)
  note p = pending_length [OF q] push_eq [OF q h(1), of now]
  show "\<exists>q'. queue_deliver i q = Some (True, q') \<and> queue_inv q' \<and> pending q' = pending q @ [queue_item i]"
    if "length (pending q) < 64"
    using that p put_frame_inv [OF q _ h(2,1), of now] put_frame_pending [OF q _ h(2,1), of now]
    by (simp add: queue_deliver_def queue_item_def i)
  show "queue_deliver i q = Some (False, q)" if "\<not> length (pending q) < 64"
    using that p by (simp add: queue_deliver_def i)
next
  fix q a as
  assume q: "queue_inv q" and c: "pending q = a # as"
  have ne: "sint (read_seq q) < sint (write_seq q)" using c pending_length [OF q] by simp
  then have a: "a = slot_frame (slot_at q (read_seq q))" "as = pending (take_frame q)"
    using take_frame_pending [OF q ne] c by auto
  have "slot_at q (read_seq q) \<in> set (slots q)"
    using queue_invD [OF q] by (simp add: slot_at_ring ring_slot_in)
  then show "\<exists>q'. queue_fetch q = Some (Some a, q') \<and> queue_inv q' \<and> pending q' = as"
    using pop_eq [OF q, of "replicate MAX_FRAME_SIZE 0" zero_header] ne a take_frame_inv [OF q ne]
      slot_frame_length [OF _ queue_invD(1) [OF q]]
    by (cases "slot_frame (slot_at q (read_seq q))") (simp add: queue_fetch_def)
next
  fix q
  assume q: "queue_inv q" and c: "pending q = []"
  then have "\<not> sint (read_seq q) < sint (write_seq q)" using pending_length [OF q] by simp
  then show "queue_fetch q = Some (None, q)"
    using pop_eq [OF q, of "replicate MAX_FRAME_SIZE 0" zero_header] by (simp add: queue_fetch_def)
qed

section \<open>Batches\<close>

text \<open>Bytes \<open>memcpy\<close> leaves in a client's buffer \<open>d\<close> when it receives the frame \<open>f\<close>.\<close>

definition fill_buffer :: "frame \<Rightarrow> u8 list \<Rightarrow> u8 list" where
  "fill_buffer f d = snd f @ drop (length (snd f)) d"

lemma list_update_mid:
  "i < length xs \<Longrightarrow> take (Suc i) (xs[i := x]) = take i xs @ [x]"
  by (simp add: take_Suc_conv_app_nth)

lemma batch_step:
  assumes inv: "queue_inv (q\<lparr>read_seq := s\<rparr>)" and ne: "pending (q\<lparr>read_seq := s\<rparr>) = f # fs"
    and d: "MAX_FRAME_SIZE \<le> length d"
  defines "q1 \<equiv> update_slot q s (fs_state_update (\<lambda>_. SLOT_READING))"
  shows "0 \<le> slot_index s" "slot_cas q s SLOT_READY SLOT_READING = (True, q1)"
    "read_slot q1 s d = Ret (fst f, fill_buffer f d)"
    "(store_state q1 s SLOT_FREE)\<lparr>read_seq := s + 1\<rparr> = take_frame (q\<lparr>read_seq := s\<rparr>)"
    "read_seq (store_state q1 s SLOT_FREE) = read_seq q"
proof -
  let ?Q = "q\<lparr>read_seq := s\<rparr>"
  note i = queue_invD [OF inv]
  have s: "0 \<le> sint s" and ok: "slots_ok q" and len: "length (slots q) = 64"
    using i(1,2) slots_ok_length [OF i(1)] by simp_all
  have lt: "sint (read_seq ?Q) < sint (write_seq ?Q)" using pending_length [OF inv] ne by simp
  have f: "f = slot_frame (slot_at q s)"
    using take_frame_pending [OF inv lt] ne by (simp add: slot_at_def)
  have st: "fs_state (slot_at q s) = SLOT_READY"
    using queue_inv_ready [OF inv, of "sint s"] lt s by (simp add: slot_at_ring)
  have mem: "slot_at q s \<in> set (slots q)" using ok s by (simp add: slot_at_ring ring_slot_in)
  then have dl: "length (fs_data (slot_at q s)) = MAX_FRAME_SIZE" using ok by (simp add: slots_ok_def)
  show "0 \<le> slot_index s" using s by (simp add: slot_index_nonneg)
  show "slot_cas q s SLOT_READY SLOT_READING = (True, q1)" by (simp add: slot_cas_def st q1_def)
  show "read_slot q1 s d = Ret (fst f, fill_buffer f d)"
    using frame_size_le [of "fs_header (slot_at q s)"] d dl s len
    by (simp add: read_slot_def q1_def slot_chain f slot_frame_def fill_buffer_def memcpy_Ret min_def)
  show "(store_state q1 s SLOT_FREE)\<lparr>read_seq := s + 1\<rparr> = take_frame ?Q"
    using slot_position [OF len s]
    by (simp add: store_state_def q1_def take_frame_def update_slot_def slot_at_def)
  show "read_seq (store_state q1 s SLOT_FREE) = read_seq q" by (simp add: store_state_def q1_def)
qed

lemma pop_batch_loop_spec:
  fixes q :: shm_queue and r :: i64
  defines "Q \<equiv> \<lambda>q i. q\<lparr>read_seq := r + word_of_nat i\<rparr>"
  assumes "queue_inv (Q q i)" "k \<le> length (pending (Q q i))" "i + k \<le> length hs" "i + k \<le> length ds"
    "\<forall>d\<in>set ds. MAX_FRAME_SIZE \<le> length d"
  shows "\<exists>q'. pop_batch_loop k i r q hs ds n = Ret (q',
      take i hs @ map fst (take k (pending (Q q i))) @ drop (i + k) hs,
      take i ds @ map2 fill_buffer (take k (pending (Q q i))) (take k (drop i ds)) @ drop (i + k) ds,
      n + int k) \<and> queue_inv (Q q' (i + k)) \<and> pending (Q q' (i + k)) = drop k (pending (Q q i))"
  using assms(2-)
proof (induction k arbitrary: i q hs ds n)
  case 0
  then show ?case by simp
next
  case (Suc k)
  obtain f fs where P: "pending (Q q i) = f # fs" using Suc.prems(2) by (cases "pending (Q q i)") auto
  have i: "i < length hs" "i < length ds" using Suc.prems by simp_all
  let ?s = "r + word_of_nat i"
  note step = batch_step [OF Suc.prems(1) [unfolded Q_def] P [unfolded Q_def], of "ds ! i"]
  define q2 where "q2 = store_state (update_slot q ?s (fs_state_update (\<lambda>_. SLOT_READING))) ?s SLOT_FREE"
  have lt: "sint (read_seq (Q q i)) < sint (write_seq (Q q i))"
    using pending_length [OF Suc.prems(1)] P by simp
  have q2: "Q q2 (Suc i) = take_frame (Q q i)"
    using step(4) i Suc.prems(5) by (simp add: Q_def q2_def ac_simps)
  have inv2: "queue_inv (Q q2 (Suc i))" and pend2: "pending (Q q2 (Suc i)) = fs"
    using take_frame_inv [OF Suc.prems(1) lt] take_frame_pending [OF Suc.prems(1) lt] P
    by (simp_all add: q2)
  have eq: "pop_batch_loop (Suc k) i r q hs ds n =
      pop_batch_loop k (Suc i) r q2 (hs[i := fst f]) (ds[i := fill_buffer f (ds ! i)]) (n + 1)"
    using step(1,2,3) i Suc.prems(5) by (simp add: Let_def q2_def)
  have fill: "\<forall>d\<in>set (ds[i := fill_buffer f (ds ! i)]). MAX_FRAME_SIZE \<le> length d"
    using Suc.prems(5) i
    by (auto simp: fill_buffer_def dest!: set_update_subset_insert [THEN subsetD]
        intro: order_trans [of _ "length (ds ! i)"])
  obtain q' where q': "pop_batch_loop (Suc k) i r q hs ds n = Ret (q',
      take (Suc i) (hs[i := fst f]) @ map fst (take k fs) @ drop (Suc i + k) (hs[i := fst f]),
      take (Suc i) (ds[i := fill_buffer f (ds ! i)]) @
        map2 fill_buffer (take k fs) (take k (drop (Suc i) (ds[i := fill_buffer f (ds ! i)]))) @
        drop (Suc i + k) (ds[i := fill_buffer f (ds ! i)]),
      n + 1 + int k)" "queue_inv (Q q' (Suc i + k))" "pending (Q q' (Suc i + k)) = drop k fs"
    using Suc.IH [OF inv2, of "hs[i := fst f]" "ds[i := fill_buffer f (ds ! i)]" "n + 1"]
      Suc.prems(2-4) P fill unfolding eq pend2 by auto
  have dr: "take (Suc k) (drop i ds) = ds ! i # take k (drop (Suc i) ds)"
    using i(2) by (simp add: Cons_nth_drop_Suc [symmetric])
  show ?case
    using q' i by (intro exI [of _ q']) (simp add: P dr list_update_mid del: pop_batch_loop.simps)
qed

lemma batch_count:
  assumes "queue_inv q"
  shows "nat (sint (if sint (write_seq q - read_seq q) < sint max_count
      then ucast (write_seq q - read_seq q) else (max_count :: i32))) =
    min (length (pending q)) (nat (sint max_count))"
  using queue_invD [OF assms] pending_length [OF assms]
    sint_ucast_i32 [of "write_seq q - read_seq q"]
  by auto

section \<open>Creation\<close>

lemma zero_queue_slots_ok: "slots_ok zero_queue"
  by (simp add: slots_ok_def zero_queue_def)

lemma reset_queue_inv: "slots_ok q \<Longrightarrow> queue_inv (reset_queue q)"
proof -
  assume ok: "slots_ok q"
  have "fs_state (ring_slot (reset_queue q) k) = SLOT_FREE" for k
    using ok nat_mod_less [of 64 k] by (simp add: ring_slot_def reset_queue_def slots_ok_def)
  moreover have "slots_ok (reset_queue q)" using ok by (auto simp: slots_ok_def reset_queue_def)
  ultimately show ?thesis by (simp add: queue_inv_def reset_queue_def)
qed

lemma reset_queue_pending: "pending (reset_queue q) = []"
  by (simp add: pending_def reset_queue_def)

lemma reset_zero_queue: "reset_queue zero_queue = zero_queue"
  by (simp add: reset_queue_def zero_queue_def)

lemma zero_queue_inv: "queue_inv zero_queue"
  using reset_queue_inv [OF zero_queue_slots_ok] by (simp add: reset_zero_queue)

lemma zero_queue_simps [simp]: "write_seq zero_queue = 0" "read_seq zero_queue = 0" "pending zero_queue = []"
  using reset_queue_pending [of zero_queue] by (simp_all only: reset_zero_queue) (simp_all add: zero_queue_def)

lemma push_gpu_failed_inv:
  fixes h :: frame_header
  assumes "queue_inv q" "sint (write_seq q) < sint (read_seq q) + 64"
  defines "q' \<equiv> update_slot q (write_seq q) (\<lambda>s. s\<lparr>fs_header := h, fs_state := SLOT_FREE\<rparr>)"
  shows "queue_inv q'" "pending q' = pending q"
proof -
  note i = queue_invD [OF assms(1)]
  have seqs [simp]: "write_seq q' = write_seq q" "read_seq q' = read_seq q" by (simp_all add: q'_def)
  have ring: "ring_slot q' k = (if k = sint (write_seq q)
      then (ring_slot q k)\<lparr>fs_header := h, fs_state := SLOT_FREE\<rparr> else ring_slot q k)"
    if "sint (read_seq q) \<le> k" "k < sint (read_seq q) + 64" for k
    using that i assms(2) window_mod [of "sint (read_seq q)" k "sint (write_seq q)"]
    by (simp add: q'_def ring_slot_update)
  have "slots_ok q'"
    using i(1,5) ring_slot_data [OF i(1), of "sint (write_seq q)"]
    by (simp add: q'_def slots_ok_update slot_at_ring)
  then show "queue_inv q'"
    using i ring queue_inv_ready [OF assms(1)] queue_inv_free [OF assms(1)]
    by (auto simp: queue_inv_def [of q'])
  show "pending q' = pending q"
    using ring i by (auto simp: pending_def)
qed

section \<open>Counters along a run\<close>

lemma queue_deliver_seq:
  assumes "queue_inv q" "queue_ok i q" "queue_deliver i q = Some (b, q')"
  shows "sint (write_seq q') \<le> sint (write_seq q) + 1"
proof -
  obtain now h d where i: "i = (now, h, d)" by (cases i)
  then show ?thesis
    using assms push_eq [OF assms(1), of h d now]
    by (auto simp: queue_deliver_def queue_ok_def sint_inc_i64 split: if_splits)
qed

lemma queue_fetch_seq:
  assumes "queue_inv q" "queue_fetch q = Some (x, q')"
  shows "write_seq q' = write_seq q"
  using assms pop_eq [OF assms(1), of "replicate MAX_FRAME_SIZE 0" zero_header]
  by (auto simp: queue_fetch_def split: if_splits prod.splits)

definition run_good :: "(i64 \<times> frame_header \<times> u8 list) fifo_op list \<Rightarrow> shm_queue \<Rightarrow> bool" where
  "run_good ops q \<longleftrightarrow> sint (write_seq q) + int (length ops) < 2 ^ 63 \<and>
     (\<forall>now h d. Deliver (now, h, d) \<in> set ops \<longrightarrow> frame_size h \<le> length d)"

lemma run_good_ok: "run_good (Deliver i # ops) q \<Longrightarrow> queue_ok i q"
  by (cases i) (auto simp: run_good_def queue_ok_def)

section \<open>Properties\<close>

text \<open>A small frame for the witnesses: two by two pixels, one channel.\<close>

definition demo_header :: frame_header where
  "demo_header = \<lparr>fh_pts_ns = 40, fh_width = 2, fh_height = 2, fh_channels = 1,
     fh_type = ULTRAVIOLET, fh_stream_index = 0, fh_timestamp_wall = 0\<rparr>"

lemma demo_header_size [simp]: "frame_size demo_header = 4"
  by (simp add: frame_size_def demo_header_def MAX_FRAME_SIZE_eq)

text \<open>
  C28. \<open>shm_queue_push\<close> on a well-formed queue: with room it returns 0, the queue stays
  well-formed and the frame, stamped with the wall clock, is appended to the pending frames with the announced
  number of bytes, cut to the size of a slot if it announces more (it is not refused); on a
  full queue it returns -2 and changes nothing. It never returns -3 and never leaves the slot's
  buffer, whatever dimensions the header claims.
\<close>

theorem shm_queue_push_spec:
  assumes "queue_inv q" "sint (write_seq q) < 2 ^ 63 - 1" "frame_size h \<le> length d"
  shows "if length (pending q) < 64
    then \<exists>q'. shm_queue_push now (Some q) (Some h) (Some d) = Ret (0, Some q') \<and> queue_inv q' \<and>
           pending q' = pending q @ [(h\<lparr>fh_timestamp_wall := now\<rparr>,
             take (min MAX_FRAME_SIZE (unat (scast (fh_width h) * scast (fh_height h) * scast (fh_channels h) :: u64))) d)]
    else shm_queue_push now (Some q) (Some h) (Some d) = Ret (- 2, Some q)"
  using assms pending_length [OF assms(1)] push_eq [OF assms(1,3)] put_frame_inv [OF assms(1)]
    put_frame_pending [OF assms(1)]
  by (simp add: sent_frame_def frame_size_min)

text \<open>A frame of four bytes, and one of 3840 x 2160 x 3 bytes, which is cut.\<close>

theorem shm_queue_push_spec_witness:
  "(\<exists>q'. shm_queue_push 7 (Some zero_queue) (Some demo_header) (Some [10, 20, 30, 40]) = Ret (0, Some q') \<and>
     queue_inv q' \<and> pending q' = [(demo_header\<lparr>fh_timestamp_wall := 7\<rparr>, [10, 20, 30, 40])]) \<and>
   (\<exists>q'. shm_queue_push 7 (Some zero_queue) (Some (demo_header\<lparr>fh_width := 3840, fh_height := 2160, fh_channels := 3\<rparr>))
       (Some (replicate 24883200 5)) = Ret (0, Some q') \<and>
     map (length \<circ> snd) (pending q') = [MAX_FRAME_SIZE])"
proof
  show "\<exists>q'. shm_queue_push 7 (Some zero_queue) (Some demo_header) (Some [10, 20, 30, 40]) = Ret (0, Some q') \<and>
     queue_inv q' \<and> pending q' = [(demo_header\<lparr>fh_timestamp_wall := 7\<rparr>, [10, 20, 30, 40])]"
  proof -
    have f: "frame_size demo_header \<le> length [10, 20, 30, 40 :: u8]" by simp
    have n: "unat (scast (fh_width demo_header) * scast (fh_height demo_header) * scast (fh_channels demo_header) :: u64) = 4"
      by (simp add: demo_header_def)
    show ?thesis using shm_queue_push_spec [OF zero_queue_inv _ f, of 7] by (simp add: n MAX_FRAME_SIZE_eq)
  qed
  let ?h = "demo_header\<lparr>fh_width := 3840, fh_height := 2160, fh_channels := 3\<rparr>"
  have "frame_size ?h \<le> length (replicate 24883200 (5 :: u8))" using frame_size_le [of ?h] by (simp add: MAX_FRAME_SIZE_eq)
  from shm_queue_push_spec [OF zero_queue_inv _ this, of 7]
  show "\<exists>q'. shm_queue_push 7 (Some zero_queue) (Some ?h) (Some (replicate 24883200 5)) = Ret (0, Some q') \<and>
     map (length \<circ> snd) (pending q') = [MAX_FRAME_SIZE]"
    by (simp add: MAX_FRAME_SIZE_eq) (auto simp: MAX_FRAME_SIZE_eq)
qed

text \<open>
  C29. \<open>shm_queue_pop\<close> on a well-formed queue: it delivers the header and the payload of the
  oldest pending frame and removes it, or returns -2 on an empty queue, changing nothing. The
  bytes of the caller's buffer after the payload are kept.
\<close>

theorem shm_queue_pop_spec:
  assumes "queue_inv q" "MAX_FRAME_SIZE \<le> length od"
  shows "case pending q of
      [] \<Rightarrow> shm_queue_pop (Some q) (Some oh) (Some od) = Ret (- 2, Some q, Some oh, Some od)
    | f # fs \<Rightarrow> \<exists>q'. shm_queue_pop (Some q) (Some oh) (Some od) =
          Ret (0, Some q', Some (fst f), Some (fill_buffer f od)) \<and> queue_inv q' \<and> pending q' = fs"
proof (cases "pending q")
  case Nil
  then show ?thesis using pending_length [OF assms(1)] pop_eq [OF assms] by simp
next
  case (Cons f fs)
  then have lt: "sint (read_seq q) < sint (write_seq q)" using pending_length [OF assms(1)] by simp
  then show ?thesis
    using Cons pop_eq [OF assms] take_frame_inv [OF assms(1) lt] take_frame_pending [OF assms(1) lt]
    by (cases f) (simp add: fill_buffer_def)
qed

theorem shm_queue_pop_spec_witness:
  "\<exists>q'. shm_queue_pop (Some (put_frame 7 demo_header [10, 20, 30, 40] zero_queue)) (Some zero_header)
       (Some (replicate MAX_FRAME_SIZE 0)) =
     Ret (0, Some q', Some (demo_header\<lparr>fh_timestamp_wall := 7\<rparr>),
       Some ([10, 20, 30, 40] @ replicate (MAX_FRAME_SIZE - 4) 0)) \<and> queue_inv q' \<and> pending q' = []"
  using shm_queue_pop_spec [of "put_frame 7 demo_header [10, 20, 30, 40] zero_queue"
      "replicate MAX_FRAME_SIZE 0" zero_header]
    put_frame_inv [OF zero_queue_inv, of demo_header "[10, 20, 30, 40]" 7]
    put_frame_pending [OF zero_queue_inv, of demo_header "[10, 20, 30, 40]" 7]
  by (auto simp add: sent_frame_def fill_buffer_def)

text \<open>
  \<open>shm_queue_push_gpu\<close>: a successful device copy behaves like \<open>shm_queue_push\<close>; when
  \<open>cudaMemcpyAsync\<close> fails the call returns -4 and the claimed slot is given back: the queue is
  well-formed and has the same pending frames.
\<close>

theorem shm_queue_push_gpu_spec:
  assumes "queue_inv q" "frame_size h \<le> length d" "length (pending q) < 64"
  shows "shm_queue_push_gpu now True (Some q) (Some h) (Some d) =
      shm_queue_push now (Some q) (Some h) (Some d) \<and>
    (\<exists>q'. shm_queue_push_gpu now False (Some q) (Some h) (Some d) = Ret (- 4, Some q') \<and>
       queue_inv q' \<and> pending q' = pending q)"
proof
  note i = queue_invD [OF assms(1)]
  show "shm_queue_push_gpu now True (Some q) (Some h) (Some d) = shm_queue_push now (Some q) (Some h) (Some d)"
    using assms(1,2) by (rule push_gpu_eq)
  have lt: "sint (write_seq q) < sint (read_seq q) + 64"
    using assms(3) pending_length [OF assms(1)] by simp
  have "fs_state (slot_at q (write_seq q)) = SLOT_FREE"
    using i lt queue_inv_free [OF assms(1), of "sint (write_seq q)"] by (simp add: slot_at_ring)
  then show "\<exists>q'. shm_queue_push_gpu now False (Some q) (Some h) (Some d) = Ret (- 4, Some q') \<and>
      queue_inv q' \<and> pending q' = pending q"
    using i lt push_gpu_failed_inv [OF assms(1) lt, of "h\<lparr>fh_timestamp_wall := now\<rparr>"]
    by (simp add: shm_queue_push_gpu_def Let_def slot_index_nonneg slot_cas_def write_header_def
        store_state_def slot_chain)
qed

theorem shm_queue_push_gpu_spec_witness:
  "\<exists>q'. shm_queue_push_gpu 7 False (Some zero_queue) (Some demo_header) (Some [10, 20, 30, 40]) =
     Ret (- 4, Some q') \<and> queue_inv q' \<and> pending q' = []"
  using shm_queue_push_gpu_spec [OF zero_queue_inv, of demo_header "[10, 20, 30, 40]" 7] by simp

text \<open>
  \<open>shm_queue_pop_batch\<close> delivers the \<open>n\<close> oldest pending frames in order, where \<open>n\<close> is the
  smaller of \<open>max_count\<close> (a negative one counts as 0) and the number of pending frames, stores
  \<open>n\<close> in \<open>out_count\<close>, and leaves the other frames pending.
\<close>

theorem shm_queue_pop_batch_spec:
  assumes "queue_inv q" "nat (sint max_count) \<le> length hs" "nat (sint max_count) \<le> length ds"
    "\<forall>d\<in>set ds. MAX_FRAME_SIZE \<le> length d"
  defines "n \<equiv> min (length (pending q)) (nat (sint max_count))"
  shows "\<exists>q'. shm_queue_pop_batch (Some q) (Some hs) (Some ds) max_count (Some c) =
      Ret (0, Some q', Some (map fst (take n (pending q)) @ drop n hs),
        Some (map2 fill_buffer (take n (pending q)) (take n ds) @ drop n ds), Some (int n)) \<and>
    queue_inv q' \<and> pending q' = drop n (pending q)"
proof -
  have n: "n \<le> length (pending q)" "n \<le> length hs" "n \<le> length ds"
    using assms(2,3) by (simp_all add: n_def)
  have "q\<lparr>read_seq := read_seq q + word_of_nat 0\<rparr> = q" by simp
  then obtain q' where q': "pop_batch_loop n 0 (read_seq q) q hs ds 0 =
      Ret (q', map fst (take n (pending q)) @ drop n hs,
        map2 fill_buffer (take n (pending q)) (take n ds) @ drop n ds, int n)"
    "queue_inv (q'\<lparr>read_seq := read_seq q + word_of_nat n\<rparr>)"
    "pending (q'\<lparr>read_seq := read_seq q + word_of_nat n\<rparr>) = drop n (pending q)"
    using pop_batch_loop_spec [where q = q and r = "read_seq q" and i = 0 and k = n and hs = hs
        and ds = ds and n = 0] n assms(1,4) by auto
  then show ?thesis
    using batch_count [OF assms(1), of max_count]
    by (simp add: shm_queue_pop_batch_def Let_def n_def)
qed

theorem shm_queue_pop_batch_spec_witness:
  "\<exists>q'. shm_queue_pop_batch (Some (put_frame 7 demo_header [10, 20, 30, 40] zero_queue))
       (Some [zero_header]) (Some [replicate MAX_FRAME_SIZE 0]) 1 (Some 9) =
     Ret (0, Some q', Some [demo_header\<lparr>fh_timestamp_wall := 7\<rparr>],
       Some [[10, 20, 30, 40] @ replicate (MAX_FRAME_SIZE - 4) 0], Some 1) \<and> pending q' = []"
  using shm_queue_pop_batch_spec [of "put_frame 7 demo_header [10, 20, 30, 40] zero_queue" 1
      "[zero_header]" "[replicate MAX_FRAME_SIZE 0]" 9]
    put_frame_inv [OF zero_queue_inv, of demo_header "[10, 20, 30, 40]" 7]
    put_frame_pending [OF zero_queue_inv, of demo_header "[10, 20, 30, 40]" 7]
  by (auto simp: sent_frame_def fill_buffer_def)

text \<open>
  C6. First in, first out over whole runs: any sequence of pushes and pops on a well-formed queue
  completes, and the frames pending at the start followed by the accepted ones are the delivered
  ones followed by those pending at the end; none is lost, duplicated, reordered or altered.
\<close>

theorem queue_run_conserves:
  assumes "queue_inv q" "run_good ops q"
  shows "\<exists>acc out q'. fifo_run queue_ok queue_deliver queue_fetch queue_item ops q = Some (acc, out, q') \<and>
    queue_inv q' \<and> pending q @ acc = out @ pending q'"
proof -
  have "\<exists>r. fifo_run queue_ok queue_deliver queue_fetch queue_item ops q = Some r"
  proof (rule fq.run_total [of run_good, OF run_good_ok _ _ assms])
    show "run_good ops q'" if "queue_inv q" "run_good (Deliver i # ops) q" "queue_deliver i q = Some (b, q')"
      for i ops q b q'
      using that queue_deliver_seq [OF that(1) run_good_ok [OF that(2)] that(3)]
      by (auto simp: run_good_def)
    show "run_good ops q'" if "queue_inv q" "run_good (Fetch # ops) q" "queue_fetch q = Some (x, q')"
      for ops q x q'
      using that queue_fetch_seq [OF that(1,3)] by (auto simp: run_good_def)
  qed
  then obtain acc out q' where r: "fifo_run queue_ok queue_deliver queue_fetch queue_item ops q = Some (acc, out, q')"
    by auto
  with fq.run_conserves [OF assms(1) r] show ?thesis by blast
qed

theorem queue_run_conserves_witness:
  "\<exists>acc out q'. fifo_run queue_ok queue_deliver queue_fetch queue_item
       [Deliver (7, demo_header, [10, 20, 30, 40]), Fetch, Fetch] zero_queue = Some (acc, out, q') \<and>
     acc = out @ pending q'"
  using queue_run_conserves [OF zero_queue_inv, of "[Deliver (7, demo_header, [10, 20, 30, 40]), Fetch, Fetch]"]
  by (auto simp: run_good_def simp del: fifo_run.simps)

text \<open>
  C31. \<open>shm_queue_create\<close> on a key whose segment exists (another handle of a live queue) empties
  the queue: both sequence numbers return to 0 and every pending frame is dropped. On a fresh key
  it makes an empty queue. Either way the segment registered under the key is the queue returned.
\<close>

theorem shm_queue_create_resets:
  assumes "os_shm_open os" "os_ftruncate os" "os_mmap os" "\<forall>q. store key = Some q \<longrightarrow> slots_ok q"
  shows "\<exists>q. shm_queue_create os key store = (Some q, store(key \<mapsto> q)) \<and> queue_inv q \<and> pending q = []"
proof -
  let ?seg = "case store key of None \<Rightarrow> zero_queue | Some q \<Rightarrow> q"
  have "slots_ok ?seg" using assms(4) zero_queue_slots_ok by (simp split: option.split)
  then show ?thesis
    using assms(1-3) reset_queue_inv reset_queue_pending by (simp add: shm_queue_create_def Let_def)
qed

theorem shm_queue_create_resets_witness:
  "pending (put_frame 7 demo_header [10, 20, 30, 40] zero_queue) \<noteq> [] \<and>
   (\<exists>q. shm_queue_create \<lparr>os_shm_open = True, os_ftruncate = True, os_mmap = True\<rparr> 3
       [3 \<mapsto> put_frame 7 demo_header [10, 20, 30, 40] zero_queue] = (Some q, [3 \<mapsto> q]) \<and> pending q = [])"
  using shm_queue_create_resets [of "\<lparr>os_shm_open = True, os_ftruncate = True, os_mmap = True\<rparr>"
      "[3 \<mapsto> put_frame 7 demo_header [10, 20, 30, 40] zero_queue]" 3]
    put_frame_inv [OF zero_queue_inv, of demo_header "[10, 20, 30, 40]" 7, THEN queue_invD(1)]
    put_frame_pending [OF zero_queue_inv, of demo_header "[10, 20, 30, 40]" 7]
  by auto

end
