(* ===== verification/Queue_Spsc.thy ===== *)
theory Queue_Spsc
  imports Frame_Queue
begin

text \<open>
  One producer and one consumer on a shared queue, at the granularity of the atomic accesses of
  \<open>shm_queue_push\<close> and \<open>shm_queue_pop\<close>: the two threads run the steps of
  \<open>Frame_Queue\<close> in any interleaving. The program counters carry the local variables. The
  interleaving is sequentially consistent, which the acquire/release pairs on the sequence
  numbers and slot states give for the accesses that matter: a thread touches a slot's payload
  only after it has won the compare-and-swap on its state.
\<close>

section \<open>Threads and their steps\<close>

type_synonym job = "i64 \<times> frame_header \<times> u8 list"

datatype prod_pc =
    PIdle
  | PLoadR job i64
  | PCas job i64
  | PHeader job i64
  | PData job i64
  | PReady job i64
  | PSeq job i64
  | PFailed

datatype cons_pc =
    CIdle
  | CLoadW i64
  | CCas i64
  | CRead i64
  | CFree i64 frame
  | CSeq i64 frame
  | CFailed

text \<open>The shared queue, both threads, and the frames published and consumed so far.\<close>

record spsc =
  sq :: shm_queue
  ppc :: prod_pc
  cpc :: cons_pc
  sent :: "frame list"
  got :: "frame list"

inductive spsc_step :: "spsc \<Rightarrow> spsc \<Rightarrow> bool" where
  p_start: "ppc s = PIdle \<Longrightarrow> frame_size h \<le> length d \<Longrightarrow>
    spsc_step s (s\<lparr>ppc := PLoadR (now, h, d) (write_seq (sq s))\<rparr>)"
| p_full: "ppc s = PLoadR j w \<Longrightarrow> SHM_QUEUE_CAPACITY \<le> sint (w - read_seq (sq s)) \<Longrightarrow>
    spsc_step s (s\<lparr>ppc := PIdle\<rparr>)"
| p_room: "ppc s = PLoadR j w \<Longrightarrow> \<not> SHM_QUEUE_CAPACITY \<le> sint (w - read_seq (sq s)) \<Longrightarrow>
    spsc_step s (s\<lparr>ppc := PCas j w\<rparr>)"
| p_cas: "ppc s = PCas j w \<Longrightarrow> slot_cas (sq s) w SLOT_FREE SLOT_WRITING = (True, q) \<Longrightarrow>
    spsc_step s (s\<lparr>sq := q, ppc := PHeader j w\<rparr>)"
| p_cas_fail: "ppc s = PCas j w \<Longrightarrow> slot_cas (sq s) w SLOT_FREE SLOT_WRITING = (False, q) \<Longrightarrow>
    spsc_step s (s\<lparr>ppc := PFailed\<rparr>)"
| p_header: "ppc s = PHeader (now, h, d) w \<Longrightarrow>
    spsc_step s (s\<lparr>sq := write_header now h (sq s) w, ppc := PData (now, h, d) w\<rparr>)"
| p_data: "ppc s = PData (now, h, d) w \<Longrightarrow> write_data h d (sq s) w = Ret q \<Longrightarrow>
    spsc_step s (s\<lparr>sq := q, ppc := PReady (now, h, d) w\<rparr>)"
| p_ready: "ppc s = PReady j w \<Longrightarrow>
    spsc_step s (s\<lparr>sq := store_state (sq s) w SLOT_READY, ppc := PSeq j w\<rparr>)"
| p_seq: "ppc s = PSeq j w \<Longrightarrow>
    spsc_step s (s\<lparr>sq := (sq s)\<lparr>write_seq := w + 1\<rparr>, ppc := PIdle, sent := sent s @ [queue_item j]\<rparr>)"
| c_start: "cpc s = CIdle \<Longrightarrow> spsc_step s (s\<lparr>cpc := CLoadW (read_seq (sq s))\<rparr>)"
| c_empty: "cpc s = CLoadW r \<Longrightarrow> sint (write_seq (sq s)) \<le> sint r \<Longrightarrow> spsc_step s (s\<lparr>cpc := CIdle\<rparr>)"
| c_avail: "cpc s = CLoadW r \<Longrightarrow> \<not> sint (write_seq (sq s)) \<le> sint r \<Longrightarrow> spsc_step s (s\<lparr>cpc := CCas r\<rparr>)"
| c_cas: "cpc s = CCas r \<Longrightarrow> slot_cas (sq s) r SLOT_READY SLOT_READING = (True, q) \<Longrightarrow>
    spsc_step s (s\<lparr>sq := q, cpc := CRead r\<rparr>)"
| c_cas_fail: "cpc s = CCas r \<Longrightarrow> slot_cas (sq s) r SLOT_READY SLOT_READING = (False, q) \<Longrightarrow>
    spsc_step s (s\<lparr>cpc := CFailed\<rparr>)"
| c_read: "cpc s = CRead r \<Longrightarrow> MAX_FRAME_SIZE \<le> length od \<Longrightarrow> read_slot (sq s) r od = Ret (h, d) \<Longrightarrow>
    spsc_step s (s\<lparr>cpc := CFree r (h, take (frame_size h) d)\<rparr>)"
| c_free: "cpc s = CFree r f \<Longrightarrow>
    spsc_step s (s\<lparr>sq := store_state (sq s) r SLOT_FREE, cpc := CSeq r f\<rparr>)"
| c_seq: "cpc s = CSeq r f \<Longrightarrow>
    spsc_step s (s\<lparr>sq := (sq s)\<lparr>read_seq := r + 1\<rparr>, cpc := CIdle, got := got s @ [f]\<rparr>)"

definition spsc_init :: spsc where
  "spsc_init = \<lparr>sq = zero_queue, ppc = PIdle, cpc = CIdle, sent = [], got = []\<rparr>"

inductive spsc_reach :: "spsc \<Rightarrow> bool" where
  init: "spsc_reach spsc_init"
| step: "spsc_reach s \<Longrightarrow> spsc_step s t \<Longrightarrow> spsc_reach t"

section \<open>The invariant\<close>

text \<open>The state a slot of the current window has, given where the threads are.\<close>

definition slot_expect :: "prod_pc \<Rightarrow> cons_pc \<Rightarrow> int \<Rightarrow> int \<Rightarrow> int \<Rightarrow> slot_state" where
  "slot_expect p c R W k =
     (if k = R \<and> (case c of CRead _ \<Rightarrow> True | CFree _ _ \<Rightarrow> True | _ \<Rightarrow> False) then SLOT_READING
      else if k = R \<and> (case c of CSeq _ _ \<Rightarrow> True | _ \<Rightarrow> False) then SLOT_FREE
      else if k < W then SLOT_READY
      else if k = W \<and> (case p of PHeader _ _ \<Rightarrow> True | PData _ _ \<Rightarrow> True | PReady _ _ \<Rightarrow> True | _ \<Rightarrow> False)
        then SLOT_WRITING
      else if k = W \<and> (case p of PSeq _ _ \<Rightarrow> True | _ \<Rightarrow> False) then SLOT_READY
      else SLOT_FREE)"

definition prod_room :: "shm_queue \<Rightarrow> i64 \<Rightarrow> bool" where
  "prod_room q w \<longleftrightarrow> w = write_seq q \<and> sint w < sint (read_seq q) + SHM_QUEUE_CAPACITY"

definition job_ok :: "job \<Rightarrow> bool" where
  "job_ok j \<longleftrightarrow> (case j of (now, h, d) \<Rightarrow> frame_size h \<le> length d)"

fun prod_local :: "shm_queue \<Rightarrow> prod_pc \<Rightarrow> bool" where
  "prod_local q PIdle = True"
| "prod_local q (PLoadR j w) = (job_ok j \<and> w = write_seq q)"
| "prod_local q (PCas j w) = (job_ok j \<and> prod_room q w)"
| "prod_local q (PHeader j w) = (job_ok j \<and> prod_room q w)"
| "prod_local q (PData j w) = (job_ok j \<and> prod_room q w \<and>
     fs_header (ring_slot q (sint w)) = fst (queue_item j))"
| "prod_local q (PReady j w) = (job_ok j \<and> prod_room q w \<and> slot_frame (ring_slot q (sint w)) = queue_item j)"
| "prod_local q (PSeq j w) = (job_ok j \<and> prod_room q w \<and> slot_frame (ring_slot q (sint w)) = queue_item j)"
| "prod_local q PFailed = False"

definition cons_some :: "shm_queue \<Rightarrow> i64 \<Rightarrow> bool" where
  "cons_some q r \<longleftrightarrow> r = read_seq q \<and> sint r < sint (write_seq q)"

fun cons_local :: "shm_queue \<Rightarrow> cons_pc \<Rightarrow> bool" where
  "cons_local q CIdle = True"
| "cons_local q (CLoadW r) = (r = read_seq q)"
| "cons_local q (CCas r) = cons_some q r"
| "cons_local q (CRead r) = cons_some q r"
| "cons_local q (CFree r f) = (cons_some q r \<and> f = slot_frame (ring_slot q (sint r)))"
| "cons_local q (CSeq r f) = (cons_some q r \<and> f = slot_frame (ring_slot q (sint r)))"
| "cons_local q CFailed = False"

definition ring_ok :: "shm_queue \<Rightarrow> bool" where
  "ring_ok q \<longleftrightarrow> slots_ok q \<and> 0 \<le> sint (read_seq q) \<and> sint (read_seq q) \<le> sint (write_seq q) \<and>
     sint (write_seq q) \<le> sint (read_seq q) + SHM_QUEUE_CAPACITY"

definition states_ok :: "shm_queue \<Rightarrow> prod_pc \<Rightarrow> cons_pc \<Rightarrow> bool" where
  "states_ok q p c \<longleftrightarrow> (\<forall>k. sint (read_seq q) \<le> k \<and> k < sint (read_seq q) + SHM_QUEUE_CAPACITY \<longrightarrow>
     fs_state (ring_slot q k) = slot_expect p c (sint (read_seq q)) (sint (write_seq q)) k)"

definition spsc_inv :: "spsc \<Rightarrow> bool" where
  "spsc_inv s \<longleftrightarrow> ring_ok (sq s) \<and> prod_local (sq s) (ppc s) \<and> cons_local (sq s) (cpc s) \<and>
     states_ok (sq s) (ppc s) (cpc s) \<and> sent s = got s @ pending (sq s) \<and>
     sint (write_seq (sq s)) = int (length (sent s))"

section \<open>Effect of one write on the window\<close>

lemma ring_okD:
  assumes "ring_ok q"
  shows "slots_ok q" "length (slots q) = 64" "0 \<le> sint (read_seq q)"
    "sint (read_seq q) \<le> sint (write_seq q)" "sint (write_seq q) \<le> sint (read_seq q) + 64"
  using assms by (auto simp: ring_ok_def slots_ok_length)

lemma window_update:
  assumes "ring_ok q" "sint (read_seq q) \<le> sint s" "sint s < sint (read_seq q) + 64"
    "sint (read_seq q) \<le> k" "k < sint (read_seq q) + 64"
  shows "ring_slot (update_slot q s f) k = (if k = sint s then f (ring_slot q k) else ring_slot q k)"
  using ring_okD [OF assms(1)] assms window_mod [of "sint (read_seq q)" k "sint s"]
  by (simp add: ring_slot_update)

lemma window_update_ok:
  assumes "ring_ok q" "0 \<le> sint s" "length (fs_data (f (slot_at q s))) = MAX_FRAME_SIZE"
  shows "ring_ok (update_slot q s f)"
  using assms by (simp add: ring_ok_def slots_ok_update)

lemma prod_roomD:
  assumes "ring_ok q" "prod_room q w"
  shows "w = write_seq q" "0 \<le> sint w" "sint (read_seq q) \<le> sint w" "sint w < sint (read_seq q) + 64"
  using assms ring_okD [OF assms(1)] by (auto simp: prod_room_def)

lemma cons_someD:
  assumes "ring_ok q" "cons_some q r"
  shows "r = read_seq q" "0 \<le> sint r" "sint r < sint (write_seq q)"
    "sint (read_seq q) \<le> sint r" "sint r < sint (read_seq q) + 64"
  using assms ring_okD [OF assms(1)] by (auto simp: cons_some_def)

lemma pending_cong:
  assumes "read_seq q' = read_seq q" "write_seq q' = write_seq q"
    "\<And>k. sint (read_seq q) \<le> k \<Longrightarrow> k < sint (write_seq q) \<Longrightarrow>
       slot_frame (ring_slot q' k) = slot_frame (ring_slot q k)"
  shows "pending q' = pending q"
  unfolding pending_def by (rule map_cong) (use assms in auto)

lemma cons_local_cong:
  assumes "read_seq q' = read_seq q" "sint (write_seq q) \<le> sint (write_seq q')"
    "sint (read_seq q) < sint (write_seq q) \<Longrightarrow>
       slot_frame (ring_slot q' (sint (read_seq q))) = slot_frame (ring_slot q (sint (read_seq q)))"
  shows "cons_local q c \<Longrightarrow> cons_local q' c"
  using assms by (cases c) (auto simp: cons_some_def)

lemma prod_local_cong:
  assumes "write_seq q' = write_seq q" "sint (read_seq q) \<le> sint (read_seq q')"
    "sint (write_seq q) < sint (read_seq q) + 64 \<Longrightarrow>
       slot_frame (ring_slot q' (sint (write_seq q))) = slot_frame (ring_slot q (sint (write_seq q)))"
  shows "prod_local q p \<Longrightarrow> prod_local q' p"
  using assms by (cases p) (auto simp: prod_room_def slot_frame_def)

text \<open>A write by the producer to its slot: the consumer's view does not change.\<close>

lemma producer_write:
  assumes "ring_ok q" "prod_room q w" "length (fs_data (f (slot_at q w))) = MAX_FRAME_SIZE"
  defines "q' \<equiv> update_slot q w f"
  shows "ring_ok q'" "pending q' = pending q" "cons_local q c \<Longrightarrow> cons_local q' c"
    "ring_slot q' (sint w) = f (ring_slot q (sint w))"
    "\<And>k. sint (read_seq q) \<le> k \<Longrightarrow> k < sint (read_seq q) + 64 \<Longrightarrow> k \<noteq> sint w \<Longrightarrow>
       ring_slot q' k = ring_slot q k"
    "prod_room q' w"
proof -
  have [simp]: "read_seq q' = read_seq q" "write_seq q' = write_seq q" by (simp_all add: q'_def)
  note r = ring_okD [OF assms(1)] and w = prod_roomD [OF assms(1,2)]
  note upd = window_update [OF assms(1) w(3,4), of _ f, folded q'_def]
  show "ring_ok q'" unfolding q'_def using assms(1,3) w(2) by (intro window_update_ok)
  show "ring_slot q' (sint w) = f (ring_slot q (sint w))" using upd w by simp
  show other: "\<And>k. sint (read_seq q) \<le> k \<Longrightarrow> k < sint (read_seq q) + 64 \<Longrightarrow> k \<noteq> sint w \<Longrightarrow>
      ring_slot q' k = ring_slot q k"
    using upd by simp
  show "pending q' = pending q"
    using r w by (intro pending_cong) (auto simp: other)
  show "cons_local q c \<Longrightarrow> cons_local q' c"
    using r w by (intro cons_local_cong [of q' q]) (auto simp: other)
  show "prod_room q' w" using assms(2) by (auto simp: prod_room_def)
qed

text \<open>A state change by the consumer at its slot: the producer's view does not change.\<close>

lemma consumer_write:
  fixes st :: slot_state
  assumes "ring_ok q" "cons_some q r"
  defines "q' \<equiv> update_slot q r (fs_state_update (\<lambda>_. st))"
  shows "ring_ok q'" "pending q' = pending q" "prod_local q p \<Longrightarrow> prod_local q' p"
    "fs_state (ring_slot q' (sint r)) = st"
    "\<And>k. sint (read_seq q) \<le> k \<Longrightarrow> k < sint (read_seq q) + 64 \<Longrightarrow> k \<noteq> sint r \<Longrightarrow>
       ring_slot q' k = ring_slot q k"
    "cons_some q' r" "slot_frame (ring_slot q' (sint r)) = slot_frame (ring_slot q (sint r))"
proof -
  have [simp]: "read_seq q' = read_seq q" "write_seq q' = write_seq q" by (simp_all add: q'_def)
  note w = ring_okD [OF assms(1)] and r = cons_someD [OF assms(1,2)]
  note upd = window_update [OF assms(1) r(4,5), of _ "fs_state_update (\<lambda>_. st)", folded q'_def]
  show "ring_ok q'"
    unfolding q'_def using assms(1) r(2) ring_slot_data [OF w(1), of "sint r"]
    by (intro window_update_ok) (simp_all add: slot_at_ring)
  show same: "slot_frame (ring_slot q' (sint r)) = slot_frame (ring_slot q (sint r))"
    and "fs_state (ring_slot q' (sint r)) = st"
    using upd [of "sint r"] r by (simp_all add: slot_frame_def)
  show other: "\<And>k. sint (read_seq q) \<le> k \<Longrightarrow> k < sint (read_seq q) + 64 \<Longrightarrow> k \<noteq> sint r \<Longrightarrow>
      ring_slot q' k = ring_slot q k"
    using upd by simp
  have frames: "slot_frame (ring_slot q' k) = slot_frame (ring_slot q k)"
    if "sint (read_seq q) \<le> k" "k < sint (read_seq q) + 64" for k
    using that other same by (cases "k = sint r") auto
  show "pending q' = pending q" using w by (intro pending_cong) (auto simp: frames)
  show "prod_local q p \<Longrightarrow> prod_local q' p"
    using w by (intro prod_local_cong [of q' q]) (auto simp: frames)
  show "cons_some q' r" using assms(2) by (auto simp: cons_some_def)
qed

section \<open>Slot states\<close>

lemma slot_expect_prod: "k \<noteq> W \<Longrightarrow> slot_expect p c R W k = slot_expect p' c R W k"
  by (simp add: slot_expect_def)

lemma slot_expect_cons: "k \<noteq> R \<Longrightarrow> slot_expect p c R W k = slot_expect p c' R W k"
  by (simp add: slot_expect_def)

text \<open>The producer's slot is not the one the consumer holds.\<close>

lemma slot_expect_own:
  assumes "cons_local q c" "ring_ok q"
  defines "R \<equiv> sint (read_seq q)" and "W \<equiv> sint (write_seq q)"
  shows "slot_expect p c R W W =
    (case p of PHeader _ _ \<Rightarrow> SLOT_WRITING | PData _ _ \<Rightarrow> SLOT_WRITING | PReady _ _ \<Rightarrow> SLOT_WRITING
     | PSeq _ _ \<Rightarrow> SLOT_READY | _ \<Rightarrow> SLOT_FREE)"
  using assms by (cases c; cases p) (auto simp: slot_expect_def cons_some_def)

lemma states_ok_prod:
  assumes "states_ok q p c" "ring_ok q" "cons_local q c" "prod_room q w"
    "read_seq q' = read_seq q" "write_seq q' = write_seq q"
    "\<And>k. sint (read_seq q) \<le> k \<Longrightarrow> k < sint (read_seq q) + 64 \<Longrightarrow> k \<noteq> sint w \<Longrightarrow>
       ring_slot q' k = ring_slot q k"
    "fs_state (ring_slot q' (sint w)) =
      (case p' of PHeader _ _ \<Rightarrow> SLOT_WRITING | PData _ _ \<Rightarrow> SLOT_WRITING | PReady _ _ \<Rightarrow> SLOT_WRITING
       | PSeq _ _ \<Rightarrow> SLOT_READY | _ \<Rightarrow> SLOT_FREE)"
  shows "states_ok q' p' c"
  unfolding states_ok_def
proof (intro allI impI)
  fix k assume k: "sint (read_seq q') \<le> k \<and> k < sint (read_seq q') + SHM_QUEUE_CAPACITY"
  have w: "w = write_seq q" using assms(4) by (simp add: prod_room_def)
  show "fs_state (ring_slot q' k) = slot_expect p' c (sint (read_seq q')) (sint (write_seq q')) k"
  proof (cases "k = sint (write_seq q)")
    case True
    then show ?thesis using assms(5,6,8) w slot_expect_own [OF assms(3,2), of p'] by simp
  next
    case False
    then show ?thesis
      using assms(1,5,6) assms(7) [of k] k w slot_expect_prod [OF False, of p' c _ p]
      by (simp add: states_ok_def)
  qed
qed

lemma states_ok_cons:
  assumes "states_ok q p c" "cons_some q r"
    "read_seq q' = read_seq q" "write_seq q' = write_seq q"
    "\<And>k. sint (read_seq q) \<le> k \<Longrightarrow> k < sint (read_seq q) + 64 \<Longrightarrow> k \<noteq> sint r \<Longrightarrow>
       ring_slot q' k = ring_slot q k"
    "fs_state (ring_slot q' (sint r)) =
      (case c' of CRead _ \<Rightarrow> SLOT_READING | CFree _ _ \<Rightarrow> SLOT_READING | CSeq _ _ \<Rightarrow> SLOT_FREE | _ \<Rightarrow> SLOT_READY)"
  shows "states_ok q' p c'"
  unfolding states_ok_def
proof (intro allI impI)
  fix k assume k: "sint (read_seq q') \<le> k \<and> k < sint (read_seq q') + SHM_QUEUE_CAPACITY"
  have r: "r = read_seq q" "sint r < sint (write_seq q)" using assms(2) by (auto simp: cons_some_def)
  show "fs_state (ring_slot q' k) = slot_expect p c' (sint (read_seq q')) (sint (write_seq q')) k"
  proof (cases "k = sint (read_seq q)")
    case True
    then show ?thesis using assms(3,4,6) r by (cases c') (simp_all add: slot_expect_def)
  next
    case False
    then show ?thesis
      using assms(1,3,4) assms(5) [of k] k r slot_expect_cons [OF False, of p c' _ c]
      by (simp add: states_ok_def)
  qed
qed

section \<open>Every step keeps the invariant\<close>

lemma spsc_invD:
  assumes "spsc_inv s"
  shows "ring_ok (sq s)" "prod_local (sq s) (ppc s)" "cons_local (sq s) (cpc s)"
    "states_ok (sq s) (ppc s) (cpc s)" "sent s = got s @ pending (sq s)"
    "sint (write_seq (sq s)) = int (length (sent s))"
  using assms by (simp_all add: spsc_inv_def)

lemma prod_write_inv:
  assumes "spsc_inv s" "prod_room (sq s) w" "length (fs_data (f (slot_at (sq s) w))) = MAX_FRAME_SIZE"
    "fs_state (f (ring_slot (sq s) (sint w))) =
      (case p' of PHeader _ _ \<Rightarrow> SLOT_WRITING | PData _ _ \<Rightarrow> SLOT_WRITING | PReady _ _ \<Rightarrow> SLOT_WRITING
       | PSeq _ _ \<Rightarrow> SLOT_READY | _ \<Rightarrow> SLOT_FREE)"
    "prod_local (update_slot (sq s) w f) p'"
  shows "spsc_inv (s\<lparr>sq := update_slot (sq s) w f, ppc := p'\<rparr>)"
proof -
  note i = spsc_invD [OF assms(1)]
  note pw = producer_write [where f = f, OF i(1) assms(2,3)]
  have "states_ok (update_slot (sq s) w f) p' (cpc s)"
    using i(4,1,3) assms(2) by (rule states_ok_prod) (simp_all add: pw assms(4))
  then show ?thesis using i pw assms(5) by (simp add: spsc_inv_def)
qed

lemma cons_write_inv:
  assumes "spsc_inv s" "cons_some (sq s) r"
    "st = (case c' of CRead _ \<Rightarrow> SLOT_READING | CFree _ _ \<Rightarrow> SLOT_READING | CSeq _ _ \<Rightarrow> SLOT_FREE
       | _ \<Rightarrow> SLOT_READY)"
    "cons_local (update_slot (sq s) r (fs_state_update (\<lambda>_. st))) c'"
  shows "spsc_inv (s\<lparr>sq := update_slot (sq s) r (fs_state_update (\<lambda>_. st)), cpc := c'\<rparr>)"
proof -
  note i = spsc_invD [OF assms(1)]
  note cw = consumer_write [where st = st, OF i(1) assms(2)]
  have "states_ok (update_slot (sq s) r (fs_state_update (\<lambda>_. st))) (ppc s) c'"
    using i(4) assms(2) by (rule states_ok_cons) (simp_all add: cw assms(3) [symmetric])
  then show ?thesis using i cw assms(4) by (simp add: spsc_inv_def)
qed

text \<open>Steps that only move a program counter.\<close>

lemma prod_move_inv:
  assumes "spsc_inv s" "prod_local (sq s) p'"
    "slot_expect p' (cpc s) (sint (read_seq (sq s))) (sint (write_seq (sq s))) (sint (write_seq (sq s))) =
     slot_expect (ppc s) (cpc s) (sint (read_seq (sq s))) (sint (write_seq (sq s))) (sint (write_seq (sq s)))"
  shows "spsc_inv (s\<lparr>ppc := p'\<rparr>)"
proof -
  have "slot_expect p' (cpc s) R (sint (write_seq (sq s))) k = slot_expect (ppc s) (cpc s) R (sint (write_seq (sq s))) k"
    if "R = sint (read_seq (sq s))" for k R
    using assms(3) that slot_expect_prod by (cases "k = sint (write_seq (sq s))") auto
  then show ?thesis using assms(1,2) by (simp add: spsc_inv_def states_ok_def)
qed

lemma cons_move_inv:
  assumes "spsc_inv s" "cons_local (sq s) c'"
    "slot_expect (ppc s) c' (sint (read_seq (sq s))) (sint (write_seq (sq s))) (sint (read_seq (sq s))) =
     slot_expect (ppc s) (cpc s) (sint (read_seq (sq s))) (sint (write_seq (sq s))) (sint (read_seq (sq s)))"
  shows "spsc_inv (s\<lparr>cpc := c'\<rparr>)"
proof -
  have "slot_expect (ppc s) c' (sint (read_seq (sq s))) W k = slot_expect (ppc s) (cpc s) (sint (read_seq (sq s))) W k"
    if "W = sint (write_seq (sq s))" for k W
    using assms(3) that slot_expect_cons by (cases "k = sint (read_seq (sq s))") auto
  then show ?thesis using assms(1,2) by (simp add: spsc_inv_def states_ok_def)
qed

text \<open>What the two threads find when they try to claim a slot.\<close>

lemma prod_finds_free:
  assumes "spsc_inv s" "ppc s = PCas j w"
  shows "fs_state (slot_at (sq s) w) = SLOT_FREE"
proof -
  note i = spsc_invD [OF assms(1)]
  have w: "prod_room (sq s) w" using i(2) assms(2) by simp
  note r = prod_roomD [OF i(1) w]
  have "fs_state (ring_slot (sq s) (sint w)) =
      slot_expect (ppc s) (cpc s) (sint (read_seq (sq s))) (sint (write_seq (sq s))) (sint w)"
    using i(4) r by (simp add: states_ok_def)
  then show ?thesis
    using r slot_expect_own [OF i(3,1), of "ppc s"] assms(2) by (simp add: slot_at_ring)
qed

lemma cons_finds_ready:
  assumes "spsc_inv s" "cpc s = CCas r"
  shows "fs_state (slot_at (sq s) r) = SLOT_READY"
proof -
  note i = spsc_invD [OF assms(1)]
  have r: "cons_some (sq s) r" using i(3) assms(2) by simp
  note r = cons_someD [OF i(1) r]
  have "fs_state (ring_slot (sq s) (sint r)) =
      slot_expect (ppc s) (cpc s) (sint (read_seq (sq s))) (sint (write_seq (sq s))) (sint r)"
    using i(4) r by (simp add: states_ok_def)
  then show ?thesis using r assms(2) by (simp add: slot_at_ring slot_expect_def)
qed

lemma write_header_keeps: "length (fs_data (fs_header_update g x)) = length (fs_data x)"
  by simp

lemma p_cas_inv:
  assumes "spsc_inv s" "ppc s = PCas j w" "slot_cas (sq s) w SLOT_FREE SLOT_WRITING = (b, q)"
  shows "b" "spsc_inv (s\<lparr>sq := q, ppc := PHeader j w\<rparr>)"
proof -
  note i = spsc_invD [OF assms(1)]
  have l: "job_ok j" "prod_room (sq s) w" using i(2) assms(2) by simp_all
  have q: "b" "q = update_slot (sq s) w (fs_state_update (\<lambda>_. SLOT_WRITING))"
    using assms(3) prod_finds_free [OF assms(1,2)] by (auto simp: slot_cas_def)
  then show "b" by simp
  have d: "length (fs_data (slot_at (sq s) w)) = MAX_FRAME_SIZE"
    using ring_okD(1) [OF i(1)] prod_roomD(2) [OF i(1) l(2)] by (simp add: slot_at_ring ring_slot_data)
  show "spsc_inv (s\<lparr>sq := q, ppc := PHeader j w\<rparr>)"
    unfolding q(2) using d l producer_write(6) [OF i(1) l(2)] by (intro prod_write_inv assms(1)) simp_all
qed

lemma p_header_inv:
  assumes "spsc_inv s" "ppc s = PHeader (now, h, d) w"
  shows "spsc_inv (s\<lparr>sq := write_header now h (sq s) w, ppc := PData (now, h, d) w\<rparr>)"
proof -
  note i = spsc_invD [OF assms(1)]
  have l: "job_ok (now, h, d)" "prod_room (sq s) w" using i(2) assms(2) by simp_all
  note r = prod_roomD [OF i(1) l(2)]
  have d: "length (fs_data (slot_at (sq s) w)) = MAX_FRAME_SIZE"
    using ring_okD(1) [OF i(1)] r(2) by (simp add: slot_at_ring ring_slot_data)
  have st: "fs_state (ring_slot (sq s) (sint w)) = SLOT_WRITING"
    using i(4) r slot_expect_own [OF i(3,1), of "ppc s"] assms(2) by (simp add: states_ok_def)
  show ?thesis
    unfolding write_header_def
    using d st l producer_write(4,6) [OF i(1) l(2), where f = "fs_header_update (\<lambda>_. h\<lparr>fh_timestamp_wall := now\<rparr>)"]
    by (intro prod_write_inv assms(1)) (simp_all add: queue_item_def sent_frame_def)
qed

lemma p_data_inv:
  assumes "spsc_inv s" "ppc s = PData (now, h, d) w" "write_data h d (sq s) w = Ret q"
  shows "spsc_inv (s\<lparr>sq := q, ppc := PReady (now, h, d) w\<rparr>)"
proof -
  note i = spsc_invD [OF assms(1)]
  have l: "job_ok (now, h, d)" "prod_room (sq s) w"
    "fs_header (ring_slot (sq s) (sint w)) = h\<lparr>fh_timestamp_wall := now\<rparr>"
    using i(2) assms(2) by (simp_all add: queue_item_def sent_frame_def)
  note r = prod_roomD [OF i(1) l(2)]
  let ?n = "frame_size h" and ?old = "fs_data (ring_slot (sq s) (sint w))"
  let ?f = "fs_data_update (\<lambda>_. take ?n d @ drop ?n ?old)"
  have d: "length (fs_data (slot_at (sq s) w)) = MAX_FRAME_SIZE" "length ?old = MAX_FRAME_SIZE"
    using ring_okD(1) [OF i(1)] r(2) by (simp_all add: slot_at_ring ring_slot_data)
  have n: "?n \<le> length d" "?n \<le> MAX_FRAME_SIZE" using l(1) frame_size_le by (simp_all add: job_ok_def)
  have q: "q = update_slot (sq s) w ?f"
    using assms(3) d n r(2) by (simp add: write_data_def memcpy_Ret slot_at_ring)
  have st: "fs_state (ring_slot (sq s) (sint w)) = SLOT_WRITING"
    using i(4) r slot_expect_own [OF i(3,1), of "ppc s"] assms(2) by (simp add: states_ok_def)
  show ?thesis
    unfolding q using d st l n producer_write(4,6) [OF i(1) l(2), where f = ?f]
    by (intro prod_write_inv assms(1)) (simp_all add: queue_item_def sent_frame_def slot_frame_def)
qed

lemma p_ready_inv:
  assumes "spsc_inv s" "ppc s = PReady j w"
  shows "spsc_inv (s\<lparr>sq := store_state (sq s) w SLOT_READY, ppc := PSeq j w\<rparr>)"
proof -
  note i = spsc_invD [OF assms(1)]
  have l: "job_ok j" "prod_room (sq s) w" "slot_frame (ring_slot (sq s) (sint w)) = queue_item j"
    using i(2) assms(2) by simp_all
  have d: "length (fs_data (slot_at (sq s) w)) = MAX_FRAME_SIZE"
    using ring_okD(1) [OF i(1)] prod_roomD(2) [OF i(1) l(2)] by (simp add: slot_at_ring ring_slot_data)
  show ?thesis
    unfolding store_state_def
    using d l producer_write(4,6) [OF i(1) l(2), where f = "fs_state_update (\<lambda>_. SLOT_READY)"]
    by (intro prod_write_inv assms(1)) (simp_all add: slot_frame_def)
qed

lemma p_seq_inv:
  assumes "spsc_inv s" "ppc s = PSeq j w" "int (length (sent s)) + 1 < 2 ^ 63"
  shows "spsc_inv (s\<lparr>sq := (sq s)\<lparr>write_seq := w + 1\<rparr>, ppc := PIdle, sent := sent s @ [queue_item j]\<rparr>)"
proof -
  note i = spsc_invD [OF assms(1)]
  have l: "job_ok j" "prod_room (sq s) w" "slot_frame (ring_slot (sq s) (sint w)) = queue_item j"
    using i(2) assms(2) by simp_all
  note r = prod_roomD [OF i(1) l(2)] and o = ring_okD [OF i(1)]
  have w: "sint (w + 1) = sint w + 1" using i(6) assms(3) r(1) by (intro sint_inc_i64) simp
  let ?q = "(sq s)\<lparr>write_seq := w + 1\<rparr>"
  have "[sint (read_seq (sq s))..sint w] = [sint (read_seq (sq s))..sint w - 1] @ [sint w]"
    using r(3) by (rule upto_rec2)
  then have "pending ?q = pending (sq s) @ [queue_item j]"
    using r(1) l(3) w by (simp add: pending_def)
  moreover have "cons_local ?q (cpc s)"
    using i(3) w r(1) by (intro cons_local_cong [of ?q "sq s"]) simp_all
  moreover have "states_ok ?q PIdle (cpc s)"
    unfolding states_ok_def
  proof (intro allI impI)
    fix k assume "sint (read_seq ?q) \<le> k \<and> k < sint (read_seq ?q) + SHM_QUEUE_CAPACITY"
    then have "fs_state (ring_slot (sq s) k) =
        slot_expect (ppc s) (cpc s) (sint (read_seq (sq s))) (sint w) k"
      using i(4) r(1) by (simp add: states_ok_def)
    then show "fs_state (ring_slot ?q k) =
        slot_expect PIdle (cpc s) (sint (read_seq ?q)) (sint (write_seq ?q)) k"
      using assms(2) by (auto simp: w slot_expect_def)
  qed
  ultimately show ?thesis
    using i o r w by (simp add: spsc_inv_def ring_ok_def)
qed

lemma c_cas_inv:
  assumes "spsc_inv s" "cpc s = CCas r" "slot_cas (sq s) r SLOT_READY SLOT_READING = (b, q)"
  shows "b" "spsc_inv (s\<lparr>sq := q, cpc := CRead r\<rparr>)"
proof -
  note i = spsc_invD [OF assms(1)]
  have l: "cons_some (sq s) r" using i(3) assms(2) by simp
  have q: "b" "q = update_slot (sq s) r (fs_state_update (\<lambda>_. SLOT_READING))"
    using assms(3) cons_finds_ready [OF assms(1,2)] by (auto simp: slot_cas_def)
  then show "b" by simp
  show "spsc_inv (s\<lparr>sq := q, cpc := CRead r\<rparr>)"
    unfolding q(2) using consumer_write(6) [OF i(1) l] l by (intro cons_write_inv assms(1)) simp_all
qed

lemma c_read_inv:
  assumes "spsc_inv s" "cpc s = CRead r" "read_slot (sq s) r od = Ret (h, d)"
  shows "spsc_inv (s\<lparr>cpc := CFree r (h, take (frame_size h) d)\<rparr>)"
proof -
  note i = spsc_invD [OF assms(1)]
  have l: "cons_some (sq s) r" using i(3) assms(2) by simp
  note r = cons_someD [OF i(1) l]
  have "length (fs_data (slot_at (sq s) r)) = MAX_FRAME_SIZE"
    using ring_okD(1) [OF i(1)] r(2) by (simp add: slot_at_ring ring_slot_data)
  then have "(h, take (frame_size h) d) = slot_frame (slot_at (sq s) r)"
    using assms(3) frame_size_le [of "fs_header (slot_at (sq s) r)"]
    by (auto simp: read_slot_def Let_def exec_bind_Ret_iff memcpy_def slot_frame_def split: if_splits)
  then have "cons_local (sq s) (CFree r (h, take (frame_size h) d))"
    using l r(2) by (simp add: slot_at_ring)
  then show ?thesis by (rule cons_move_inv [OF assms(1)]) (simp add: slot_expect_def assms(2))
qed

lemma c_free_inv:
  assumes "spsc_inv s" "cpc s = CFree r f"
  shows "spsc_inv (s\<lparr>sq := store_state (sq s) r SLOT_FREE, cpc := CSeq r f\<rparr>)"
proof -
  note i = spsc_invD [OF assms(1)]
  have l: "cons_some (sq s) r" "f = slot_frame (ring_slot (sq s) (sint r))" using i(3) assms(2) by simp_all
  show ?thesis
    unfolding store_state_def using consumer_write(6,7) [OF i(1) l(1)] l
    by (intro cons_write_inv assms(1)) simp_all
qed

lemma c_seq_inv:
  assumes "spsc_inv s" "cpc s = CSeq r f"
  shows "spsc_inv (s\<lparr>sq := (sq s)\<lparr>read_seq := r + 1\<rparr>, cpc := CIdle, got := got s @ [f]\<rparr>)"
proof -
  note i = spsc_invD [OF assms(1)]
  have l: "cons_some (sq s) r" "f = slot_frame (ring_slot (sq s) (sint r))" using i(3) assms(2) by simp_all
  note r = cons_someD [OF i(1) l(1)] and o = ring_okD [OF i(1)]
  have n: "sint (r + 1) = sint r + 1"
    using r(3) sint_i64_range(2) [of "write_seq (sq s)"] by (intro sint_inc_i64) simp
  let ?q = "(sq s)\<lparr>read_seq := r + 1\<rparr>"
  have "[sint r..sint (write_seq (sq s)) - 1] = sint r # [sint r + 1..sint (write_seq (sq s)) - 1]"
    using r(3) by (intro upto_rec1) simp
  then have "pending (sq s) = f # pending ?q"
    using r(1) l(2) n by (simp add: pending_def)
  moreover have "prod_local ?q (ppc s)"
    using i(2) n r(1) by (intro prod_local_cong [of ?q "sq s"]) simp_all
  moreover have "states_ok ?q (ppc s) CIdle"
    unfolding states_ok_def
  proof (intro allI impI)
    fix k assume k: "sint (read_seq ?q) \<le> k \<and> k < sint (read_seq ?q) + SHM_QUEUE_CAPACITY"
    show "fs_state (ring_slot ?q k) =
        slot_expect (ppc s) CIdle (sint (read_seq ?q)) (sint (write_seq ?q)) k"
    proof (cases "k = sint r + 64")
      case True
      have "fs_state (ring_slot (sq s) (sint r)) = SLOT_FREE"
        using i(4) r assms(2) by (simp add: states_ok_def slot_expect_def)
      moreover have "\<not> prod_room (sq s) (write_seq (sq s))" if "sint (write_seq (sq s)) = sint r + 64"
        using that r(1) by (simp add: prod_room_def)
      ultimately show ?thesis
        using True i(2) o(5) r(1) n
        by (cases "ppc s") (auto simp: ring_slot_wrap slot_expect_def prod_room_def)
    next
      case False
      then have "fs_state (ring_slot (sq s) k) =
          slot_expect (ppc s) (cpc s) (sint r) (sint (write_seq (sq s))) k"
        using i(4) k r(1) n by (simp add: states_ok_def)
      then show ?thesis using assms(2) k n by (auto simp: slot_expect_def)
    qed
  qed
  ultimately show ?thesis
    using i o r n by (simp add: spsc_inv_def ring_ok_def)
qed

lemma spsc_step_inv:
  assumes "spsc_step s t" "spsc_inv s" "int (length (sent t)) < 2 ^ 63"
  shows "spsc_inv t"
  using assms(1)
proof cases
  case (p_start h d now)
  then show ?thesis
    using assms(2) by (auto intro!: prod_move_inv simp: job_ok_def slot_expect_def)
next
  case (p_full j w)
  then show ?thesis using assms(2) by (auto intro!: prod_move_inv simp: slot_expect_def)
next
  case (p_room j w)
  note i = spsc_invD [OF assms(2)] and o = ring_okD [OF spsc_invD(1) [OF assms(2)]]
  have "sint (w - read_seq (sq s)) = sint w - sint (read_seq (sq s))"
    using p_room i(2) o(3-5) by (intro sint_diff_i64) auto
  then have "prod_local (sq s) (PCas j w)" using p_room i(2) by (simp add: prod_room_def)
  then show ?thesis
    unfolding p_room(1) by (rule prod_move_inv [OF assms(2)]) (simp add: slot_expect_def p_room(2))
next
  case (p_cas_fail j w q)
  then show ?thesis using p_cas_inv(1) [OF assms(2)] by blast
next
  case (c_empty r)
  then show ?thesis using assms(2) by (auto intro!: cons_move_inv simp: slot_expect_def)
next
  case c_start
  then show ?thesis using assms(2) by (auto intro!: cons_move_inv simp: slot_expect_def)
next
  case (c_avail r)
  have "cons_local (sq s) (CCas r)"
    using c_avail spsc_invD(3) [OF assms(2)] by (simp add: cons_some_def)
  then show ?thesis
    unfolding c_avail(1) by (rule cons_move_inv [OF assms(2)]) (simp add: slot_expect_def c_avail(2))
next
  case (c_cas_fail r q)
  then show ?thesis using c_cas_inv(1) [OF assms(2)] by blast
next
  case (p_seq j w)
  then show ?thesis using p_seq_inv [OF assms(2)] assms(3) by simp
qed (use assms(2) in \<open>auto intro: p_cas_inv p_header_inv p_data_inv p_ready_inv c_cas_inv c_read_inv
  c_free_inv c_seq_inv\<close>)

section \<open>Reachable states\<close>

inductive_cases spsc_stepE: "spsc_step s t"

lemma spsc_step_sent: "spsc_step s t \<Longrightarrow> length (sent s) \<le> length (sent t)"
  by (erule spsc_stepE) auto

lemma spsc_init_inv: "spsc_inv spsc_init"
  using zero_queue_inv zero_queue_slots_ok
  by (auto simp: spsc_inv_def spsc_init_def ring_ok_def states_ok_def slot_expect_def queue_inv_def)

lemma spsc_reach_inv: "spsc_reach s \<Longrightarrow> int (length (sent s)) < 2 ^ 63 \<Longrightarrow> spsc_inv s"
proof (induction rule: spsc_reach.induct)
  case init
  show ?case by (rule spsc_init_inv)
next
  case (step s t)
  then show ?case using spsc_step_sent [OF step.hyps(2)] spsc_step_inv by force
qed

lemma spsc_reach_steps: "spsc_step\<^sup>*\<^sup>* s t \<Longrightarrow> spsc_reach s \<Longrightarrow> spsc_reach t"
  by (induction rule: rtranclp_induct) (auto intro: spsc_reach.step)

section \<open>Properties\<close>

text \<open>
  The functions of \<open>Frame_Queue\<close> are the threads run without interruption: when
  \<open>shm_queue_push\<close> returns 0 on the current queue, an idle producer can take the queue to the
  same result by its own steps, publishing the same frame.
\<close>

theorem push_is_producer_run:
  assumes "ppc s = PIdle" "frame_size h \<le> length d"
    "shm_queue_push now (Some (sq s)) (Some h) (Some d) = Ret (0, Some q')"
  shows "spsc_step\<^sup>*\<^sup>* s (s\<lparr>sq := q', sent := sent s @ [sent_frame now h d]\<rparr>)"
proof -
  let ?w = "write_seq (sq s)" and ?j = "(now, h, d)"
  obtain q1 q2 where run: "\<not> SHM_QUEUE_CAPACITY \<le> sint (?w - read_seq (sq s))"
    "slot_cas (sq s) ?w SLOT_FREE SLOT_WRITING = (True, q1)"
    "write_data h d (write_header now h q1 ?w) ?w = Ret q2"
    "q' = (store_state q2 ?w SLOT_READY)\<lparr>write_seq := ?w + 1\<rparr>"
    using assms(3)
    by (auto simp: shm_queue_push_def Let_def exec_bind_Ret_iff split: if_splits prod.splits bool.splits)
  define a b where "a = s\<lparr>ppc := PLoadR ?j ?w\<rparr>" and "b = s\<lparr>ppc := PCas ?j ?w\<rparr>"
  define c e where "c = s\<lparr>sq := q1, ppc := PHeader ?j ?w\<rparr>"
    and "e = s\<lparr>sq := write_header now h q1 ?w, ppc := PData ?j ?w\<rparr>"
  define f g where "f = s\<lparr>sq := q2, ppc := PReady ?j ?w\<rparr>"
    and "g = s\<lparr>sq := store_state q2 ?w SLOT_READY, ppc := PSeq ?j ?w\<rparr>"
  have "spsc_step s a" unfolding a_def using assms by (intro spsc_step.p_start)
  moreover have "spsc_step a b"
    using spsc_step.p_room [of a ?j ?w] run(1) by (simp add: a_def b_def)
  moreover have "spsc_step b c"
    using spsc_step.p_cas [of b ?j ?w q1] run(2) by (simp add: b_def c_def)
  moreover have "spsc_step c e"
    using spsc_step.p_header [of c now h d ?w] by (simp add: c_def e_def)
  moreover have "spsc_step e f"
    using spsc_step.p_data [of e now h d ?w q2] run(3) by (simp add: e_def f_def)
  moreover have "spsc_step f g"
    using spsc_step.p_ready [of f ?j ?w] by (simp add: f_def g_def)
  moreover have "spsc_step g (s\<lparr>sq := q', sent := sent s @ [sent_frame now h d]\<rparr>)"
    using spsc_step.p_seq [of g ?j ?w] assms(1)
    by (cases s) (simp add: g_def run(4) queue_item_def)
  ultimately show ?thesis by (meson converse_rtranclp_into_rtranclp rtranclp.rtrancl_refl)
qed

theorem push_is_producer_run_witness:
  "\<exists>q'. shm_queue_push 7 (Some zero_queue) (Some demo_header) (Some [10, 20, 30, 40]) = Ret (0, Some q') \<and>
     spsc_step\<^sup>*\<^sup>* spsc_init (spsc_init\<lparr>sq := q', sent := [sent_frame 7 demo_header [10, 20, 30, 40]]\<rparr>)"
  using push_is_producer_run [of spsc_init demo_header "[10, 20, 30, 40]" 7]
    push_eq [OF zero_queue_inv, of demo_header "[10, 20, 30, 40]" 7]
  by (simp add: spsc_init_def)

text \<open>
  C1. Single producer, single consumer, any interleaving: neither compare-and-swap ever fails
  (the return value -3 is impossible), the consumed frames are a prefix of the published ones, in
  order and unaltered, and at most 64 frames are in flight. The bound says that the 64-bit
  sequence numbers have not been exhausted.
\<close>

theorem spsc_fifo:
  assumes "spsc_reach s" "int (length (sent s)) < 2 ^ 63"
  shows "ppc s \<noteq> PFailed \<and> cpc s \<noteq> CFailed \<and> (\<exists>rest. sent s = got s @ rest \<and> length rest \<le> 64)"
proof -
  note i = spsc_invD [OF spsc_reach_inv [OF assms]]
  have "length (pending (sq s)) \<le> 64"
    using ring_okD [OF i(1)] by (simp add: pending_def)
  then show ?thesis using i(2,3,5) by auto
qed

text \<open>
  C18. No data race on a slot and no overrun: while the producer writes a slot's header or payload,
  the consumer is not reading that slot, and the producer's copy stays inside the slot (the copy
  step is defined).
\<close>

theorem spsc_race_free:
  assumes "spsc_reach s" "int (length (sent s)) < 2 ^ 63"
    "ppc s = PHeader (now, h, d) w \<or> ppc s = PData (now, h, d) w"
  shows "(\<forall>r. cpc s = CRead r \<longrightarrow> slot_index r \<noteq> slot_index w) \<and> (\<exists>q. write_data h d (sq s) w = Ret q)"
proof -
  note i = spsc_invD [OF spsc_reach_inv [OF assms(1,2)]]
  have l: "job_ok (now, h, d)" "prod_room (sq s) w" using i(2) assms(3) by auto
  note w = prod_roomD [OF i(1) l(2)]
  have "slot_index r \<noteq> slot_index w" if c: "cpc s = CRead r" for r
  proof -
    have r: "cons_some (sq s) r" using i(3) c by simp
    note r = cons_someD [OF i(1) r]
    show ?thesis
      using window_mod [of "sint (read_seq (sq s))" "sint r" "sint w"] r w
      by (simp add: slot_index_nonneg)
  qed
  moreover have "length (fs_data (slot_at (sq s) w)) = MAX_FRAME_SIZE"
    using ring_okD(1) [OF i(1)] w(2) by (simp add: slot_at_ring ring_slot_data)
  ultimately show ?thesis
    using l(1) frame_size_le [of h] by (auto simp: write_data_def memcpy_def job_ok_def)
qed

text \<open>A reachable state in the middle of a push, for the witnesses.\<close>

lemma spsc_writing_reachable:
  "\<exists>s. spsc_reach s \<and> ppc s = PHeader (7, demo_header, [10, 20, 30, 40]) 0 \<and> sent s = []"
proof -
  let ?j = "(7, demo_header, [10, 20, 30, 40])"
  define a b where "a = spsc_init\<lparr>ppc := PLoadR ?j 0\<rparr>" and "b = spsc_init\<lparr>ppc := PCas ?j 0\<rparr>"
  have "spsc_step spsc_init a"
    using spsc_step.p_start [of spsc_init demo_header "[10, 20, 30, 40]" 7]
    by (simp add: a_def spsc_init_def)
  moreover have "spsc_step a b"
    using spsc_step.p_room [of a ?j 0] by (simp add: a_def b_def spsc_init_def)
  ultimately have "spsc_reach b" by (blast intro: spsc_reach.intros)
  obtain ok q where c: "slot_cas (sq b) 0 SLOT_FREE SLOT_WRITING = (ok, q)" by force
  have "spsc_inv b" using \<open>spsc_reach b\<close> by (rule spsc_reach_inv) (simp add: b_def spsc_init_def)
  then have "ok" by (rule p_cas_inv(1) [of b ?j 0, OF _ _ c]) (simp add: b_def)
  then have "spsc_step b (b\<lparr>sq := q, ppc := PHeader ?j 0\<rparr>)"
    using c by (intro spsc_step.p_cas) (simp_all add: b_def)
  with \<open>spsc_reach b\<close> have "spsc_reach (b\<lparr>sq := q, ppc := PHeader ?j 0\<rparr>)" by (rule spsc_reach.step)
  then show ?thesis by (intro exI [of _ "b\<lparr>sq := q, ppc := PHeader ?j 0\<rparr>"]) (simp add: b_def spsc_init_def)
qed

theorem spsc_fifo_witness:
  "\<exists>s. spsc_reach s \<and> ppc s = PHeader (7, demo_header, [10, 20, 30, 40]) 0 \<and>
     (\<exists>rest. sent s = got s @ rest \<and> length rest \<le> 64)"
  using spsc_writing_reachable spsc_fifo by force

theorem spsc_race_free_witness:
  "\<exists>s. spsc_reach s \<and> (\<exists>q. write_data demo_header [10, 20, 30, 40] (sq s) 0 = Ret q)"
  using spsc_writing_reachable spsc_race_free by fastforce

end
