(* ===== verification/Resources.thy ===== *)
theory Resources
  imports Prelude
begin

text \<open>
  The resources of CUDA, TensorRT and ZeroMQ that the program takes and gives back. Every call that
  hands out a resource (\<open>cudaMalloc\<close>, \<open>malloc\<close>, streams, contexts, runtimes, engines, sockets) succeeds or
  fails as the list \<open>ge_outcomes\<close> says, in the order of the calls, and succeeds when the list is used
  up; a resource is a number, and \<open>ge_live\<close> lists the resources not yet given back.
\<close>

section \<open>Taking and giving back\<close>

record gpu_env =
  ge_next :: nat
  ge_live :: "nat list"
  ge_outcomes :: "bool list"

definition take_outcome :: "gpu_env \<Rightarrow> bool \<times> gpu_env" where
  "take_outcome env = (case ge_outcomes env of
     [] \<Rightarrow> (True, env) | b # bs \<Rightarrow> (b, env\<lparr>ge_outcomes := bs\<rparr>))"

definition obtain_res :: "gpu_env \<Rightarrow> nat option \<times> gpu_env" where
  "obtain_res env = (case take_outcome env of (ok, e) \<Rightarrow>
     if ok then (Some (ge_next e), e\<lparr>ge_next := ge_next e + 1, ge_live := ge_next e # ge_live e\<rparr>)
     else (None, e))"

definition give_back :: "nat \<Rightarrow> gpu_env \<Rightarrow> gpu_env" where
  "give_back h env = env\<lparr>ge_live := remove1 h (ge_live env)\<rparr>"

definition give_back_opt :: "nat option \<Rightarrow> gpu_env \<Rightarrow> gpu_env" where
  "give_back_opt h env = (case h of Some k \<Rightarrow> give_back k env | None \<Rightarrow> env)"

section \<open>Accounting\<close>

text \<open>\<open>grown env env' owned\<close>: the live resources are those of before and \<open>owned\<close>, each once.\<close>

definition env_ok :: "gpu_env \<Rightarrow> bool" where
  "env_ok env \<longleftrightarrow> distinct (ge_live env) \<and> (\<forall>h \<in> set (ge_live env). h < ge_next env)"

definition grown :: "gpu_env \<Rightarrow> gpu_env \<Rightarrow> nat list \<Rightarrow> bool" where
  "grown env env' owned \<longleftrightarrow> env_ok env' \<and> mset (ge_live env') = mset (ge_live env) + mset owned"

lemma grown_refl [simp]: "env_ok env \<Longrightarrow> grown env env []"
  by (simp add: grown_def)

lemma grown_distinct: "grown a b xs \<Longrightarrow> distinct xs"
proof -
  assume g: "grown a b xs"
  then have "mset (ge_live b) = mset (ge_live a @ xs)" by (simp add: grown_def)
  then have "distinct (ge_live a @ xs)" using g by (metis env_ok_def grown_def mset_eq_imp_distinct_iff)
  then show ?thesis by simp
qed

lemma obtain_res_env: "obtain_res env = (r, env') \<Longrightarrow> env_ok env \<Longrightarrow> env_ok env'"
  by (auto simp: obtain_res_def take_outcome_def env_ok_def less_Suc_eq split: list.splits if_splits prod.splits)

lemma obtain_res_live:
  "obtain_res env = (r, env') \<Longrightarrow>
   mset (ge_live env') = mset (ge_live env) + mset (case r of Some h \<Rightarrow> [h] | None \<Rightarrow> [])"
  by (auto simp: obtain_res_def take_outcome_def split: list.splits if_splits prod.splits)

lemma grown_cong: "grown a b xs \<Longrightarrow> mset ys = mset xs \<Longrightarrow> grown a b ys"
  by (simp add: grown_def)

lemma grown_give_back: "grown a b (h # xs) \<Longrightarrow> grown a (give_back h b) xs"
  by (auto simp: grown_def give_back_def env_ok_def dest: notin_set_remove1 [rotated] set_remove1_subset [THEN subsetD])

lemma grown_give_back_opt:
  "grown a b ((case h of Some k \<Rightarrow> [k] | None \<Rightarrow> []) @ xs) \<Longrightarrow> grown a (give_back_opt h b) xs"
  by (cases h) (simp_all add: give_back_opt_def grown_give_back)

lemma grown_give_back_list: "grown a b (hs @ xs) \<Longrightarrow> grown a (fold give_back hs b) xs"
proof (induction hs arbitrary: b)
  case (Cons h hs)
  then show ?case using grown_give_back [of a b h "hs @ xs"] by simp
qed simp

lemma grown_obtain:
  assumes "obtain_res env = (r, env')" "grown a env xs"
  shows "grown a env' ((case r of Some h \<Rightarrow> [h] | None \<Rightarrow> []) @ xs)"
  using obtain_res_live [OF assms(1)] obtain_res_env [OF assms(1)] assms(2)
  by (simp add: grown_def ac_simps)

end
