(* ===== verification/Nms.thy ===== *)
theory Nms
  imports Prelude
begin

text \<open>
  Greedy suppression, the loop shared by \<open>TRTEngine::postprocess\<close> and
  \<open>ArcDetector::nms\<close>: two nested index loops over a sorted vector and a vector of flags. It
  is proved equal to the recursive description of greedy selection, for any overlap test.

  \<open>std::sort\<close> enters through the locale \<open>std_sort\<close>, which states what the standard
  guarantees: a permutation, ordered by the comparator; the order of ties is left open.
\<close>

section \<open>Sorting by decreasing confidence\<close>

locale std_sort =
  fixes srt :: "'a list \<Rightarrow> 'a list"
    and key :: "'a \<Rightarrow> 'k::linorder"
  assumes perm: "mset (srt xs) = mset xs"
    and ordered: "sorted_wrt (\<lambda>a b. key b \<le> key a) (srt xs)"
begin

lemma sort_set: "set (srt xs) = set xs"
  using perm by (metis set_mset_mset)

lemma sort_length: "length (srt xs) = length xs"
  using perm by (metis size_mset)

end

text \<open>A stable instance, used to run the model.\<close>

definition desc_sort :: "('a \<Rightarrow> 'k::linorder) \<Rightarrow> 'a list \<Rightarrow> 'a list" where
  "desc_sort key xs = rev (sort_key key xs)"

interpretation ds: std_sort "desc_sort key" key for key :: "'a \<Rightarrow> 'k::linorder"
proof
  show "mset (desc_sort key xs) = mset xs" for xs by (simp add: desc_sort_def)
  show "sorted_wrt (\<lambda>a b. key b \<le> key a) (desc_sort key xs)" for xs
    using sorted_sort_key [of key xs] by (simp add: desc_sort_def sorted_wrt_rev sorted_wrt_map)
qed

section \<open>The two loops\<close>

definition nms_inner :: "('a \<Rightarrow> 'a \<Rightarrow> bool) \<Rightarrow> 'a list \<Rightarrow> nat \<Rightarrow> bool list \<Rightarrow> bool list" where
  "nms_inner ov xs i supp =
     fold (\<lambda>j s. if s ! j then s else if ov (xs ! i) (xs ! j) then s[j := True] else s)
       [Suc i..<length xs] supp"

definition nms_outer :: "('a \<Rightarrow> 'a \<Rightarrow> bool) \<Rightarrow> 'a list \<Rightarrow> nat \<Rightarrow> bool list" where
  "nms_outer ov xs n =
     fold (\<lambda>i s. if s ! i then s else nms_inner ov xs i s) [0..<n] (replicate (length xs) False)"

definition nms_suppress :: "('a \<Rightarrow> 'a \<Rightarrow> bool) \<Rightarrow> 'a list \<Rightarrow> 'a list" where
  "nms_suppress ov xs =
     (let supp = nms_outer ov xs (length xs)
      in map (\<lambda>i. xs ! i) (filter (\<lambda>i. \<not> supp ! i) [0..<length xs]))"

text \<open>The reference: keep the first, drop what it overlaps, go on.\<close>

function nms_spec :: "('a \<Rightarrow> 'a \<Rightarrow> bool) \<Rightarrow> 'a list \<Rightarrow> 'a list" where
  "nms_spec ov [] = []"
| "nms_spec ov (x # xs) = x # nms_spec ov (filter (\<lambda>y. \<not> ov x y) xs)"
  by pat_completeness auto
termination
  by (relation "measure (\<lambda>(ov, xs). length xs)") (auto simp: less_Suc_eq_le)

section \<open>What the loops compute\<close>

lemma nms_inner_length [simp]: "length (nms_inner ov xs i s) = length s"
proof -
  have "length (fold (\<lambda>j s. if s ! j then s else if ov (xs ! i) (xs ! j) then s[j := True] else s)
      js s) = length s" for js
    by (induction js arbitrary: s) auto
  then show ?thesis by (simp add: nms_inner_def)
qed

lemma nth_flag_update: "k < length s \<Longrightarrow> s[a := True] ! k \<longleftrightarrow> s ! k \<or> k = a"
  by (cases "k = a") auto

lemma nms_inner_fold_nth:
  "k < length s \<Longrightarrow>
   fold (\<lambda>j s. if s ! j then s else if ov (xs ! i) (xs ! j) then s[j := True] else s) js s ! k
     \<longleftrightarrow> s ! k \<or> k \<in> set js \<and> ov (xs ! i) (xs ! k)"
  by (induction js arbitrary: s) (auto simp: nth_flag_update)

lemma nms_inner_nth:
  "k < length xs \<Longrightarrow> length s = length xs \<Longrightarrow>
   nms_inner ov xs i s ! k \<longleftrightarrow> s ! k \<or> i < k \<and> ov (xs ! i) (xs ! k)"
  by (auto simp: nms_inner_def nms_inner_fold_nth)

lemma nms_outer_Suc:
  "nms_outer ov xs (Suc n) =
     (if nms_outer ov xs n ! n then nms_outer ov xs n else nms_inner ov xs n (nms_outer ov xs n))"
  by (simp add: nms_outer_def)

lemma nms_outer_length [simp]: "length (nms_outer ov xs n) = length xs"
proof (induction n)
  case 0
  show ?case by (simp add: nms_outer_def)
qed (simp add: nms_outer_Suc)

lemma nms_outer_nth:
  "k < length xs \<Longrightarrow>
   nms_outer ov xs n ! k \<longleftrightarrow>
     (\<exists>i<n. i < k \<and> \<not> nms_outer ov xs i ! i \<and> ov (xs ! i) (xs ! k))"
proof (induction n)
  case 0
  then show ?case by (simp add: nms_outer_def)
next
  case (Suc n)
  then show ?case by (auto simp: nms_outer_Suc nms_inner_nth less_Suc_eq)
qed

lemma nms_outer_stable: "k < length xs \<Longrightarrow> k \<le> n \<Longrightarrow> nms_outer ov xs n ! k = nms_outer ov xs k ! k"
  unfolding nms_outer_nth by (meson less_le_trans)

text \<open>A kept position is one that no earlier kept position overlaps.\<close>

lemma nms_flag_iff:
  assumes "k < length xs"
  shows "nms_outer ov xs (length xs) ! k \<longleftrightarrow>
    (\<exists>i<k. \<not> nms_outer ov xs (length xs) ! i \<and> ov (xs ! i) (xs ! k))"
proof -
  have "nms_outer ov xs (length xs) ! i = nms_outer ov xs i ! i" if "i < k" for i
    using assms that by (intro nms_outer_stable) auto
  then show ?thesis
    unfolding nms_outer_nth [OF assms] using assms by (meson less_trans)
qed

text \<open>The reference, from the right end of the list.\<close>

lemma nms_spec_subset: "set (nms_spec ov xs) \<subseteq> set xs"
  by (induction ov xs rule: nms_spec.induct) auto

lemma nms_spec_snoc:
  "nms_spec ov (xs @ [y]) =
     nms_spec ov xs @ (if \<exists>x\<in>set (nms_spec ov xs). ov x y then [] else [y])"
  by (induction ov xs rule: nms_spec.induct) auto

text \<open>Greedy flags are unique, and they select what the reference selects.\<close>

lemma greedy_select:
  assumes "\<And>k. k < length xs \<Longrightarrow> K k \<longleftrightarrow> \<not> (\<exists>i<k. K i \<and> ov (xs ! i) (xs ! k))"
  shows "map (\<lambda>i. xs ! i) (filter K [0..<length xs]) = nms_spec ov xs"
  using assms
proof (induction xs rule: rev_induct)
  case Nil
  show ?case by simp
next
  case (snoc y xs)
  let ?n = "length xs"
  have IH: "map (\<lambda>i. xs ! i) (filter K [0..<?n]) = nms_spec ov xs"
  proof (rule snoc.IH)
    fix k assume "k < ?n"
    with snoc.prems [of k] show "K k \<longleftrightarrow> \<not> (\<exists>i<k. K i \<and> ov (xs ! i) (xs ! k))"
      by (simp add: nth_append cong: conj_cong)
  qed
  have eq: "map (\<lambda>i. (xs @ [y]) ! i) (filter K [0..<?n]) = nms_spec ov xs"
    unfolding IH [symmetric] by (auto simp: nth_append)
  have sel: "set (nms_spec ov xs) = {xs ! i |i. i < ?n \<and> K i}"
    unfolding IH [symmetric] by auto
  have "K ?n \<longleftrightarrow> \<not> (\<exists>i<?n. K i \<and> ov (xs ! i) y)"
    using snoc.prems [of ?n] by (simp add: nth_append cong: conj_cong)
  then have "K ?n \<longleftrightarrow> \<not> (\<exists>x\<in>set (nms_spec ov xs). ov x y)"
    unfolding sel by auto
  then show ?case by (simp add: eq nms_spec_snoc)
qed

lemma nms_suppress_spec: "nms_suppress ov xs = nms_spec ov xs"
  unfolding nms_suppress_def Let_def by (rule greedy_select) (simp add: nms_flag_iff)

section \<open>Consequences\<close>

lemma nms_spec_pairwise: "sorted_wrt (\<lambda>a b. \<not> ov a b) (nms_spec ov xs)"
proof (induction ov xs rule: nms_spec.induct)
  case (2 ov x xs)
  then show ?case using nms_spec_subset [of ov "filter (\<lambda>y. \<not> ov x y) xs"] by auto
qed simp

lemma nms_spec_sorted_wrt: "sorted_wrt P xs \<Longrightarrow> sorted_wrt P (nms_spec ov xs)"
proof (induction ov xs rule: nms_spec.induct)
  case (2 ov x xs)
  then show ?case
    using nms_spec_subset [of ov "filter (\<lambda>y. \<not> ov x y) xs"] by (auto simp: sorted_wrt_filter)
qed simp

text \<open>Every element is kept or overlapped by a kept element that precedes it.\<close>

lemma nms_spec_covers:
  "sorted_wrt P xs \<Longrightarrow> y \<in> set xs \<Longrightarrow>
   y \<in> set (nms_spec ov xs) \<or> (\<exists>x\<in>set (nms_spec ov xs). P x y \<and> ov x y)"
proof (induction ov xs rule: nms_spec.induct)
  case (2 ov x xs)
  show ?case
  proof (cases "y = x \<or> ov x y")
    case True
    then show ?thesis using "2.prems" by auto
  next
    case False
    with "2.prems" have "y \<in> set (filter (\<lambda>y. \<not> ov x y) xs)" by auto
    moreover have "sorted_wrt P (filter (\<lambda>y. \<not> ov x y) xs)"
      using "2.prems" by (simp add: sorted_wrt_filter)
    ultimately show ?thesis using "2.IH" by auto
  qed
qed simp

text \<open>Sorting and suppressing together, for any sorting routine that meets the contract.\<close>

context std_sort
begin

lemma nms_selects:
  "set (nms_spec ov (srt xs)) \<subseteq> set xs"
  "sorted_wrt (\<lambda>a b. key b \<le> key a) (nms_spec ov (srt xs))"
  "sorted_wrt (\<lambda>a b. \<not> ov a b) (nms_spec ov (srt xs))"
  "y \<in> set xs \<Longrightarrow> y \<in> set (nms_spec ov (srt xs)) \<or>
     (\<exists>x \<in> set (nms_spec ov (srt xs)). ov x y \<and> key y \<le> key x)"
proof -
  show "set (nms_spec ov (srt xs)) \<subseteq> set xs"
    using nms_spec_subset [of ov "srt xs"] sort_set [of xs] by simp
  show "sorted_wrt (\<lambda>a b. key b \<le> key a) (nms_spec ov (srt xs))"
    by (rule nms_spec_sorted_wrt [OF ordered])
  show "sorted_wrt (\<lambda>a b. \<not> ov a b) (nms_spec ov (srt xs))"
    by (rule nms_spec_pairwise)
  show "y \<in> set (nms_spec ov (srt xs)) \<or> (\<exists>x \<in> set (nms_spec ov (srt xs)). ov x y \<and> key y \<le> key x)"
    if "y \<in> set xs"
    using nms_spec_covers [OF ordered [of xs], of y ov] that sort_set [of xs] by blast
qed

end

end
