(* ===== verification/Fp.thy ===== *)
theory Fp
  imports Prelude "HOL-Library.Log_Nat"
begin

text \<open>
  The floating-point arithmetic of the program. A \<open>float\<close> or \<open>double\<close> is a rational
  number, and every operation is the exact operation followed by one rounding to the format:
  round to nearest, ties to even, with the 24- or 53-bit significand and the gradual underflow
  of IEEE 754 binary32 and binary64. Overflow to infinity, NaN and the sign of zero are outside
  the model: it describes runs whose intermediate values stay finite.

  The locale \<open>rounding\<close> states what the rest of the development relies on (monotone,
  idempotent, odd, exact on doubled values); it is interpreted on both formats at the end.
\<close>

section \<open>Rounding to a binary format\<close>

abbreviation two_pow :: "int \<Rightarrow> rat" where
  "two_pow e \<equiv> power_int 2 e"

text \<open>The exponent \<open>e\<close> with \<open>2^e \<le> x < 2^(e+1)\<close>, for a positive \<open>x\<close>.\<close>

definition flog2 :: "rat \<Rightarrow> int" where
  "flog2 x = (case quotient_of x of (n, d) \<Rightarrow>
     let e = bitlen n - bitlen d in if two_pow e \<le> x then e else e - 1)"

text \<open>Nearest integer, ties to even.\<close>

definition rne :: "rat \<Rightarrow> int" where
  "rne x = (let f = \<lfloor>x\<rfloor>; r = x - of_int f in
     if r < 1/2 then f else if 1/2 < r then f + 1 else if even f then f else f + 1)"

text \<open>Exponent of the last place of \<open>x\<close> in a format of precision \<open>p\<close>.\<close>

definition ulp_exp :: "int \<Rightarrow> int \<Rightarrow> rat \<Rightarrow> int" where
  "ulp_exp p emin x = max emin (flog2 \<bar>x\<bar> - (p - 1))"

definition fl_round :: "int \<Rightarrow> int \<Rightarrow> rat \<Rightarrow> rat" where
  "fl_round p emin x = (if x = 0 then 0 else
     let e = ulp_exp p emin x in of_int (rne (x / two_pow e)) * two_pow e)"

text \<open>Numbers of the format, up to overflow.\<close>

definition fl_repr :: "int \<Rightarrow> int \<Rightarrow> rat \<Rightarrow> bool" where
  "fl_repr p emin x \<longleftrightarrow> (\<exists>m e. emin \<le> e \<and> \<bar>m\<bar> \<le> 2 ^ nat p \<and> x = of_int m * two_pow e)"

section \<open>The exponent\<close>

lemma two_pow_pos [simp]: "0 < two_pow e" "two_pow e \<noteq> 0" "0 \<le> two_pow e"
  by (simp_all add: zero_less_power_int less_imp_le)

lemma two_pow_nat: "0 \<le> e \<Longrightarrow> two_pow e = of_int (2 ^ nat e)"
  by (simp add: power_int_nonneg_exp)

lemma two_pow_add: "two_pow (a + b) = two_pow a * two_pow b"
  by (simp add: power_int_add)

lemma two_pow_diff: "two_pow (a - b) = two_pow a / two_pow b"
  by (simp add: power_int_diff)

lemma two_pow_le_iff [simp]: "two_pow a \<le> two_pow b \<longleftrightarrow> a \<le> b"
  using power_int_increasing [of a b "2::rat"] power_int_strict_increasing [of b a "2::rat"]
  by (meson linorder_not_le one_le_numeral one_less_numeral_iff semiring_norm(76))

lemma two_pow_less_iff [simp]: "two_pow a < two_pow b \<longleftrightarrow> a < b"
  using two_pow_le_iff [of b a] by (simp only: linorder_not_le [symmetric] not_less)

lemma flog2_bounds:
  assumes "0 < x"
  shows "two_pow (flog2 x) \<le> x" "x < two_pow (flog2 x + 1)"
proof -
  obtain n d where q: "quotient_of x = (n, d)" by force
  have d: "0 < d" using q by (rule quotient_of_denom_pos)
  have x: "x = of_int n / of_int d" using q by (rule quotient_of_div)
  then have n: "0 < n" using \<open>0 < x\<close> d by (simp add: zero_less_divide_iff)
  define a b where "a = bitlen n" and "b = bitlen d"
  have ab: "1 \<le> a" "1 \<le> b"
    using bitlen_eq_zero_iff [of n] bitlen_eq_zero_iff [of d] bitlen_nonneg [of n]
      bitlen_nonneg [of d] n d by (auto simp: a_def b_def)
  have N: "two_pow (a - 1) \<le> of_int n" "of_int n < two_pow a"
    using bitlen_bounds [OF n] ab by (simp_all add: a_def two_pow_nat del: of_int_power)
  have D: "two_pow (b - 1) \<le> of_int d" "of_int d < two_pow b"
    using bitlen_bounds [OF d] ab by (simp_all add: b_def two_pow_nat del: of_int_power)
  have lo: "two_pow (a - b - 1) \<le> x"
  proof -
    have "two_pow (a - 1) / two_pow b \<le> of_int n / of_int d"
      using N D d n by (intro frac_le) auto
    then show ?thesis by (simp add: x flip: two_pow_diff) (simp add: algebra_simps)
  qed
  have hi: "x < two_pow (a - b + 1)"
  proof -
    have "of_int n / of_int d < two_pow a / two_pow (b - 1)"
      using N D d n by (intro frac_less) auto
    then show ?thesis by (simp add: x flip: two_pow_diff) (simp add: algebra_simps)
  qed
  have f: "flog2 x = (if two_pow (a - b) \<le> x then a - b else a - b - 1)"
    by (simp add: flog2_def q a_def b_def Let_def)
  show "two_pow (flog2 x) \<le> x" "x < two_pow (flog2 x + 1)"
    using lo hi by (auto simp: f)
qed

lemma flog2_unique:
  assumes "two_pow e \<le> x" "x < two_pow (e + 1)"
  shows "flog2 x = e"
proof -
  have "0 < x" using assms(1) two_pow_pos(1) [of e] by linarith
  note b = flog2_bounds [OF this]
  have "two_pow e < two_pow (flog2 x + 1)" "two_pow (flog2 x) < two_pow (e + 1)"
    using assms b by (blast intro: le_less_trans)+
  then show ?thesis by simp
qed

lemma flog2_mono:
  assumes "0 < x" "x \<le> y"
  shows "flog2 x \<le> flog2 y"
proof -
  have "two_pow (flog2 x) \<le> y" "y < two_pow (flog2 y + 1)"
    using assms flog2_bounds [of x] flog2_bounds [of y] by simp_all
  then have "two_pow (flog2 x) < two_pow (flog2 y + 1)" by (rule le_less_trans)
  then show ?thesis by simp
qed

lemma flog2_double: "0 < x \<Longrightarrow> flog2 (2 * x) = flog2 x + 1"
  using flog2_bounds [of x] by (intro flog2_unique) (simp_all add: two_pow_add)

lemma ulp_exp_mono: "0 < x \<Longrightarrow> x \<le> y \<Longrightarrow> ulp_exp p emin x \<le> ulp_exp p emin y"
  using flog2_mono [of x y] by (auto simp: ulp_exp_def)

lemma ulp_exp_minus [simp]: "ulp_exp p emin (- x) = ulp_exp p emin x"
  by (simp add: ulp_exp_def)

section \<open>Rounding to an integer\<close>

lemma rne_of_int [simp]: "rne (of_int m) = m"
  by (simp add: rne_def)

lemma rne_range: "\<lfloor>x\<rfloor> \<le> rne x" "rne x \<le> \<lfloor>x\<rfloor> + 1"
  by (simp_all add: rne_def Let_def)

lemma rne_mono: "x \<le> y \<Longrightarrow> rne x \<le> rne y"
proof (cases "\<lfloor>x\<rfloor> = \<lfloor>y\<rfloor>")
  case True
  then show "x \<le> y \<Longrightarrow> rne x \<le> rne y" by (auto simp: rne_def Let_def)
next
  case False
  show "rne x \<le> rne y" if "x \<le> y"
    using False floor_mono [OF that] rne_range [of x] rne_range [of y] by linarith
qed

lemma rne_minus: "rne (- x) = - rne x"
proof (cases "x \<in> \<int>")
  case True
  then obtain m where "x = of_int m" by (auto elim: Ints_cases)
  then show ?thesis using rne_of_int [of "- m"] by simp
next
  case False
  then have "of_int \<lfloor>x\<rfloor> \<noteq> x" by (metis Ints_of_int)
  then have f: "\<lfloor>- x\<rfloor> = - \<lfloor>x\<rfloor> - 1"
    using of_int_floor_le [of x] floor_correct [of x] by (intro floor_unique) (auto simp: less_le)
  show ?thesis by (auto simp: rne_def Let_def f)
qed

lemma rne_le_of_int: "x \<le> of_int m \<Longrightarrow> rne x \<le> m"
  using rne_mono [of x "of_int m"] by simp

lemma rne_ge_of_int: "of_int m \<le> x \<Longrightarrow> m \<le> rne x"
  using rne_mono [of "of_int m" x] by simp

section \<open>Properties of rounding\<close>

lemma fl_round_0 [simp]: "fl_round p emin 0 = 0"
  by (simp add: fl_round_def)

lemma fl_round_minus: "fl_round p emin (- x) = - fl_round p emin x"
  by (simp add: fl_round_def Let_def rne_minus minus_divide_left [symmetric] del: minus_divide_left)

lemma fl_round_eq:
  "fl_round p emin x = of_int (rne (x / two_pow (ulp_exp p emin x))) * two_pow (ulp_exp p emin x)"
proof (cases "x = 0")
  case True
  then show ?thesis using rne_of_int [of 0] by simp
qed (simp add: fl_round_def Let_def)

lemma fl_round_nonneg: "0 \<le> x \<Longrightarrow> 0 \<le> fl_round p emin x"
  unfolding fl_round_eq [of p emin x] by (intro mult_nonneg_nonneg) (auto intro: rne_ge_of_int)

text \<open>The significand of a rounded value fits in \<open>p\<close> bits (or is exactly \<open>2^p\<close>).\<close>

lemma signif_bound:
  assumes "0 < x"
  shows "x / two_pow (ulp_exp p emin x) < two_pow p"
proof -
  have "x < two_pow (flog2 x + 1)" using assms by (rule flog2_bounds)
  also have "\<dots> \<le> two_pow (p + ulp_exp p emin x)"
    using assms by (simp add: ulp_exp_def)
  finally show ?thesis by (simp add: two_pow_add divide_less_eq)
qed

lemma fl_round_repr:
  assumes "1 \<le> p"
  shows "fl_repr p emin (fl_round p emin x)"
proof -
  let ?e = "ulp_exp p emin x"
  have "\<bar>rne (x / two_pow ?e)\<bar> \<le> 2 ^ nat p"
  proof (cases "x = 0")
    case True
    then show ?thesis using rne_of_int [of 0] by simp
  next
    case False
    have b: "\<bar>x\<bar> / two_pow ?e \<le> of_int (2 ^ nat p)"
      using signif_bound [of "\<bar>x\<bar>" p emin] False assms
      by (simp add: ulp_exp_def two_pow_nat less_imp_le)
    have "rne (x / two_pow ?e) \<le> 2 ^ nat p"
      by (rule rne_le_of_int [OF order_trans [OF _ b]]) (simp add: divide_right_mono)
    moreover have "- (x / two_pow ?e) \<le> of_int (2 ^ nat p)"
      by (rule order_trans [OF _ b]) (simp add: minus_divide_left divide_right_mono del: minus_divide_left [symmetric])
    then have "- rne (x / two_pow ?e) \<le> 2 ^ nat p"
      unfolding rne_minus [symmetric] by (rule rne_le_of_int)
    ultimately show ?thesis by linarith
  qed
  moreover have "emin \<le> ?e" by (simp add: ulp_exp_def)
  ultimately show ?thesis unfolding fl_repr_def fl_round_eq [of p emin x] by blast
qed

lemma fl_round_multiple:
  assumes "ulp_exp p emin x \<le> e" "x = of_int m * two_pow e"
  shows "fl_round p emin x = x"
proof -
  let ?u = "ulp_exp p emin x"
  have "x / two_pow ?u = of_int m * two_pow (e - ?u)"
    by (simp add: assms(2) two_pow_diff)
  also have "\<dots> = of_int (m * 2 ^ nat (e - ?u))"
    using assms(1) by (simp add: two_pow_nat)
  finally have "x / two_pow ?u = of_int (m * 2 ^ nat (e - ?u))" .
  then show ?thesis
    unfolding fl_round_eq [of p emin x] by (metis rne_of_int nonzero_divide_eq_eq two_pow_pos(2))
qed

lemma fl_repr_round_pos:
  assumes "1 \<le> p" "emin \<le> e" "0 < m" "m \<le> 2 ^ nat p" "x = of_int m * two_pow e"
  shows "fl_round p emin x = x"
proof (cases "m = 2 ^ nat p")
  case True
  have x: "x = two_pow (p + e)" using assms(1,5) True by (simp add: two_pow_add two_pow_nat)
  then have "flog2 x = p + e" by (intro flog2_unique) auto
  then have "ulp_exp p emin x \<le> e + p" using assms(1,2) by (simp add: ulp_exp_def x)
  then show ?thesis by (rule fl_round_multiple [where m = 1]) (simp add: x algebra_simps)
next
  case False
  have "of_int m < (of_int (2 ^ nat p) :: rat)"
    using False assms(4) by (subst of_int_less_iff) linarith
  then have "x < two_pow (p + e)"
    using assms(1) by (simp add: assms(5) two_pow_add two_pow_nat)
  moreover have "0 < x" using assms by simp
  ultimately have "flog2 x < p + e"
    using flog2_bounds(1) [of x] by (metis le_less_trans two_pow_less_iff)
  then have "ulp_exp p emin x \<le> e" using assms(2) \<open>0 < x\<close> by (simp add: ulp_exp_def)
  then show ?thesis using assms(5) by (rule fl_round_multiple)
qed

lemma fl_repr_round:
  assumes "1 \<le> p" "fl_repr p emin x"
  shows "fl_round p emin x = x"
proof -
  obtain m e where me: "emin \<le> e" "\<bar>m\<bar> \<le> 2 ^ nat p" "x = of_int m * two_pow e"
    using assms(2) by (auto simp: fl_repr_def)
  consider "m = 0" | "0 < m" | "0 < - m" by linarith
  then show ?thesis
  proof cases
    case 1 then show ?thesis using me by simp
  next
    case 2 then show ?thesis using me assms(1) by (intro fl_repr_round_pos [of p emin e m]) auto
  next
    case 3
    then have "fl_round p emin (- x) = - x"
      using me assms(1) by (intro fl_repr_round_pos [of p emin e "- m"]) auto
    then show ?thesis by (simp add: fl_round_minus)
  qed
qed

lemma fl_round_idem: "1 \<le> p \<Longrightarrow> fl_round p emin (fl_round p emin x) = fl_round p emin x"
  by (intro fl_repr_round fl_round_repr)

lemma fl_round_mono_pos:
  assumes "1 \<le> p" "0 < x" "x \<le> y"
  shows "fl_round p emin x \<le> fl_round p emin y"
proof (cases "ulp_exp p emin x = ulp_exp p emin y")
  case True
  then show ?thesis
    unfolding fl_round_eq [of p emin x] fl_round_eq [of p emin y]
    using assms(3) by (simp add: rne_mono divide_right_mono)
next
  case False
  let ?ex = "ulp_exp p emin x" and ?ey = "ulp_exp p emin y" and ?f = "flog2 y"
  have less: "?ex < ?ey" using False ulp_exp_mono [OF assms(2,3), of p emin] by simp
  have y: "0 < y" using assms by simp
  have ey: "?ey = ?f - (p - 1)" and fl: "flog2 x < ?f"
    using less y \<open>0 < x\<close> flog2_mono [OF assms(2,3)] by (auto simp: ulp_exp_def)
  have "fl_round p emin x \<le> two_pow ?f"
  proof -
    have "x < two_pow (flog2 x + 1)" using \<open>0 < x\<close> by (rule flog2_bounds)
    also have "\<dots> \<le> two_pow ?f" using fl by simp
    finally have "x / two_pow ?ex \<le> two_pow (?f - ?ex)"
      by (simp add: divide_right_mono two_pow_diff)
    also have "\<dots> = of_int (2 ^ nat (?f - ?ex))"
      using less ey assms(1) by (intro two_pow_nat) simp
    finally have "x / two_pow ?ex \<le> of_int (2 ^ nat (?f - ?ex))" .
    then have "rne (x / two_pow ?ex) \<le> 2 ^ nat (?f - ?ex)" by (rule rne_le_of_int)
    then have "of_int (rne (x / two_pow ?ex)) \<le> two_pow (?f - ?ex)"
      using less ey assms(1) by (subst two_pow_nat) (simp_all del: of_int_power)
    then show ?thesis
      unfolding fl_round_eq [of p emin x] by (simp add: two_pow_diff le_divide_eq)
  qed
  also have "two_pow ?f \<le> fl_round p emin y"
  proof -
    have "two_pow (p - 1) * two_pow ?ey = two_pow ?f"
      by (simp add: ey flip: two_pow_add)
    then have "two_pow (p - 1) \<le> y / two_pow ?ey"
      using flog2_bounds(1) [OF y] by (simp add: le_divide_eq)
    then have "of_int (2 ^ nat (p - 1)) \<le> y / two_pow ?ey"
      using assms(1) two_pow_nat [of "p - 1"] by simp
    then have "2 ^ nat (p - 1) \<le> rne (y / two_pow ?ey)" by (rule rne_ge_of_int)
    then have "two_pow (p - 1) \<le> of_int (rne (y / two_pow ?ey))"
      using assms(1) by (subst two_pow_nat) (simp_all del: of_int_power)
    then have "two_pow (p - 1) * two_pow ?ey \<le> fl_round p emin y"
      unfolding fl_round_eq [of p emin y] by simp
    then show ?thesis by (simp add: ey flip: two_pow_add)
  qed
  finally show ?thesis .
qed

lemma fl_round_mono:
  assumes "1 \<le> p" "x \<le> y"
  shows "fl_round p emin x \<le> fl_round p emin y"
proof -
  consider "0 < x" | "x \<le> 0" "0 \<le> y" | "0 < - y" using assms by linarith
  then show ?thesis
  proof cases
    case 1 then show ?thesis using assms by (intro fl_round_mono_pos)
  next
    case 2
    then show ?thesis
      using fl_round_nonneg [of "- x" p emin] fl_round_nonneg [of y p emin]
      by (simp add: fl_round_minus)
  next
    case 3
    then show ?thesis
      using fl_round_mono_pos [of p "- y" "- x" emin] assms by (simp add: fl_round_minus)
  qed
qed

lemma fl_repr_double: "fl_repr p emin x \<Longrightarrow> fl_repr p emin (2 * x)"
proof -
  assume "fl_repr p emin x"
  then obtain m e where "emin \<le> e" "\<bar>m\<bar> \<le> 2 ^ nat p" "x = of_int m * two_pow e"
    by (auto simp: fl_repr_def)
  then show ?thesis
    unfolding fl_repr_def by (intro exI [of _ m] exI [of _ "e + 1"]) (simp add: two_pow_add)
qed

lemma fl_round_fixed_repr: "1 \<le> p \<Longrightarrow> fl_round p emin x = x \<Longrightarrow> fl_repr p emin x"
  using fl_round_repr [of p emin x] by simp

lemma fl_round_fixed_double:
  "1 \<le> p \<Longrightarrow> fl_round p emin x = x \<Longrightarrow> fl_round p emin (2 * x) = 2 * x"
  by (rule fl_repr_round [OF _ fl_repr_double [OF fl_round_fixed_repr]])

lemma fl_repr_of_int: "emin \<le> 0 \<Longrightarrow> \<bar>m\<bar> \<le> 2 ^ nat p \<Longrightarrow> fl_repr p emin (of_int m)"
  unfolding fl_repr_def by (intro exI [of _ m] exI [of _ 0]) simp

text \<open>The relative error of rounding up, for values in the normal range.\<close>

lemma rne_upper: "of_int (rne x) \<le> x + 1 / 2"
  unfolding rne_def Let_def by (auto simp: not_less) linarith+

lemma fl_round_upper:
  assumes "two_pow e \<le> x" "emin \<le> e - (p - 1)"
  shows "fl_round p emin x \<le> x + x * two_pow (- p)"
proof -
  have x: "0 < x" using assms(1) two_pow_pos(1) [of e] by linarith
  have "flog2 (two_pow e) = e" by (rule flog2_unique) simp_all
  then have fl: "e \<le> flog2 x"
    using flog2_mono [OF two_pow_pos(1) assms(1)] by simp
  define u where "u = two_pow (ulp_exp p emin x)"
  have "ulp_exp p emin x = flog2 x + (1 - p)" using fl x assms(2) by (simp add: ulp_exp_def)
  then have "u = two_pow (flog2 x) * two_pow (1 - p)"
    unfolding u_def by (simp only: two_pow_add)
  also have "\<dots> \<le> x * two_pow (1 - p)"
    by (intro mult_right_mono flog2_bounds(1) x) simp
  also have "\<dots> = 2 * (x * two_pow (- p))" by (simp add: two_pow_diff power_int_minus field_simps)
  finally have u: "u \<le> 2 * (x * two_pow (- p))" .
  have "0 < u" by (simp add: u_def)
  have "of_int (rne (x / u)) * u \<le> (x / u + 1 / 2) * u"
    using \<open>0 < u\<close> rne_upper [of "x / u"] by (intro mult_right_mono) auto
  also have "\<dots> = x + u / 2" using \<open>0 < u\<close> by (simp add: field_simps)
  also have "\<dots> \<le> x + x * two_pow (- p)" using u by simp
  finally show ?thesis by (simp add: fl_round_eq u_def)
qed

section \<open>The contract of a rounding, and the two formats\<close>

locale rounding =
  fixes rnd :: "rat \<Rightarrow> rat"
  assumes mono: "x \<le> y \<Longrightarrow> rnd x \<le> rnd y"
    and idem: "rnd (rnd x) = rnd x"
    and minus: "rnd (- x) = - rnd x"
    and double: "rnd x = x \<Longrightarrow> rnd (2 * x) = 2 * x"
    and one: "rnd 1 = 1"
begin

lemma zero: "rnd 0 = 0"
  using minus [of 0] by simp

lemma nonneg: "0 \<le> x \<Longrightarrow> 0 \<le> rnd x"
  using mono [of 0 x] by (simp add: zero)

lemma nonpos: "x \<le> 0 \<Longrightarrow> rnd x \<le> 0"
  using mono [of x 0] by (simp add: zero)

lemma le_repr: "rnd y = y \<Longrightarrow> x \<le> y \<Longrightarrow> rnd x \<le> y"
  using mono [of x y] by simp

lemma ge_repr: "rnd y = y \<Longrightarrow> y \<le> x \<Longrightarrow> y \<le> rnd x"
  using mono [of y x] by simp

lemma abs_le_repr: "rnd y = y \<Longrightarrow> \<bar>x\<bar> \<le> y \<Longrightarrow> \<bar>rnd x\<bar> \<le> y"
  using le_repr [of y x] ge_repr [of "- y" x] minus [of y] by (simp add: abs_le_iff minus_le_iff)

lemma max_repr: "rnd x = x \<Longrightarrow> rnd y = y \<Longrightarrow> rnd (max x y) = max x y"
  by (simp add: max_def)

text \<open>A convex correction step does not pass zero: used for filters of nonnegative signals.\<close>

lemma step_nonneg:
  assumes "0 \<le> x" "0 \<le> m" "0 \<le> k" "k \<le> 1" "rnd x = x"
  shows "0 \<le> rnd (x + rnd (k * rnd (m - x)))"
proof -
  have "- x \<le> rnd (m - x)" using assms by (intro ge_repr) (auto simp: minus)
  then have "- x \<le> k * rnd (m - x)"
  proof (cases "0 \<le> rnd (m - x)")
    case True
    then have "0 \<le> k * rnd (m - x)" using assms(3) by simp
    then show ?thesis using assms(1) by linarith
  next
    case False
    then have "k * - rnd (m - x) \<le> - rnd (m - x)"
      using assms(3,4) by (intro mult_left_le_one_le) auto
    then show ?thesis using \<open>- x \<le> rnd (m - x)\<close> by simp
  qed
  then have "- x \<le> rnd (k * rnd (m - x))" using assms(5) by (intro ge_repr) (auto simp: minus)
  then show ?thesis by (intro nonneg) simp
qed

end

definition rnd32 :: "rat \<Rightarrow> rat" where
  "rnd32 = fl_round 24 (- 149)"

definition rnd64 :: "rat \<Rightarrow> rat" where
  "rnd64 = fl_round 53 (- 1074)"

lemma rnd32_of_int: "\<bar>m\<bar> \<le> 2 ^ 24 \<Longrightarrow> rnd32 (of_int m) = of_int m"
  unfolding rnd32_def by (intro fl_repr_round fl_repr_of_int) simp_all

lemma rnd64_of_int: "\<bar>m\<bar> \<le> 2 ^ 53 \<Longrightarrow> rnd64 (of_int m) = of_int m"
  unfolding rnd64_def by (intro fl_repr_round fl_repr_of_int) simp_all

lemma rnd32_numeral [simp]: "numeral n \<le> (2 ^ 24 :: int) \<Longrightarrow> rnd32 (numeral n) = numeral n"
  using rnd32_of_int [of "numeral n"] by simp

lemma rnd64_numeral [simp]: "numeral n \<le> (2 ^ 53 :: int) \<Longrightarrow> rnd64 (numeral n) = numeral n"
  using rnd64_of_int [of "numeral n"] by simp

text \<open>A double holds a counter times a power of two.\<close>

lemma rnd64_scaled:
  assumes "\<bar>m\<bar> \<le> 2 ^ 53"
  shows "rnd64 (2 ^ k * of_int m) = 2 ^ k * of_int m"
proof -
  have "(2 :: rat) ^ k * of_int m = of_int m * two_pow (int k)" by (simp add: mult.commute)
  then have "fl_repr 53 (- 1074) (2 ^ k * of_int m)"
    unfolding fl_repr_def using assms by (intro exI [of _ m] exI [of _ "int k"]) simp
  then show ?thesis unfolding rnd64_def by (intro fl_repr_round) simp_all
qed

text \<open>A \<open>float\<close> is a \<open>double\<close>.\<close>

lemma rnd64_of_float: "rnd32 x = x \<Longrightarrow> rnd64 x = x"
proof -
  assume "rnd32 x = x"
  then obtain m e where r: "- 149 \<le> e" "\<bar>m\<bar> \<le> 2 ^ nat 24" "x = of_int m * two_pow e"
    using fl_round_fixed_repr [of 24 "- 149" x] by (auto simp: rnd32_def fl_repr_def)
  then have "fl_repr 53 (- 1074) x"
    unfolding fl_repr_def by (intro exI [of _ m] exI [of _ e]) simp
  then show "rnd64 x = x" unfolding rnd64_def by (intro fl_repr_round) simp_all
qed

interpretation f32: rounding rnd32
proof
  show "rnd32 1 = 1" using rnd32_of_int [of 1] by simp
qed (auto simp: rnd32_def fl_round_minus fl_round_idem fl_round_fixed_double intro: fl_round_mono)

interpretation f64: rounding rnd64
proof
  show "rnd64 1 = 1" using rnd64_of_int [of 1] by simp
qed (auto simp: rnd64_def fl_round_minus fl_round_idem fl_round_fixed_double intro: fl_round_mono)

lemmas rnd32_simps [simp] = f32.zero f32.one f32.idem f32.minus
lemmas rnd64_simps [simp] = f64.zero f64.one f64.idem f64.minus

end
