(* ===== verification/Geometry.thy ===== *)
theory Geometry
  imports Fp
begin

text \<open>
  Axis-aligned boxes and their intersection over union, as computed inline at three places of the
  program: in \<open>float\<close> by the two suppression loops (\<open>TRTEngine::postprocess\<close>,
  \<open>ArcDetector::nms\<close>) and in \<open>double\<close> by \<open>ArcLifecycleTracker::compute_iou\<close>. The
  definitions take the rounding of the format as an argument; the lemmas are proved once, in
  the locale of roundings.
\<close>

section \<open>Boxes\<close>

record rect =
  rx1 :: rat
  ry1 :: rat
  rx2 :: rat
  ry2 :: rat

definition rect_ok :: "rect \<Rightarrow> bool" where
  "rect_ok b \<longleftrightarrow> rx1 b \<le> rx2 b \<and> ry1 b \<le> ry2 b"

definition rect_area :: "(rat \<Rightarrow> rat) \<Rightarrow> rect \<Rightarrow> rat" where
  "rect_area rnd b = rnd (rnd (rx2 b - rx1 b) * rnd (ry2 b - ry1 b))"

definition rect_inter :: "(rat \<Rightarrow> rat) \<Rightarrow> rect \<Rightarrow> rect \<Rightarrow> rat" where
  "rect_inter rnd a b =
     (let ix1 = max (rx1 a) (rx1 b);
          iy1 = max (ry1 a) (ry1 b);
          ix2 = min (rx2 a) (rx2 b);
          iy2 = min (ry2 a) (ry2 b);
          iw = max 0 (rnd (ix2 - ix1));
          ih = max 0 (rnd (iy2 - iy1))
      in rnd (iw * ih))"

definition rect_union :: "(rat \<Rightarrow> rat) \<Rightarrow> rect \<Rightarrow> rect \<Rightarrow> rat" where
  "rect_union rnd a b = rnd (rnd (rect_area rnd a + rect_area rnd b) - rect_inter rnd a b)"

definition rect_iou :: "(rat \<Rightarrow> rat) \<Rightarrow> rect \<Rightarrow> rect \<Rightarrow> rat" where
  "rect_iou rnd a b =
     (if 0 < rect_union rnd a b then rnd (rect_inter rnd a b / rect_union rnd a b) else 0)"

text \<open>The test of the suppression loops.\<close>

definition nms_overlap :: "(rat \<Rightarrow> rat) \<Rightarrow> rat \<Rightarrow> rect \<Rightarrow> rect \<Rightarrow> bool" where
  "nms_overlap rnd thresh a b \<longleftrightarrow>
     0 < rect_union rnd a b \<and> thresh < rnd (rect_inter rnd a b / rect_union rnd a b)"

lemma nms_overlap_iou: "0 \<le> thresh \<Longrightarrow> nms_overlap rnd thresh a b \<longleftrightarrow> thresh < rect_iou rnd a b"
  by (auto simp: nms_overlap_def rect_iou_def)

lemma rect_inter_sym: "rect_inter rnd a b = rect_inter rnd b a"
  by (simp add: rect_inter_def Let_def max.commute min.commute)

lemma rect_union_sym: "rect_union rnd a b = rect_union rnd b a"
  by (simp add: rect_union_def rect_inter_sym [of rnd a b] add.commute)

lemma rect_iou_sym: "rect_iou rnd a b = rect_iou rnd b a"
  by (simp add: rect_iou_def rect_inter_sym [of rnd a b] rect_union_sym [of rnd a b])

lemma nms_overlap_sym: "nms_overlap rnd t a b = nms_overlap rnd t b a"
  by (simp add: nms_overlap_def rect_inter_sym [of rnd a b] rect_union_sym [of rnd a b])

section \<open>Bounds, for any rounding\<close>

context rounding
begin

lemma inter_nonneg: "0 \<le> rect_inter rnd a b"
  unfolding rect_inter_def Let_def by (intro nonneg mult_nonneg_nonneg) auto

lemma area_nonneg: "rect_ok a \<Longrightarrow> 0 \<le> rect_area rnd a"
  unfolding rect_area_def rect_ok_def by (intro nonneg mult_nonneg_nonneg) auto

lemma inter_le_area:
  assumes "rect_ok a"
  shows "rect_inter rnd a b \<le> rect_area rnd a"
proof -
  have w: "0 \<le> rnd (rx2 a - rx1 a)" "0 \<le> rnd (ry2 a - ry1 a)"
    using assms by (auto simp: rect_ok_def intro: nonneg)
  have "max 0 (rnd (min (rx2 a) (rx2 b) - max (rx1 a) (rx1 b))) \<le> rnd (rx2 a - rx1 a)"
    "max 0 (rnd (min (ry2 a) (ry2 b) - max (ry1 a) (ry1 b))) \<le> rnd (ry2 a - ry1 a)"
    using w by (auto intro: mono)
  then show ?thesis
    unfolding rect_inter_def rect_area_def Let_def using w by (intro mono mult_mono) auto
qed

lemma inter_repr: "rnd (rect_inter rnd a b) = rect_inter rnd a b"
  by (simp add: rect_inter_def Let_def idem)

lemma inter_le_union:
  assumes "rect_ok a" "rect_ok b"
  shows "rect_inter rnd a b \<le> rect_union rnd a b"
proof -
  let ?i = "rect_inter rnd a b"
  have "2 * ?i \<le> rect_area rnd a + rect_area rnd b"
    using inter_le_area [OF assms(1), of b] inter_le_area [OF assms(2), of a]
    by (simp add: rect_inter_sym)
  then have "2 * ?i \<le> rnd (rect_area rnd a + rect_area rnd b)"
    by (intro ge_repr double inter_repr)
  then show ?thesis
    unfolding rect_union_def by (intro ge_repr inter_repr) simp
qed

lemma iou_nonneg: "0 \<le> rect_iou rnd a b"
  unfolding rect_iou_def by (auto intro!: nonneg divide_nonneg_pos inter_nonneg)

lemma iou_le_one: "rect_ok a \<Longrightarrow> rect_ok b \<Longrightarrow> rect_iou rnd a b \<le> 1"
  unfolding rect_iou_def by (auto intro!: le_repr one inter_le_union)

lemma iou_self:
  assumes "0 < rect_area rnd a" "rect_ok a"
  shows "rect_iou rnd a a = 1"
proof -
  have i: "rect_inter rnd a a = rect_area rnd a"
    using assms(2) nonneg [of "rx2 a - rx1 a"] nonneg [of "ry2 a - ry1 a"]
    by (simp add: rect_inter_def rect_area_def rect_ok_def)
  then have "rnd (rect_area rnd a) = rect_area rnd a" using inter_repr [of a a] by simp
  then have "rect_union rnd a a = rect_area rnd a"
    using double [of "rect_area rnd a"] by (simp add: rect_union_def i flip: mult_2)
  then show ?thesis using assms(1) by (simp add: rect_iou_def i one)
qed

lemma iou_disjoint:
  assumes "rx2 a \<le> rx1 b \<or> rx2 b \<le> rx1 a \<or> ry2 a \<le> ry1 b \<or> ry2 b \<le> ry1 a"
  shows "rect_iou rnd a b = 0"
proof -
  have "min (rx2 a) (rx2 b) - max (rx1 a) (rx1 b) \<le> 0 \<or> min (ry2 a) (ry2 b) - max (ry1 a) (ry1 b) \<le> 0"
    using assms by (auto simp: min_def max_def)
  then have "rnd (min (rx2 a) (rx2 b) - max (rx1 a) (rx1 b)) \<le> 0
      \<or> rnd (min (ry2 a) (ry2 b) - max (ry1 a) (ry1 b)) \<le> 0"
    by (blast intro: nonpos)
  then have "rect_inter rnd a b = 0"
    unfolding rect_inter_def Let_def by (auto simp: zero max_absorb1)
  then show ?thesis by (simp add: rect_iou_def zero)
qed

end

end
