(* ===== verification/Cuda_Preprocess.thy ===== *)
theory Cuda_Preprocess
  imports Fp Prelude
begin

text \<open>
  The image kernels of \<open>cuda_preprocess.cu\<close> and their launchers. A kernel is the function of
  one thread; a launch runs the thread function for every thread of the grid, in an order that
  the device chooses. The runtime enters as the argument \<open>sched\<close>: for a grid it gives the order
  in which the threads run, or refuses the launch (\<open>cudaGetLastError() != cudaSuccess\<close>).

  Arithmetic is single precision, each operation rounded once (no contraction to fused
  operations). Index arithmetic is \<open>int\<close>; the indices a launch computes are checked against the
  bounds of the buffers and of \<open>int\<close>.
\<close>

section \<open>Grids and threads\<close>

type_synonym pixel = "rat \<times> rat \<times> rat"
type_synonym schedule = "nat \<Rightarrow> nat \<Rightarrow> (nat \<times> nat) list option"

text \<open>Blocks of 16 by 16 threads; the division is on \<open>unsigned int\<close>.\<close>

definition grid_dim :: "int \<Rightarrow> nat" where
  "grid_dim d = unat (((word_of_int d :: 32 word) + 16 - 1) div 16)"

text \<open>What CUDA promises of a launch that it accepts: every thread of the grid runs once.\<close>

definition sched_ok :: "schedule \<Rightarrow> bool" where
  "sched_ok sched \<longleftrightarrow> (\<forall>gx gy ts. sched gx gy = Some ts \<longrightarrow>
     distinct ts \<and> set ts = {0..<16 * gx} \<times> {0..<16 * gy})"

text \<open>A store of a pixel to the three planes of a CHW image.\<close>

definition write_at :: "'b list \<Rightarrow> int \<Rightarrow> 'b \<Rightarrow> 'b list exec" where
  "write_at buf i v = (if 0 \<le> i \<and> i < int (length buf) then Ret (buf[nat i := v]) else UB)"

definition chw :: "int \<Rightarrow> int \<Rightarrow> int \<Rightarrow> int \<Rightarrow> int \<Rightarrow> int" where
  "chw w h c x y = (c * h + y) * w + x"

definition store_pixel :: "int \<Rightarrow> int \<Rightarrow> int \<Rightarrow> int \<Rightarrow> pixel \<Rightarrow> rat list \<Rightarrow> rat list exec" where
  "store_pixel w h x y px dst = (case px of (r, g, b) \<Rightarrow>
     exec_bind (ci32 (chw w h 0 x y)) (\<lambda>i0. exec_bind (write_at dst i0 r) (\<lambda>d0.
     exec_bind (ci32 (chw w h 1 x y)) (\<lambda>i1. exec_bind (write_at d0 i1 g) (\<lambda>d1.
     exec_bind (ci32 (chw w h 2 x y)) (\<lambda>i2. write_at d1 i2 b))))))"

text \<open>
  A thread: the guard against threads outside the image, the pixel, the stores. \<open>pixel\<close> is the
  computation of the kernel at hand.
\<close>

definition run_thread ::
    "(int \<Rightarrow> int \<Rightarrow> pixel exec) \<Rightarrow> int \<Rightarrow> int \<Rightarrow> nat \<times> nat \<Rightarrow> rat list \<Rightarrow> rat list exec" where
  "run_thread pixel w h t dst = (case t of (tx, ty) \<Rightarrow>
     if w \<le> int tx \<or> h \<le> int ty then Ret dst
     else exec_bind (pixel (int tx) (int ty)) (\<lambda>px. store_pixel w h (int tx) (int ty) px dst))"

text \<open>The launch and its return code.\<close>

definition launch ::
    "schedule \<Rightarrow> (int \<Rightarrow> int \<Rightarrow> pixel exec) \<Rightarrow> int \<Rightarrow> int \<Rightarrow> rat list \<Rightarrow> (int \<times> rat list) exec" where
  "launch sched pixel w h dst =
     (case sched (grid_dim w) (grid_dim h) of
        None \<Rightarrow> Ret (- 1, dst)
      | Some ts \<Rightarrow> exec_bind (exec_fold (run_thread pixel w h) ts dst) (\<lambda>d. Ret (0, d)))"

section \<open>The kernels\<close>

record norm_params =
  np_mean :: pixel
  np_std :: pixel

text \<open>\<open>mean ? mean[i] : 0\<close> and \<open>std_dev ? std_dev[i] : 1\<close>.\<close>

definition norm_of :: "pixel option \<Rightarrow> pixel option \<Rightarrow> norm_params" where
  "norm_of mean std_dev =
     \<lparr>np_mean = (case mean of Some m \<Rightarrow> m | None \<Rightarrow> (0, 0, 0)),
      np_std = (case std_dev of Some s \<Rightarrow> s | None \<Rightarrow> (1, 1, 1))\<rparr>"

definition normalize :: "norm_params \<Rightarrow> u8 \<Rightarrow> u8 \<Rightarrow> u8 \<Rightarrow> pixel" where
  "normalize np r g b = (case (np_mean np, np_std np) of ((mr, mg, mb), (sr, sg, sb)) \<Rightarrow>
     (rnd32 (rnd32 (of_int (uint r) - mr) / sr), rnd32 (rnd32 (of_int (uint g) - mg) / sg),
      rnd32 (rnd32 (of_int (uint b) - mb) / sb)))"

definition fetch_rgb :: "u8 list \<Rightarrow> int \<Rightarrow> bool \<Rightarrow> norm_params \<Rightarrow> pixel exec" where
  "fetch_rgb src src_idx swap_rb np =
     exec_bind (read_at src (src_idx + (if swap_rb then 2 else 0))) (\<lambda>r.
     exec_bind (read_at src (src_idx + 1)) (\<lambda>g.
     exec_bind (read_at src (src_idx + (if swap_rb then 0 else 2))) (\<lambda>b.
       Ret (normalize np r g b))))"

record letterbox_geom =
  lb_pad_x :: int
  lb_pad_y :: int
  lb_resize_w :: int
  lb_resize_h :: int

text \<open>\<open>static_cast<int>((d - pad) * static_cast<float>(src) / resize)\<close>.\<close>

definition src_coord :: "int \<Rightarrow> int \<Rightarrow> int \<Rightarrow> int exec" where
  "src_coord d src resize =
     to_int (rnd32 (rnd32 (rnd32 (of_int d) * rnd32 (of_int src)) / rnd32 (of_int resize)))"

definition resize_pixel ::
    "u8 list \<Rightarrow> int \<Rightarrow> int \<Rightarrow> int \<Rightarrow> int \<Rightarrow> int \<Rightarrow> norm_params \<Rightarrow> bool \<Rightarrow> bool \<Rightarrow> letterbox_geom \<Rightarrow>
     int \<Rightarrow> int \<Rightarrow> pixel exec" where
  "resize_pixel src src_w src_h src_c dst_w dst_h np swap_rb letterbox lb dx dy =
     (if letterbox \<and> (dx < lb_pad_x lb \<or> lb_pad_x lb + lb_resize_w lb \<le> dx \<or>
                      dy < lb_pad_y lb \<or> lb_pad_y lb + lb_resize_h lb \<le> dy)
      then Ret (0, 0, 0)
      else exec_bind (if letterbox then src_coord (dx - lb_pad_x lb) src_w (lb_resize_w lb)
                      else src_coord dx src_w dst_w) (\<lambda>sx0.
           exec_bind (if letterbox then src_coord (dy - lb_pad_y lb) src_h (lb_resize_h lb)
                      else src_coord dy src_h dst_h) (\<lambda>sy0.
           let sx = min sx0 (src_w - 1); sy = min sy0 (src_h - 1)
           in exec_bind (ci32 ((sy * src_w + sx) * src_c)) (\<lambda>src_idx. fetch_rgb src src_idx swap_rb np))))"

text \<open>
  The region crop: the factor is 1 whatever the region, so a thread reads the pixel at its own
  distance from the region's corner, clamped to the image.
\<close>

definition roi_crop_pixel ::
    "u8 list \<Rightarrow> int \<Rightarrow> int \<Rightarrow> int \<Rightarrow> int \<Rightarrow> norm_params \<Rightarrow> bool \<Rightarrow> int \<Rightarrow> int \<Rightarrow> pixel exec" where
  "roi_crop_pixel src src_w src_h roi_x1 roi_y1 np swap_rb dx dy =
     exec_bind (to_int (rnd32 (rnd32 (of_int dx) * (if 0 < roi_x1 then 1 else 1)))) (\<lambda>ox.
     exec_bind (to_int (rnd32 (rnd32 (of_int dy) * (if 0 < roi_y1 then 1 else 1)))) (\<lambda>oy.
     exec_bind (ci32 (roi_x1 + ox)) (\<lambda>sx0. exec_bind (ci32 (roi_y1 + oy)) (\<lambda>sy0.
     let sx = min (max sx0 0) (src_w - 1); sy = min (max sy0 0) (src_h - 1)
     in exec_bind (ci32 ((sy * src_w + sx) * 3)) (\<lambda>src_idx. fetch_rgb src src_idx swap_rb np)))))"

definition uv_enhance_pixel :: "u8 list \<Rightarrow> int \<Rightarrow> rat \<Rightarrow> int \<Rightarrow> int \<Rightarrow> pixel exec" where
  "uv_enhance_pixel uv width gain x y =
     exec_bind (ci32 (y * width + x)) (\<lambda>idx. exec_bind (read_at uv idx) (\<lambda>px.
       let val = min (max (rnd32 (of_int (uint px) * gain)) 0) 255; v = rnd32 (val / 255)
       in Ret (v, v, v)))"

definition blend_channel :: "rat \<Rightarrow> rat \<Rightarrow> u8 \<Rightarrow> u8 \<Rightarrow> rat" where
  "blend_channel uv_weight factor v u =
     (let ch = rnd32 (of_int (uint u) * rnd32 factor);
          blend = rnd32 (rnd32 (of_int (uint v) * rnd32 (1 - uv_weight)) + rnd32 (ch * uv_weight))
      in min (max (rnd32 (blend / 255)) 0) 1)"

definition blend_pixel :: "u8 list \<Rightarrow> u8 list \<Rightarrow> int \<Rightarrow> rat \<Rightarrow> int \<Rightarrow> int \<Rightarrow> pixel exec" where
  "blend_pixel visible uv width uv_weight x y =
     exec_bind (ci32 ((y * width + x) * 3)) (\<lambda>pixel_idx.
     exec_bind (read_at visible (pixel_idx + 2)) (\<lambda>vr.
     exec_bind (read_at visible (pixel_idx + 1)) (\<lambda>vg.
     exec_bind (read_at visible pixel_idx) (\<lambda>vb.
     exec_bind (read_at uv (y * width + x)) (\<lambda>u.
       Ret (blend_channel uv_weight (3/2) vr u, blend_channel uv_weight (1/5) vg u,
            blend_channel uv_weight (3/10) vb u))))))"

section \<open>The launchers\<close>

text \<open>An empty source image makes the scale infinite; that case is left undefined.\<close>

definition letterbox_of :: "bool \<Rightarrow> int \<Rightarrow> int \<Rightarrow> int \<Rightarrow> int \<Rightarrow> letterbox_geom exec" where
  "letterbox_of letterbox src_w src_h dst_w dst_h =
     (if letterbox
      then if src_w = 0 \<or> src_h = 0 then UB
      else let scale = min (rnd32 (rnd32 (of_int dst_w) / rnd32 (of_int src_w)))
                           (rnd32 (rnd32 (of_int dst_h) / rnd32 (of_int src_h)))
           in exec_bind (to_int (rnd32 (rnd32 (of_int src_w) * scale))) (\<lambda>resize_w.
              exec_bind (to_int (rnd32 (rnd32 (of_int src_h) * scale))) (\<lambda>resize_h.
                Ret \<lparr>lb_pad_x = (dst_w - resize_w) sdiv 2, lb_pad_y = (dst_h - resize_h) sdiv 2,
                     lb_resize_w = resize_w, lb_resize_h = resize_h\<rparr>))
      else Ret \<lparr>lb_pad_x = 0, lb_pad_y = 0, lb_resize_w = dst_w, lb_resize_h = dst_h\<rparr>)"

definition cuda_preprocess_resize_normalize ::
    "schedule \<Rightarrow> u8 list \<Rightarrow> int \<Rightarrow> int \<Rightarrow> int \<Rightarrow> rat list \<Rightarrow> int \<Rightarrow> int \<Rightarrow> pixel option \<Rightarrow> pixel option \<Rightarrow>
     bool \<Rightarrow> bool \<Rightarrow> (int \<times> rat list) exec" where
  "cuda_preprocess_resize_normalize sched src src_w src_h src_c dst dst_w dst_h mean std_dev swap_rb letterbox =
     exec_bind (letterbox_of letterbox src_w src_h dst_w dst_h) (\<lambda>lb.
       launch sched (resize_pixel src src_w src_h src_c dst_w dst_h (norm_of mean std_dev) swap_rb letterbox lb)
         dst_w dst_h dst)"

text \<open>The far corner of the region is an argument that the code does not use.\<close>

definition cuda_preprocess_roi_crop ::
    "schedule \<Rightarrow> u8 list \<Rightarrow> int \<Rightarrow> int \<Rightarrow> int \<Rightarrow> int \<Rightarrow> int \<Rightarrow> int \<Rightarrow> rat list \<Rightarrow> int \<Rightarrow> int \<Rightarrow>
     pixel option \<Rightarrow> pixel option \<Rightarrow> bool \<Rightarrow> (int \<times> rat list) exec" where
  "cuda_preprocess_roi_crop sched src src_w src_h roi_x1 roi_y1 roi_x2 roi_y2 dst dst_w dst_h mean std_dev swap_rb =
     launch sched (roi_crop_pixel src src_w src_h roi_x1 roi_y1 (norm_of mean std_dev) swap_rb) dst_w dst_h dst"

definition cuda_uv_enhance ::
    "schedule \<Rightarrow> u8 list \<Rightarrow> int \<Rightarrow> int \<Rightarrow> rat list \<Rightarrow> rat \<Rightarrow> (int \<times> rat list) exec" where
  "cuda_uv_enhance sched uv_src width height dst gain =
     launch sched (uv_enhance_pixel uv_src width gain) width height dst"

definition cuda_blend_uv_visible ::
    "schedule \<Rightarrow> u8 list \<Rightarrow> u8 list \<Rightarrow> rat list \<Rightarrow> int \<Rightarrow> int \<Rightarrow> rat \<Rightarrow> (int \<times> rat list) exec" where
  "cuda_blend_uv_visible sched visible uv dst width height uv_weight =
     launch sched (blend_pixel visible uv width uv_weight) width height dst"

section \<open>What a launch computes\<close>

lemma grid_dim_covers:
  assumes "0 \<le> d" "d < 2 ^ 31"
  shows "d \<le> 16 * int (grid_dim d)" "16 * int (grid_dim d) < d + 16"
proof -
  have e: "(word_of_int d :: 32 word) + 16 - 1 = word_of_int (d + 15)"
    by (simp add: wi_hom_add [symmetric])
  have "uint (word_of_int (d + 15) :: 32 word) = d + 15"
    unfolding uint_word_of_int_eq using assms by (intro take_bit_int_eq_self) simp_all
  then have "uint ((word_of_int d :: 32 word) + 16 - 1) = d + 15" by (simp only: e)
  then have "int (grid_dim d) = (d + 15) div 16"
    by (simp add: grid_dim_def uint_div_distrib flip: uint_nat)
  then show "d \<le> 16 * int (grid_dim d)" "16 * int (grid_dim d) < d + 16" by linarith+
qed

text \<open>The value of an image at a position of its buffer, given the pixels.\<close>

definition plane :: "nat \<Rightarrow> pixel \<Rightarrow> rat" where
  "plane c px = (case px of (r, g, b) \<Rightarrow> if c = 0 then r else if c = 1 then g else b)"

definition img :: "nat \<Rightarrow> nat \<Rightarrow> (int \<Rightarrow> int \<Rightarrow> pixel) \<Rightarrow> nat \<Rightarrow> rat" where
  "img W H f i = plane (i div W div H) (f (int (i mod W)) (int (i div W mod H)))"

definition pos_of :: "nat \<Rightarrow> nat \<Rightarrow> nat \<Rightarrow> nat \<times> nat" where
  "pos_of W H i = (i mod W, i div W mod H)"

definition idx :: "nat \<Rightarrow> nat \<Rightarrow> nat \<Rightarrow> nat \<Rightarrow> nat \<Rightarrow> nat" where
  "idx W H c x y = (c * H + y) * W + x"

lemma idx_parts:
  assumes "x < W" "y < H"
  shows "idx W H c x y mod W = x" "idx W H c x y div W mod H = y" "idx W H c x y div W div H = c"
  using assms by (simp_all add: idx_def div_mult_self3)

lemma idx_bound: "x < W \<Longrightarrow> y < H \<Longrightarrow> c < 3 \<Longrightarrow> idx W H c x y < 3 * (W * H)"
proof -
  assume a: "x < W" "y < H" "c < 3"
  have "(c + 1) * H \<le> 3 * H" using a by (intro mult_le_mono1) simp
  moreover have "(c + 1) * H = c * H + H" by simp
  ultimately have "c * H + y + 1 \<le> 3 * H" using a by linarith
  then have "(c * H + y + 1) * W \<le> 3 * H * W" by (rule mult_le_mono1)
  then show ?thesis using a by (simp add: idx_def algebra_simps)
qed

lemma idx_of_pos:
  assumes "0 < W" "0 < H"
  shows "i = idx W H (i div W div H) (i mod W) (i div W mod H)"
  by (simp add: idx_def)

lemma chw_idx: "chw (int W) (int H) (int c) (int x) (int y) = int (idx W H c x y)"
  by (simp add: chw_def idx_def)

lemma chw_idx3:
  "chw (int W) (int H) 0 (int x) (int y) = int (idx W H 0 x y)"
  "chw (int W) (int H) 1 (int x) (int y) = int (idx W H 1 x y)"
  "chw (int W) (int H) 2 (int x) (int y) = int (idx W H 2 x y)"
  using chw_idx [of W H 0 x y] chw_idx [of W H 1 x y] chw_idx [of W H 2 x y] by simp_all

lemma store_pixel_eq:
  assumes "x < W" "y < H" "3 * (W * H) \<le> length dst" "3 * (W * H) < 2 ^ 31"
  shows "store_pixel (int W) (int H) (int x) (int y) px dst =
    Ret (dst[idx W H 0 x y := plane 0 px, idx W H 1 x y := plane 1 px, idx W H 2 x y := plane 2 px])"
proof -
  have b: "c < 3 \<Longrightarrow> idx W H c x y < length dst \<and> int (idx W H c x y) < 2 ^ 31" for c
    using idx_bound [OF assms(1,2), of c] assms(3,4) by simp
  have "ci32 (int (idx W H c x y)) = Ret (int (idx W H c x y))" if "c < 3" for c
    using b [OF that] by (intro ci32_Ret) simp_all
  then show ?thesis
    using b [of 0] b [of 1] b [of 2]
    by (cases px) (simp add: store_pixel_def chw_idx3 write_at_def plane_def)
qed

lemma store_pixel_nth:
  assumes "x < W" "y < H" "i < length dst"
  shows "dst[idx W H 0 x y := plane 0 (f (int x) (int y)), idx W H 1 x y := plane 1 (f (int x) (int y)),
      idx W H 2 x y := plane 2 (f (int x) (int y))] ! i =
    (if i < 3 * (W * H) \<and> pos_of W H i = (x, y) then img W H f i else dst ! i)"
proof (cases "i < 3 * (W * H) \<and> pos_of W H i = (x, y)")
  case True
  define c where "c = i div W div H"
  have i: "i = idx W H c x y"
    using True idx_of_pos [of W H i] assms by (simp add: c_def pos_of_def)
  have "c < 3"
    using True assms by (simp add: c_def less_mult_imp_div_less div_mult2_eq [symmetric])
  moreover have im: "img W H f i = plane c (f (int x) (int y))"
    unfolding i img_def idx_parts [OF assms(1,2)] ..
  moreover have ne: "c \<noteq> d \<Longrightarrow> idx W H c x y \<noteq> idx W H d x y" for c d
    using idx_parts(3) [OF assms(1,2)] by metis
  moreover have "c = 0 \<or> c = 1 \<or> c = 2" using \<open>c < 3\<close> by linarith
  moreover have "idx W H c x y < length dst" using assms(3) i by simp
  ultimately have "dst[idx W H 0 x y := plane 0 (f (int x) (int y)), idx W H 1 x y := plane 1 (f (int x) (int y)),
      idx W H 2 x y := plane 2 (f (int x) (int y))] ! idx W H c x y = plane c (f (int x) (int y))"
    by (elim disjE) (simp_all add: ne)
  then show ?thesis using True im i by simp
next
  case False
  have "i \<noteq> idx W H c x y" if "c < 3" for c
    using False that idx_bound [OF assms(1,2) that] idx_parts [OF assms(1,2), of c]
    by (auto simp: pos_of_def)
  from this [of 0] this [of 1] this [of 2] False show ?thesis by auto
qed

lemma run_threads:
  assumes "\<And>x y. x < W \<Longrightarrow> y < H \<Longrightarrow> pixel (int x) (int y) = Ret (f (int x) (int y))"
    and "3 * (W * H) \<le> length dst" "3 * (W * H) < 2 ^ 31"
  shows "\<exists>d. exec_fold (run_thread pixel (int W) (int H)) ts dst = Ret d \<and> length d = length dst \<and>
    (\<forall>i<length dst. d ! i = (if i < 3 * (W * H) \<and> pos_of W H i \<in> set ts then img W H f i else dst ! i))"
  using assms(2)
proof (induction ts arbitrary: dst)
  case (Cons t ts)
  obtain x y where t: "t = (x, y)" by force
  show ?case
  proof (cases "x < W \<and> y < H")
    case True
    define d1 where "d1 = dst[idx W H 0 x y := plane 0 (f (int x) (int y)), idx W H 1 x y := plane 1 (f (int x) (int y)),
      idx W H 2 x y := plane 2 (f (int x) (int y))]"
    have "run_thread pixel (int W) (int H) t dst = Ret d1"
      using True assms(1) store_pixel_eq [of x W y H dst] Cons.prems assms(3)
      by (simp add: run_thread_def t d1_def)
    moreover obtain d where "exec_fold (run_thread pixel (int W) (int H)) ts d1 = Ret d" "length d = length d1"
      "\<forall>i<length d1. d ! i = (if i < 3 * (W * H) \<and> pos_of W H i \<in> set ts then img W H f i else d1 ! i)"
      using Cons.IH [of d1] Cons.prems by (auto simp: d1_def)
    moreover have "d1 ! i = (if i < 3 * (W * H) \<and> pos_of W H i = t then img W H f i else dst ! i)"
      if "i < length dst" for i
      using store_pixel_nth [of x W y H i dst f] True that by (simp add: d1_def t)
    ultimately show ?thesis by (auto simp: d1_def)
  next
    case False
    have "run_thread pixel (int W) (int H) t dst = Ret dst"
      using False by (auto simp: run_thread_def t)
    moreover have "pos_of W H i \<in> set (t # ts) \<longleftrightarrow> pos_of W H i \<in> set ts" if "i < 3 * (W * H)" for i
    proof -
      have "0 < W" using that by (cases "W = 0") simp_all
      have "0 < H" using that by (cases "H = 0") simp_all
      then show ?thesis using False \<open>0 < W\<close> by (auto simp: pos_of_def t)
    qed
    ultimately show ?thesis using Cons.IH [OF Cons.prems] by (auto simp del: list.set)
  qed
qed simp

text \<open>
  A launch that the device accepts stores every pixel of the image, whatever the order of the
  threads, and nothing outside the image; a refused launch returns -1 and stores nothing.
\<close>

lemma launch_spec:
  assumes "\<And>x y. x < W \<Longrightarrow> y < H \<Longrightarrow> pixel (int x) (int y) = Ret (f (int x) (int y))"
    and "3 * (W * H) \<le> length dst" "3 * (W * H) < 2 ^ 31" "int W < 2 ^ 31" "int H < 2 ^ 31" "sched_ok sched"
  shows "launch sched pixel (int W) (int H) dst =
    (if sched (grid_dim (int W)) (grid_dim (int H)) = None then Ret (- 1, dst)
     else Ret (0, map (img W H f) [0..<3 * (W * H)] @ drop (3 * (W * H)) dst))"
proof (cases "sched (grid_dim (int W)) (grid_dim (int H))")
  case (Some ts)
  obtain d where d: "exec_fold (run_thread pixel (int W) (int H)) ts dst = Ret d" "length d = length dst"
    "\<forall>i<length dst. d ! i = (if i < 3 * (W * H) \<and> pos_of W H i \<in> set ts then img W H f i else dst ! i)"
    using run_threads [of W H pixel f dst ts] assms(1-3) by blast
  have ts: "set ts = {0..<16 * grid_dim (int W)} \<times> {0..<16 * grid_dim (int H)}"
    using Some assms(6) by (simp add: sched_ok_def)
  have g: "W \<le> 16 * grid_dim (int W)" "H \<le> 16 * grid_dim (int H)"
    using grid_dim_covers(1) [of "int W"] grid_dim_covers(1) [of "int H"] assms(4,5) by simp_all
  have "pos_of W H i \<in> set ts" if "i < 3 * (W * H)" for i
  proof -
    have "0 < W" using that by (cases "W = 0") simp_all
    have "0 < H" using that by (cases "H = 0") simp_all
    then show ?thesis using g \<open>0 < W\<close> unfolding ts pos_of_def
      by (auto intro: less_le_trans [OF mod_less_divisor])
  qed
  then have "d = map (img W H f) [0..<3 * (W * H)] @ drop (3 * (W * H)) dst"
    using d(2,3) assms(2) by (intro nth_equalityI) (auto simp: nth_append)
  then show ?thesis using d(1) Some by (simp add: launch_def)
qed (simp add: launch_def)

section \<open>Reading the source image\<close>

text \<open>An interleaved image of \<open>c\<close> channels that its buffer holds.\<close>

definition image_in :: "'b list \<Rightarrow> int \<Rightarrow> int \<Rightarrow> int \<Rightarrow> bool" where
  "image_in buf w h c \<longleftrightarrow> 0 < w \<and> 0 < h \<and> 0 < c \<and> w * h * c \<le> int (length buf) \<and> w * h * c < 2 ^ 31"

lemma image_index:
  assumes "image_in buf w h c" "0 \<le> x" "x < w" "0 \<le> y" "y < h" "0 \<le> k" "k < c"
  shows "0 \<le> (y * w + x) * c \<and> (y * w + x) * c + k < int (length buf) \<and> (y * w + x) * c + k < 2 ^ 31"
proof -
  note i = assms(1) [unfolded image_in_def]
  have "0 \<le> (y * w + x) * c" using assms i by simp
  have "(y + 1) * w \<le> h * w" using assms i by (intro mult_right_mono) auto
  then have "y * w + x + 1 \<le> w * h" using assms(3) by (simp add: algebra_simps)
  then have "(y * w + x + 1) * c \<le> w * h * c" using i by (intro mult_right_mono) auto
  then have "(y * w + x) * c + c \<le> w * h * c" by (simp add: algebra_simps)
  then show ?thesis
    using i assms(7) \<open>0 \<le> (y * w + x) * c\<close> by linarith
qed

definition px_at :: "u8 list \<Rightarrow> int \<Rightarrow> int \<Rightarrow> bool \<Rightarrow> norm_params \<Rightarrow> int \<Rightarrow> int \<Rightarrow> pixel" where
  "px_at src w c swap_rb np x y = (let i = (y * w + x) * c in
     normalize np (src ! nat (i + (if swap_rb then 2 else 0))) (src ! nat (i + 1))
       (src ! nat (i + (if swap_rb then 0 else 2))))"

lemma fetch_px_at:
  assumes "image_in src w h c" "3 \<le> c" "0 \<le> x" "x < w" "0 \<le> y" "y < h"
  shows "exec_bind (ci32 ((y * w + x) * c)) (\<lambda>i. fetch_rgb src i swap_rb np) = Ret (px_at src w c swap_rb np x y)"
proof -
  note i = image_index [OF assms(1,3-6)]
  have "ci32 ((y * w + x) * c) = Ret ((y * w + x) * c)"
    using i [of 0] assms(2) by (intro ci32_Ret) simp_all
  then show ?thesis
    using i [of 0] i [of 1] i [of 2] assms(2)
    by (simp add: fetch_rgb_def px_at_def Let_def)
qed

text \<open>The nearest source coordinate of the resize kernel, without the clamp.\<close>

definition nn :: "int \<Rightarrow> int \<Rightarrow> int \<Rightarrow> int" where
  "nn d src resize = min (rtrunc (rnd32 (rnd32 (rnd32 (of_int d) * rnd32 (of_int src)) / rnd32 (of_int resize)))) (src - 1)"

lemma src_coord_Ret:
  assumes "0 \<le> d" "d < resize" "0 < src" "src \<le> 2 ^ 15" "resize \<le> 2 ^ 15"
  shows "\<exists>k. src_coord d src resize = Ret k \<and> 0 \<le> k \<and> min k (src - 1) = nn d src resize"
proof -
  have e: "rnd32 (of_int d) = of_int d" "rnd32 (of_int src) = of_int src" "rnd32 (of_int resize) = of_int resize"
    using assms by (auto intro!: rnd32_of_int)
  have "d * src \<le> 2 ^ 15 * 2 ^ 15" using assms by (intro mult_mono) auto
  then have "(of_int (d * src) :: rat) \<le> of_int (2 ^ 30)" by (simp only: of_int_le_iff) simp
  moreover have "rnd32 (2 ^ 30) = 2 ^ 30" by code_simp
  ultimately have p: "rnd32 (of_int d * of_int src) \<le> 2 ^ 30" "0 \<le> rnd32 (of_int d * of_int src)"
    using assms by (auto intro!: f32.le_repr f32.nonneg)
  have "rnd32 (of_int d * of_int src) / of_int resize \<le> rnd32 (of_int d * of_int src) / 1"
    using p assms by (intro divide_left_mono) auto
  then have q: "0 \<le> rnd32 (rnd32 (of_int d * of_int src) / of_int resize)"
    "rnd32 (rnd32 (of_int d * of_int src) / of_int resize) \<le> 2 ^ 30"
    using p assms \<open>rnd32 (2 ^ 30) = 2 ^ 30\<close> by (auto intro!: f32.le_repr f32.nonneg)
  then have "0 \<le> rtrunc (rnd32 (rnd32 (of_int d * of_int src) / of_int resize))"
    "rtrunc (rnd32 (rnd32 (of_int d * of_int src) / of_int resize)) \<le> rtrunc (of_int (2 ^ 30))"
    by (auto intro!: rtrunc_mono rtrunc_nonneg)
  then show ?thesis
    unfolding rtrunc_of_int by (simp add: src_coord_def to_int_def e nn_def)
qed

section \<open>Letterbox geometry\<close>

lemma scaled_fits:
  assumes "1 \<le> src" "src \<le> 2 ^ 15" "1 \<le> dst" "dst \<le> 2 ^ 15"
    and scale: "0 \<le> scale" "scale \<le> rnd32 (of_int dst / of_int src)"
  shows "0 \<le> rtrunc (rnd32 (of_int src * scale))" "rtrunc (rnd32 (of_int src * scale)) \<le> dst"
proof -
  let ?x = "of_int dst / of_int src :: rat"
  have x: "two_pow (- 15) \<le> ?x"
  proof -
    have "src \<le> dst * 2 ^ 15" using assms(2,3) by simp
    then have "(of_int src :: rat) \<le> of_int (dst * 2 ^ 15)" by (simp only: of_int_le_iff)
    moreover have "two_pow (- 15) = 1 / 2 ^ 15" by (simp add: power_int_minus field_simps)
    ultimately show ?thesis using assms(1) by (simp add: divide_simps)
  qed
  have "rnd32 ?x \<le> ?x + ?x * two_pow (- 24)"
    unfolding rnd32_def by (rule fl_round_upper [OF x]) simp
  then have "of_int src * scale \<le> of_int src * (?x + ?x * two_pow (- 24))"
    using scale assms(1) by (intro mult_left_mono) auto
  also have "\<dots> = of_int dst + of_int dst * two_pow (- 24)"
    using assms(1) by (simp add: field_simps)
  also have "\<dots> \<le> of_int dst + 1 / 2"
  proof -
    have "(of_int dst :: rat) \<le> of_int (2 ^ 15)" using assms(4) by (simp only: of_int_le_iff)
    then have "of_int dst * two_pow (- 24) \<le> 2 ^ 15 * two_pow (- 24)"
      by (intro mult_right_mono) simp_all
    then show ?thesis by (simp add: power_int_minus)
  qed
  finally have le: "of_int src * scale \<le> of_int dst + 1 / 2" .
  have "fl_repr 24 (- 149) (of_int dst + 1 / 2)"
    unfolding fl_repr_def using assms(3,4)
    by (intro exI [of _ "2 * dst + 1"] exI [of _ "- 1"]) (simp add: power_int_minus field_simps)
  then have "rnd32 (of_int dst + 1 / 2) = of_int dst + 1 / 2"
    unfolding rnd32_def by (rule fl_repr_round [rotated]) simp
  from f32.le_repr [OF this le] have "rnd32 (of_int src * scale) < of_int dst + 1" by linarith
  moreover have n: "0 \<le> rnd32 (of_int src * scale)"
    using scale assms(1) by (intro f32.nonneg) simp
  ultimately show "rtrunc (rnd32 (of_int src * scale)) \<le> dst"
    by (simp add: rtrunc_def floor_le_iff)
  show "0 \<le> rtrunc (rnd32 (of_int src * scale))" using n by (rule rtrunc_nonneg)
qed

lemma letterbox_geometry:
  assumes "1 \<le> sw" "sw \<le> 2 ^ 15" "1 \<le> sh" "sh \<le> 2 ^ 15" "1 \<le> dw" "dw \<le> 2 ^ 15" "1 \<le> dh" "dh \<le> 2 ^ 15"
  shows "\<exists>lb. letterbox_of True sw sh dw dh = Ret lb \<and>
    0 \<le> lb_resize_w lb \<and> lb_resize_w lb \<le> dw \<and> lb_pad_x lb = (dw - lb_resize_w lb) div 2 \<and>
    0 \<le> lb_resize_h lb \<and> lb_resize_h lb \<le> dh \<and> lb_pad_y lb = (dh - lb_resize_h lb) div 2"
proof -
  have e: "1 \<le> k \<Longrightarrow> k \<le> 2 ^ 15 \<Longrightarrow> rnd32 (of_int k) = of_int k" for k
    by (rule rnd32_of_int) simp
  let ?s = "min (rnd32 (of_int dw / of_int sw)) (rnd32 (of_int dh / of_int sh))"
  have s: "0 \<le> ?s" using assms by (simp add: f32.nonneg)
  note w = scaled_fits [OF assms(1,2,5,6) s min.cobounded1]
  note h = scaled_fits [OF assms(3,4,7,8) s min.cobounded2]
  have sd: "0 \<le> a \<Longrightarrow> a sdiv 2 = a div 2" for a :: int
    by (simp add: signed_divide_int_def sgn_if)
  have "to_int (rnd32 (of_int sw * ?s)) = Ret (rtrunc (rnd32 (of_int sw * ?s)))"
    "to_int (rnd32 (of_int sh * ?s)) = Ret (rtrunc (rnd32 (of_int sh * ?s)))"
    using w h assms unfolding to_int_def by (simp_all add: ci32_def)
  then show ?thesis
    using w h assms by (simp add: letterbox_of_def Let_def e sd)
qed

section \<open>Properties\<close>

text \<open>
  C34. Letterboxing of images up to 32768 pixels a side never leaves \<open>int\<close>, scales the source into
  the destination despite single-precision rounding, and centres it: the padding is not negative
  and the margins of an axis differ by at most one pixel.
\<close>

theorem letterbox_fits_and_centres:
  assumes "1 \<le> sw" "sw \<le> 2 ^ 15" "1 \<le> sh" "sh \<le> 2 ^ 15" "1 \<le> dw" "dw \<le> 2 ^ 15" "1 \<le> dh" "dh \<le> 2 ^ 15"
  shows "\<exists>lb. letterbox_of True sw sh dw dh = Ret lb \<and>
    0 \<le> lb_pad_x lb \<and> 0 \<le> lb_resize_w lb \<and> lb_pad_x lb + lb_resize_w lb \<le> dw \<and>
    dw - (lb_pad_x lb + lb_resize_w lb) - lb_pad_x lb \<in> {0, 1} \<and>
    0 \<le> lb_pad_y lb \<and> 0 \<le> lb_resize_h lb \<and> lb_pad_y lb + lb_resize_h lb \<le> dh \<and>
    dh - (lb_pad_y lb + lb_resize_h lb) - lb_pad_y lb \<in> {0, 1}"
proof -
  obtain lb where lb: "letterbox_of True sw sh dw dh = Ret lb"
    "0 \<le> lb_resize_w lb" "lb_resize_w lb \<le> dw" "lb_pad_x lb = (dw - lb_resize_w lb) div 2"
    "0 \<le> lb_resize_h lb" "lb_resize_h lb \<le> dh" "lb_pad_y lb = (dh - lb_resize_h lb) div 2"
    using letterbox_geometry [OF assms] by blast
  have c: "0 \<le> r \<Longrightarrow> r \<le> d \<Longrightarrow> 0 \<le> (d - r) div 2 \<and> (d - r) div 2 + r \<le> d \<and>
      d - ((d - r) div 2 + r) - (d - r) div 2 \<in> {0, 1}" for d r :: int
    by (simp, linarith)
  show ?thesis using lb c [OF lb(2,3)] c [OF lb(5,6)] by auto
qed

theorem letterbox_fits_and_centres_witness:
  "letterbox_of True 1920 1080 640 640 =
     Ret \<lparr>lb_pad_x = 0, lb_pad_y = 140, lb_resize_w = 640, lb_resize_h = 360\<rparr> \<and>
   (\<exists>lb. letterbox_of True 1920 1080 640 640 = Ret lb \<and> 0 \<le> lb_pad_y lb \<and> lb_pad_y lb + lb_resize_h lb \<le> 640)"
proof
  show "letterbox_of True 1920 1080 640 640 =
     Ret \<lparr>lb_pad_x = 0, lb_pad_y = 140, lb_resize_w = 640, lb_resize_h = 360\<rparr>" by code_simp
  show "\<exists>lb. letterbox_of True 1920 1080 640 640 = Ret lb \<and> 0 \<le> lb_pad_y lb \<and> lb_pad_y lb + lb_resize_h lb \<le> 640"
    using letterbox_fits_and_centres [of 1920 1080 640 640] by auto
qed

text \<open>The pixel of the resized image: padding, or the normalised nearest source pixel.\<close>

definition resize_value ::
    "u8 list \<Rightarrow> int \<Rightarrow> int \<Rightarrow> int \<Rightarrow> int \<Rightarrow> int \<Rightarrow> norm_params \<Rightarrow> bool \<Rightarrow> bool \<Rightarrow> letterbox_geom \<Rightarrow>
     int \<Rightarrow> int \<Rightarrow> pixel" where
  "resize_value src sw sh c dw dh np swap_rb letterbox lb x y =
     (if letterbox \<and> (x < lb_pad_x lb \<or> lb_pad_x lb + lb_resize_w lb \<le> x \<or>
                      y < lb_pad_y lb \<or> lb_pad_y lb + lb_resize_h lb \<le> y) then (0, 0, 0)
      else if letterbox
      then px_at src sw c swap_rb np (nn (x - lb_pad_x lb) sw (lb_resize_w lb)) (nn (y - lb_pad_y lb) sh (lb_resize_h lb))
      else px_at src sw c swap_rb np (nn x sw dw) (nn y sh dh))"

lemma resize_fetch:
  assumes "image_in src sw sh c" "3 \<le> c" "sw \<le> 2 ^ 15" "sh \<le> 2 ^ 15"
    "0 \<le> dx" "dx < rw" "rw \<le> 2 ^ 15" "0 \<le> dy" "dy < rh" "rh \<le> 2 ^ 15"
  shows "exec_bind (src_coord dx sw rw) (\<lambda>sx0. exec_bind (src_coord dy sh rh) (\<lambda>sy0.
      exec_bind (ci32 ((min sy0 (sh - 1) * sw + min sx0 (sw - 1)) * c)) (\<lambda>i. fetch_rgb src i swap_rb np))) =
    Ret (px_at src sw c swap_rb np (nn dx sw rw) (nn dy sh rh))"
proof -
  have d: "0 < sw" "0 < sh" using assms(1) by (simp_all add: image_in_def)
  obtain a where a: "src_coord dx sw rw = Ret a" "0 \<le> a" "min a (sw - 1) = nn dx sw rw"
    using src_coord_Ret [OF assms(5,6) d(1) assms(3,7)] by blast
  obtain b where b: "src_coord dy sh rh = Ret b" "0 \<le> b" "min b (sh - 1) = nn dy sh rh"
    using src_coord_Ret [OF assms(8,9) d(2) assms(4,10)] by blast
  have "0 \<le> nn dx sw rw" "nn dx sw rw < sw" "0 \<le> nn dy sh rh" "nn dy sh rh < sh"
    using a b d by (auto simp flip: a(3) b(3))
  then show ?thesis using a b by (simp add: fetch_px_at [OF assms(1,2)])
qed

lemma resize_pixel_Ret:
  assumes "image_in src sw sh c" "3 \<le> c" "sw \<le> 2 ^ 15" "sh \<le> 2 ^ 15" "dw \<le> 2 ^ 15" "dh \<le> 2 ^ 15"
    "lb_resize_w lb \<le> dw" "lb_resize_h lb \<le> dh" "0 \<le> x" "x < dw" "0 \<le> y" "y < dh"
  shows "resize_pixel src sw sh c dw dh np swap_rb letterbox lb x y =
    Ret (resize_value src sw sh c dw dh np swap_rb letterbox lb x y)"
proof (cases letterbox)
  case True
  show ?thesis
  proof (cases "x < lb_pad_x lb \<or> lb_pad_x lb + lb_resize_w lb \<le> x \<or>
                y < lb_pad_y lb \<or> lb_pad_y lb + lb_resize_h lb \<le> y")
    case False
    then show ?thesis
      using True resize_fetch [OF assms(1-4), of "x - lb_pad_x lb" "lb_resize_w lb" "y - lb_pad_y lb" "lb_resize_h lb"]
        assms(5-8)
      by (simp add: resize_pixel_def resize_value_def Let_def)
  qed (simp add: resize_pixel_def resize_value_def True)
next
  case False
  then show ?thesis
    using resize_fetch [OF assms(1-4,9,10,5,11,12,6)]
    by (simp add: resize_pixel_def resize_value_def Let_def)
qed

lemma resize_normalize_Ret:
  assumes "image_in src sw sh c" "3 \<le> c" "sw \<le> 2 ^ 15" "sh \<le> 2 ^ 15"
    "1 \<le> W" "int W \<le> 2 ^ 15" "1 \<le> H" "int H \<le> 2 ^ 15"
    "3 * (W * H) \<le> length dst" "3 * (W * H) < 2 ^ 31" "sched_ok sched"
  shows "\<exists>lb. letterbox_of letterbox sw sh (int W) (int H) = Ret lb \<and>
    cuda_preprocess_resize_normalize sched src sw sh c dst (int W) (int H) mean std_dev swap_rb letterbox =
      (if sched (grid_dim (int W)) (grid_dim (int H)) = None then Ret (- 1, dst)
       else Ret (0, map (img W H (resize_value src sw sh c (int W) (int H) (norm_of mean std_dev) swap_rb letterbox lb))
                      [0..<3 * (W * H)] @ drop (3 * (W * H)) dst))"
proof -
  have d: "1 \<le> sw" "1 \<le> sh" using assms(1) by (simp_all add: image_in_def)
  have "\<exists>lb. letterbox_of letterbox sw sh (int W) (int H) = Ret lb \<and> lb_resize_w lb \<le> int W \<and> lb_resize_h lb \<le> int H"
  proof (cases letterbox)
    case True
    then show ?thesis
      using letterbox_geometry [OF d(1) assms(3) d(2) assms(4), of "int W" "int H"] assms(5-8) by auto
  qed (simp add: letterbox_of_def)
  then obtain lb where lb: "letterbox_of letterbox sw sh (int W) (int H) = Ret lb"
    "lb_resize_w lb \<le> int W" "lb_resize_h lb \<le> int H" by blast
  have "int W < 2 ^ 31" "int H < 2 ^ 31" using assms(6,8) by simp_all
  then show ?thesis
    using launch_spec [of W H "resize_pixel src sw sh c (int W) (int H) (norm_of mean std_dev) swap_rb letterbox lb"
        "resize_value src sw sh c (int W) (int H) (norm_of mean std_dev) swap_rb letterbox lb" dst sched]
      resize_pixel_Ret [OF assms(1-4,6,8) lb(2,3)] assms(9-11) lb(1)
    by (simp add: cuda_preprocess_resize_normalize_def)
qed

text \<open>
  C33. The resize launcher on a source image that its buffer holds, up to 32768 pixels a side: no
  access is out of bounds and no index overflows, in any order of the threads; every pixel of the
  destination is zero padding or the normalised source pixel nearest to it; a launch the device
  refuses returns -1 and stores nothing.
\<close>

theorem resize_normalize_spec:
  assumes "image_in src sw sh c" "3 \<le> c" "sw \<le> 2 ^ 15" "sh \<le> 2 ^ 15"
    "1 \<le> W" "int W \<le> 2 ^ 15" "1 \<le> H" "int H \<le> 2 ^ 15"
    "3 * (W * H) \<le> length dst" "3 * (W * H) < 2 ^ 31" "sched_ok sched"
  shows "\<exists>lb. letterbox_of letterbox sw sh (int W) (int H) = Ret lb \<and>
    cuda_preprocess_resize_normalize sched src sw sh c dst (int W) (int H) mean std_dev swap_rb letterbox =
      (if sched (grid_dim (int W)) (grid_dim (int H)) = None then Ret (- 1, dst)
       else Ret (0, map (img W H (resize_value src sw sh c (int W) (int H) (norm_of mean std_dev) swap_rb letterbox lb))
                      [0..<3 * (W * H)] @ drop (3 * (W * H)) dst))"
  by (rule resize_normalize_Ret) (fact assms)+

text \<open>A device that runs the threads row by row.\<close>

definition row_order :: schedule where
  "row_order gx gy = Some (map (\<lambda>k. (k mod (16 * gx), k div (16 * gx))) [0..<16 * gx * (16 * gy)])"

lemma row_order_ok: "sched_ok row_order"
proof -
  have "distinct (map (\<lambda>k. (k mod n, k div n)) [0..<n * m])" for n m :: nat
    by (auto simp: distinct_map inj_on_def) (metis div_mult_mod_eq)
  moreover have "set (map (\<lambda>k. (k mod n, k div n)) [0..<n * m]) = {0..<n} \<times> {0..<m}" for n m :: nat
  proof -
    have "(a, b) \<in> (\<lambda>k. (k mod n, k div n)) ` {0..<n * m}" if "a < n" "b < m" for a b
    proof (rule image_eqI [of _ _ "b * n + a"])
      have "b * n + a < Suc b * n" using that by simp
      also have "\<dots> \<le> m * n" using that by (intro mult_le_mono1) simp
      finally show "b * n + a \<in> {0..<n * m}" by (simp add: mult.commute)
    qed (use that in simp)
    moreover have "k mod n < n \<and> k div n < m" if "k < n * m" for k
      using that by (cases "n = 0") (simp_all add: less_mult_imp_div_less mult.commute)
    ultimately show ?thesis by auto
  qed
  ultimately show ?thesis unfolding sched_ok_def row_order_def option.inject by blast
qed

theorem resize_normalize_spec_witness:
  "\<exists>lb d. letterbox_of True 2 1 2 2 = Ret lb \<and>
    cuda_preprocess_resize_normalize row_order [10, 20, 30, 40, 50, 60] 2 1 3 (replicate 12 7) 2 2 None None True True =
      Ret (0, d) \<and> d = [30, 60, 0, 0, 20, 50, 0, 0, 10, 40, 0, 0]"
proof -
  have "image_in [10, 20, 30, 40, 50, 60 :: u8] 2 1 3" by (simp add: image_in_def)
  from resize_normalize_spec [OF this, of 2 2 "replicate 12 7" row_order True None None True] row_order_ok
  obtain lb where lb: "letterbox_of True 2 1 2 2 = Ret lb"
    and r: "cuda_preprocess_resize_normalize row_order [10, 20, 30, 40, 50, 60] 2 1 3 (replicate 12 7) 2 2 None None True True =
      Ret (0, map (img 2 2 (resize_value [10, 20, 30, 40, 50, 60] 2 1 3 2 2 (norm_of None None) True True lb)) [0..<12] @ [])"
    by (auto simp: row_order_def)
  have "letterbox_of True 2 1 2 2 = Ret \<lparr>lb_pad_x = 0, lb_pad_y = 0, lb_resize_w = 2, lb_resize_h = 1\<rparr>"
    by code_simp
  with lb have l: "lb = \<lparr>lb_pad_x = 0, lb_pad_y = 0, lb_resize_w = 2, lb_resize_h = 1\<rparr>" by simp
  have "map (img 2 2 (resize_value [10, 20, 30, 40, 50, 60] 2 1 3 2 2 (norm_of None None) True True
      \<lparr>lb_pad_x = 0, lb_pad_y = 0, lb_resize_w = 2, lb_resize_h = 1\<rparr>)) [0..<12] =
      [30, 60, 0, 0, 20, 50, 0, 0, 10, 40, 0, 0]"
    by code_simp
  with r lb show ?thesis by (auto simp: l)
qed

text \<open>Blending: the value of a pixel, and the launch.\<close>

definition blend_value :: "u8 list \<Rightarrow> u8 list \<Rightarrow> int \<Rightarrow> rat \<Rightarrow> int \<Rightarrow> int \<Rightarrow> pixel" where
  "blend_value visible uv w uv_weight x y = (let i = (y * w + x) * 3; u = uv ! nat (y * w + x) in
     (blend_channel uv_weight (3/2) (visible ! nat (i + 2)) u,
      blend_channel uv_weight (1/5) (visible ! nat (i + 1)) u,
      blend_channel uv_weight (3/10) (visible ! nat i) u))"

lemma blend_channel_range: "0 \<le> blend_channel uv_weight factor v u \<and> blend_channel uv_weight factor v u \<le> 1"
  by (simp add: blend_channel_def Let_def)

lemma blend_pixel_Ret:
  assumes "image_in visible w h 3" "image_in uv w h 1" "0 \<le> x" "x < w" "0 \<le> y" "y < h"
  shows "blend_pixel visible uv w uv_weight x y = Ret (blend_value visible uv w uv_weight x y)"
proof -
  note i = image_index [OF assms(1,3-6)] and u = image_index [OF assms(2-6), of 0]
  have "ci32 ((y * w + x) * 3) = Ret ((y * w + x) * 3)"
    using i [of 0] by (intro ci32_Ret) simp_all
  then show ?thesis
    using i [of 0] i [of 1] i [of 2] u by (simp add: blend_pixel_def blend_value_def Let_def)
qed

lemma plane_bounds:
  assumes "\<And>x y. case f x y of (r, g, b) \<Rightarrow> (lo \<le> r \<and> r \<le> hi) \<and> (lo \<le> g \<and> g \<le> hi) \<and> (lo \<le> b \<and> b \<le> hi)"
  shows "lo \<le> img W H f i \<and> img W H f i \<le> hi"
  using assms [of "int (i mod W)" "int (i div W mod H)"] by (auto simp: img_def plane_def split: prod.splits)

lemma blend_Ret:
  assumes "image_in visible (int W) (int H) 3" "image_in uv (int W) (int H) 1"
    "3 * (W * H) \<le> length dst" "sched_ok sched" "sched (grid_dim (int W)) (grid_dim (int H)) \<noteq> None"
  shows "\<exists>px. cuda_blend_uv_visible sched visible uv dst (int W) (int H) uv_weight =
      Ret (0, px @ drop (3 * (W * H)) dst) \<and>
    px = map (img W H (blend_value visible uv (int W) uv_weight)) [0..<3 * (W * H)] \<and>
    (\<forall>v \<in> set px. 0 \<le> v \<and> v \<le> 1)"
proof -
  have n: "0 < W" "0 < H" "int W * int H * 3 < 2 ^ 31" using assms(1) by (simp_all add: image_in_def)
  then have m: "3 * (W * H) < 2 ^ 31" by (simp flip: of_nat_mult)
  have "W \<le> W * H" "H \<le> W * H" using n(1,2) by simp_all
  then have "W < 2 ^ 31" "H < 2 ^ 31" using m by linarith+
  then have "int W < 2 ^ 31" "int H < 2 ^ 31" by simp_all
  then have "cuda_blend_uv_visible sched visible uv dst (int W) (int H) uv_weight =
      Ret (0, map (img W H (blend_value visible uv (int W) uv_weight)) [0..<3 * (W * H)] @ drop (3 * (W * H)) dst)"
    unfolding cuda_blend_uv_visible_def
    using launch_spec [of W H "blend_pixel visible uv (int W) uv_weight" "blend_value visible uv (int W) uv_weight" dst sched]
      blend_pixel_Ret [OF assms(1,2)] assms(3-5) m by simp
  moreover have "0 \<le> img W H (blend_value visible uv (int W) uv_weight) i \<and>
      img W H (blend_value visible uv (int W) uv_weight) i \<le> 1" for i
    by (rule plane_bounds) (simp add: blend_value_def Let_def blend_channel_range)
  ultimately show ?thesis by auto
qed

text \<open>
  C35. Blending a visible frame of three channels with an ultraviolet frame of one channel of the
  same size is free of out-of-bounds accesses in any thread order, stores the blend of the pixels
  in planes, and every stored value lies between 0 and 1, whatever the weight.
\<close>

theorem blend_spec:
  assumes "image_in visible (int W) (int H) 3" "image_in uv (int W) (int H) 1"
    "3 * (W * H) \<le> length dst" "sched_ok sched" "sched (grid_dim (int W)) (grid_dim (int H)) \<noteq> None"
  shows "\<exists>px. cuda_blend_uv_visible sched visible uv dst (int W) (int H) uv_weight =
      Ret (0, px @ drop (3 * (W * H)) dst) \<and>
    px = map (img W H (blend_value visible uv (int W) uv_weight)) [0..<3 * (W * H)] \<and>
    (\<forall>v \<in> set px. 0 \<le> v \<and> v \<le> 1)"
  by (rule blend_Ret) (fact assms)+

theorem blend_spec_witness:
  "\<exists>px. cuda_blend_uv_visible row_order [255, 0, 128] [200] [9, 9, 9, 9] 1 1 (3/5) = Ret (0, px @ [9]) \<and>
    length px = 3 \<and> (\<forall>v \<in> set px. 0 \<le> v \<and> v \<le> 1)"
proof -
  have "image_in [255, 0, 128 :: u8] (int 1) (int 1) 3" "image_in [200 :: u8] (int 1) (int 1) 1"
    by (simp_all add: image_in_def)
  from blend_spec [OF this, of "[9, 9, 9, 9]" row_order "3/5"] row_order_ok
  show ?thesis by (auto simp: row_order_def)
qed

lemma roi_crop_Ret:
  assumes "image_in src sw sh 3" "0 \<le> roi_x1" "roi_x1 \<le> 2 ^ 24" "0 \<le> roi_y1" "roi_y1 \<le> 2 ^ 24"
    "int W \<le> 2 ^ 15" "int H \<le> 2 ^ 15" "3 * (W * H) \<le> length dst" "3 * (W * H) < 2 ^ 31" "sched_ok sched"
    "sched (grid_dim (int W)) (grid_dim (int H)) \<noteq> None"
  shows "cuda_preprocess_roi_crop sched src sw sh roi_x1 roi_y1 roi_x2 roi_y2 dst (int W) (int H) mean std_dev swap_rb =
    Ret (0, map (img W H (\<lambda>x y. px_at src sw 3 swap_rb (norm_of mean std_dev)
                  (min (roi_x1 + x) (sw - 1)) (min (roi_y1 + y) (sh - 1)))) [0..<3 * (W * H)] @ drop (3 * (W * H)) dst)"
proof -
  have d: "0 < sw" "0 < sh" using assms(1) by (simp_all add: image_in_def)
  have t: "to_int (rnd32 (rnd32 (of_int k) * 1)) = Ret k" if "0 \<le> k" "k < 2 ^ 15" for k
  proof -
    have "rnd32 (of_int k) = of_int k" using that by (intro rnd32_of_int) simp
    then show ?thesis using that by (simp add: to_int_def)
  qed
  have px: "roi_crop_pixel src sw sh roi_x1 roi_y1 np swap_rb (int x) (int y) =
      Ret (px_at src sw 3 swap_rb np (min (roi_x1 + int x) (sw - 1)) (min (roi_y1 + int y) (sh - 1)))"
    if "x < W" "y < H" for x y np
  proof -
    have xy: "int x < 2 ^ 15" "int y < 2 ^ 15" using that assms(6,7) by linarith+
    have c: "ci32 (roi_x1 + int x) = Ret (roi_x1 + int x)" "ci32 (roi_y1 + int y) = Ret (roi_y1 + int y)"
      using xy assms(2-5) by (intro ci32_Ret; simp)+
    have "max (roi_x1 + int x) 0 = roi_x1 + int x" "max (roi_y1 + int y) 0 = roi_y1 + int y"
      using assms(2,4) by simp_all
    then show ?thesis
      using fetch_px_at [OF assms(1), of "min (roi_x1 + int x) (sw - 1)" "min (roi_y1 + int y) (sh - 1)" swap_rb np] d
        assms(2,4) t [OF _ xy(1)] t [OF _ xy(2)]
      by (simp add: roi_crop_pixel_def c)
  qed
  have "int W < 2 ^ 31" "int H < 2 ^ 31" using assms(6,7) by simp_all
  then show ?thesis
    unfolding cuda_preprocess_roi_crop_def
    using launch_spec [of W H "roi_crop_pixel src sw sh roi_x1 roi_y1 (norm_of mean std_dev) swap_rb"
        "\<lambda>x y. px_at src sw 3 swap_rb (norm_of mean std_dev) (min (roi_x1 + x) (sw - 1)) (min (roi_y1 + y) (sh - 1))" dst sched]
      px assms(8-11) by simp
qed

text \<open>
  C36. The region crop reads at unit scale: the pixel at \<open>(x, y)\<close> is the source pixel at that
  offset from the corner of the region, clamped to the image. The far corner plays no part, so a
  region larger or smaller than the destination is cut or overrun, not scaled.
\<close>

theorem roi_crop_spec:
  assumes "image_in src sw sh 3" "0 \<le> roi_x1" "roi_x1 \<le> 2 ^ 24" "0 \<le> roi_y1" "roi_y1 \<le> 2 ^ 24"
    "int W \<le> 2 ^ 15" "int H \<le> 2 ^ 15" "3 * (W * H) \<le> length dst" "3 * (W * H) < 2 ^ 31" "sched_ok sched"
    "sched (grid_dim (int W)) (grid_dim (int H)) \<noteq> None"
  shows "cuda_preprocess_roi_crop sched src sw sh roi_x1 roi_y1 roi_x2 roi_y2 dst (int W) (int H) mean std_dev swap_rb =
    Ret (0, map (img W H (\<lambda>x y. px_at src sw 3 swap_rb (norm_of mean std_dev)
                  (min (roi_x1 + x) (sw - 1)) (min (roi_y1 + y) (sh - 1)))) [0..<3 * (W * H)] @ drop (3 * (W * H)) dst)"
  by (rule roi_crop_Ret) (fact assms)+

theorem roi_crop_spec_witness:
  "\<exists>d. cuda_preprocess_roi_crop row_order [10, 20, 30, 40, 50, 60] 2 1 1 0 2 1 (replicate 6 7) 2 1 None None False = Ret (0, d) \<and>
     d = [40, 40, 50, 50, 60, 60]"
proof -
  have "image_in [10, 20, 30, 40, 50, 60 :: u8] 2 1 3" by (simp add: image_in_def)
  from roi_crop_spec [OF this, of 1 0 2 1 "replicate 6 7" row_order 2 1 None None False] row_order_ok
  have r: "cuda_preprocess_roi_crop row_order [10, 20, 30, 40, 50, 60] 2 1 1 0 2 1 (replicate 6 7) 2 1 None None False =
    Ret (0, map (img 2 1 (\<lambda>x y. px_at [10, 20, 30, 40, 50, 60] 2 3 False (norm_of None None)
                  (min (1 + x) 1) (min (0 + y) 0))) [0..<6] @ [])"
    by (simp add: row_order_def)
  have "map (img 2 1 (\<lambda>x y. px_at [10, 20, 30, 40, 50, 60] 2 3 False (norm_of None None)
      (min (1 + x) 1) (min (0 + y) 0))) [0..<6] = [40, 40, 50, 50, 60, 60]"
    by code_simp
  then show ?thesis using r by simp
qed

end
