(* ===== verification/Trt_Engine.thy ===== *)
theory Trt_Engine
  imports Resources Nms Geometry Cuda_Preprocess
begin

text \<open>
  The inference engine of \<open>trt_engine.h\<close> and \<open>trt_engine.cpp\<close>: loading and unloading with the
  resources they take and give back, the pool of execution contexts, one inference, and the
  decoding of the network's output.

  TensorRT, CUDA and the file system are arguments; resources are taken and given back as in
  theory \<open>Resources\<close>.
\<close>

section \<open>Configuration, contexts and engine\<close>

record infer_config =
  ic_engine_path :: string
  ic_max_batch_size :: int
  ic_input_h :: int
  ic_input_w :: int
  ic_score_threshold :: rat
  ic_nms_threshold :: rat
  ic_fp16 :: bool
  ic_device_id :: int
  ic_context_pool_size :: int

definition infer_config_default :: infer_config where
  "infer_config_default = \<lparr>ic_engine_path = '''', ic_max_batch_size = 1, ic_input_h = 640, ic_input_w = 640,
     ic_score_threshold = 1/2, ic_nms_threshold = rnd32 (45/100), ic_fp16 = True, ic_device_id = 0,
     ic_context_pool_size = 4\<rparr>"

record exec_context =
  ec_slot :: int
  ec_trt :: "nat option"
  ec_input_device :: "nat option"
  ec_input_host :: "nat option"
  ec_output_devices :: "nat list"
  ec_output_hosts :: "nat list"
  ec_stream :: "nat option"

definition ec_new :: "int \<Rightarrow> exec_context" where
  "ec_new slot = \<lparr>ec_slot = slot, ec_trt = None, ec_input_device = None, ec_input_host = None,
     ec_output_devices = [], ec_output_hosts = [], ec_stream = None\<rparr>"

text \<open>A binding of the network: whether it is an input, and its dimensions.\<close>

type_synonym binding = "bool \<times> int list"

text \<open>
  The pool refers to contexts by pointer; a pooled context is identified by its TensorRT context,
  which is never null and never shared.
\<close>

record trt_engine =
  te_config :: infer_config
  te_runtime :: "nat option"
  te_engine :: "(nat \<times> binding list) option"
  te_contexts :: "exec_context list"
  te_free :: "nat list"
  te_input_index :: int
  te_output_indices :: "int list"
  te_input_size :: u64
  te_output_sizes :: "u64 list"

definition te_new :: trt_engine where
  "te_new = \<lparr>te_config = infer_config_default, te_runtime = None, te_engine = None, te_contexts = [],
     te_free = [], te_input_index = - 1, te_output_indices = [], te_input_size = 0, te_output_sizes = []\<rparr>"

definition is_loaded :: "trt_engine \<Rightarrow> bool" where
  "is_loaded te \<longleftrightarrow> te_engine te \<noteq> None"

section \<open>Buffers of a context\<close>

text \<open>The loop over the outputs of \<open>allocate\<close>: a device and a host buffer for each.\<close>

fun allocate_outputs :: "nat \<Rightarrow> exec_context \<Rightarrow> gpu_env \<Rightarrow> bool \<times> exec_context \<times> gpu_env" where
  "allocate_outputs 0 ctx env = (True, ctx, env)"
| "allocate_outputs (Suc n) ctx env =
     (case obtain_res env of
        (None, e1) \<Rightarrow> (False, ctx, e1)
      | (Some dev, e1) \<Rightarrow>
          let ctx1 = ctx\<lparr>ec_output_devices := ec_output_devices ctx @ [dev]\<rparr>
          in (case obtain_res e1 of
                (None, e2) \<Rightarrow> (False, ctx1, e2)
              | (Some host, e2) \<Rightarrow>
                  allocate_outputs n (ctx1\<lparr>ec_output_hosts := ec_output_hosts ctx1 @ [host]\<rparr>) e2))"

definition allocate_input :: "int \<Rightarrow> exec_context \<Rightarrow> gpu_env \<Rightarrow> bool \<times> exec_context \<times> gpu_env" where
  "allocate_input input_index ctx env =
     (if input_index < 0 then (True, ctx, env)
      else case obtain_res env of
             (None, e1) \<Rightarrow> (False, ctx, e1)
           | (Some dev, e1) \<Rightarrow>
               (case obtain_res e1 of
                  (None, e2) \<Rightarrow> (False, ctx\<lparr>ec_input_device := Some dev\<rparr>, e2)
                | (Some host, e2) \<Rightarrow>
                    (True, ctx\<lparr>ec_input_device := Some dev, ec_input_host := Some host\<rparr>, e2)))"

definition ec_allocate :: "int \<Rightarrow> int list \<Rightarrow> exec_context \<Rightarrow> gpu_env \<Rightarrow> bool \<times> exec_context \<times> gpu_env" where
  "ec_allocate input_index out_indices ctx env =
     (case allocate_input input_index ctx env of (ok, ctx1, e1) \<Rightarrow>
        if \<not> ok then (False, ctx1, e1)
        else case allocate_outputs (length out_indices) ctx1 e1 of (ok, ctx2, e2) \<Rightarrow>
               if \<not> ok then (False, ctx2, e2)
               else case obtain_res e2 of
                      (None, e3) \<Rightarrow> (False, ctx2, e3)
                    | (Some s, e3) \<Rightarrow> (True, ctx2\<lparr>ec_stream := Some s\<rparr>, e3))"

definition ec_free :: "exec_context \<Rightarrow> gpu_env \<Rightarrow> exec_context \<times> gpu_env" where
  "ec_free ctx env =
     (let e1 = give_back_opt (ec_input_device ctx) env;
          e2 = give_back_opt (ec_input_host ctx) e1;
          e3 = fold give_back (ec_output_devices ctx) e2;
          e4 = fold give_back (ec_output_hosts ctx) e3;
          e5 = give_back_opt (ec_stream ctx) e4;
          e6 = give_back_opt (ec_trt ctx) e5
      in (ec_new (ec_slot ctx), e6))"

section \<open>Load and unload\<close>

fun pool_loop :: "int list \<Rightarrow> trt_engine \<Rightarrow> gpu_env \<Rightarrow> bool \<times> trt_engine \<times> gpu_env" where
  "pool_loop [] te env = (True, te, env)"
| "pool_loop (i # is) te env =
     (case obtain_res env of
        (None, e1) \<Rightarrow> (False, te, e1)
      | (Some trt, e1) \<Rightarrow>
          (case ec_allocate (te_input_index te) (te_output_indices te) ((ec_new i)\<lparr>ec_trt := Some trt\<rparr>) e1 of
             (ok, ctx, e2) \<Rightarrow>
               if \<not> ok then (False, te, snd (ec_free ctx e2))
               else pool_loop is (te\<lparr>te_free := te_free te @ [trt], te_contexts := te_contexts te @ [ctx]\<rparr>) e2))"

definition create_context_pool :: "trt_engine \<Rightarrow> gpu_env \<Rightarrow> bool \<times> trt_engine \<times> gpu_env" where
  "create_context_pool te env =
     (let pool_sz = if ic_context_pool_size (te_config te) \<le> 0 then 1 else ic_context_pool_size (te_config te)
      in pool_loop [0..pool_sz - 1] te env)"

definition binding_volume :: "int list \<Rightarrow> u64" where
  "binding_volume dims = fold (\<lambda>d vol. vol * (if 0 < d then word_of_int d else 1)) dims 1"

text \<open>The loop over the bindings of the deserialised engine.\<close>

fun scan_bindings :: "int \<Rightarrow> binding list \<Rightarrow> trt_engine \<Rightarrow> trt_engine" where
  "scan_bindings i [] te = te"
| "scan_bindings i ((input, dims) # bs) te =
     scan_bindings (i + 1) bs
       (if input then te\<lparr>te_input_index := i, te_input_size := binding_volume dims * 4\<rparr>
        else te\<lparr>te_output_indices := te_output_indices te @ [i],
                te_output_sizes := te_output_sizes te @ [binding_volume dims * 4]\<rparr>)"

definition te_load ::
    "(string \<Rightarrow> u8 list option) \<Rightarrow> (u8 list \<Rightarrow> binding list option) \<Rightarrow> infer_config \<Rightarrow>
     trt_engine \<Rightarrow> gpu_env \<Rightarrow> bool \<times> trt_engine \<times> gpu_env" where
  "te_load read_file deserialize config te env =
     (let te1 = te\<lparr>te_config := config\<rparr> in
      case read_file (ic_engine_path config) of
        None \<Rightarrow> (False, te1, env)
      | Some engine_data \<Rightarrow>
          (case obtain_res env of
             (None, e1) \<Rightarrow> (False, te1\<lparr>te_runtime := None\<rparr>, e1)
           | (Some rt, e1) \<Rightarrow>
               let te2 = te1\<lparr>te_runtime := Some rt\<rparr> in
               (case deserialize engine_data of
                  None \<Rightarrow> (False, te2\<lparr>te_engine := None\<rparr>, e1)
                | Some bindings \<Rightarrow>
                    (case obtain_res e1 of
                       (None, e2) \<Rightarrow> (False, te2\<lparr>te_engine := None\<rparr>, e2)
                     | (Some h, e2) \<Rightarrow>
                         create_context_pool (scan_bindings 0 bindings (te2\<lparr>te_engine := Some (h, bindings)\<rparr>)) e2))))"

definition te_unload :: "trt_engine \<Rightarrow> gpu_env \<Rightarrow> trt_engine \<times> gpu_env" where
  "te_unload te env =
     (let e1 = fold (\<lambda>ctx e. snd (ec_free ctx e)) (te_contexts te) env;
          e2 = give_back_opt (map_option fst (te_engine te)) e1;
          e3 = give_back_opt (te_runtime te) e2
      in (te\<lparr>te_free := [], te_contexts := [], te_engine := None, te_runtime := None\<rparr>, e3))"

section \<open>The pool\<close>

text \<open>
  \<open>acquire_context\<close>: \<open>None\<close> when the pool stays empty until the timeout. A thread that waits and
  then finds a context is the same step taken later; \<open>pool_step\<close> below interleaves them.
\<close>

definition acquire_context :: "trt_engine \<Rightarrow> (nat \<times> trt_engine) option" where
  "acquire_context te = (case te_free te of
     [] \<Rightarrow> None | c # cs \<Rightarrow> Some (c, te\<lparr>te_free := cs\<rparr>))"

definition release_context :: "nat option \<Rightarrow> trt_engine \<Rightarrow> trt_engine" where
  "release_context ctx te = (case ctx of None \<Rightarrow> te | Some c \<Rightarrow> te\<lparr>te_free := te_free te @ [c]\<rparr>)"

definition pool_size :: "trt_engine \<Rightarrow> nat" where
  "pool_size te = length (te_contexts te)"

section \<open>Decoding the output of the network\<close>

record detection =
  det_box :: rect
  det_confidence :: rat
  det_class :: int

text \<open>
  One row of six floats, if its confidence reaches the threshold. The sixth value is both the factor
  of the confidence and, truncated, the class.
\<close>

definition decode_row :: "rat \<Rightarrow> rat list \<Rightarrow> int \<Rightarrow> detection option exec" where
  "decode_row score_threshold output i =
     exec_bind (read_at output (i * 6 + 4)) (\<lambda>r4. exec_bind (read_at output (i * 6 + 5)) (\<lambda>r5.
       let conf = rnd32 (r4 * r5) in
       if conf < score_threshold then Ret None
       else exec_bind (read_at output (i * 6)) (\<lambda>r0. exec_bind (read_at output (i * 6 + 1)) (\<lambda>r1.
            exec_bind (read_at output (i * 6 + 2)) (\<lambda>r2. exec_bind (read_at output (i * 6 + 3)) (\<lambda>r3.
            exec_bind (to_int r5) (\<lambda>cls.
              Ret (Some \<lparr>det_box = \<lparr>rx1 = r0, ry1 = r1, rx2 = r2, ry2 = r3\<rparr>, det_confidence = conf,
                         det_class = cls\<rparr>))))))))"

definition decode_rows :: "rat \<Rightarrow> rat list \<Rightarrow> int \<Rightarrow> detection list exec" where
  "decode_rows score_threshold output cnt =
     exec_fold (\<lambda>i dets. exec_bind (decode_row score_threshold output i) (\<lambda>r.
         Ret (case r of None \<Rightarrow> dets | Some d \<Rightarrow> dets @ [d])))
       [0..cnt - 1] []"

definition det_overlap :: "rat \<Rightarrow> detection \<Rightarrow> detection \<Rightarrow> bool" where
  "det_overlap thresh a b = nms_overlap rnd32 thresh (det_box a) (det_box b)"

text \<open>
  \<open>postprocess\<close>: \<open>None\<close> stands for a null output pointer, \<open>srt\<close> for \<open>std::sort\<close> by decreasing
  confidence.
\<close>

definition postprocess ::
    "(detection list \<Rightarrow> detection list) \<Rightarrow> infer_config \<Rightarrow> rat list option \<Rightarrow> int \<Rightarrow> detection list exec" where
  "postprocess srt config output cnt =
     (case output of
        None \<Rightarrow> Ret []
      | Some out \<Rightarrow>
          if cnt \<le> 0 then Ret []
          else exec_bind (decode_rows (ic_score_threshold config) out cnt) (\<lambda>dets.
                 Ret (nms_suppress (det_overlap (ic_nms_threshold config)) (srt dets))))"

section \<open>Inference\<close>

text \<open>
  \<open>infer_with_context\<close>: preprocessing into the input buffer of the context, the network, the copy of
  the first output to the host. For the contents of the input buffer, \<open>net\<close> gives what \<open>enqueueV2\<close> and the copy bring
  to the first host buffer, or \<open>None\<close> when one of them fails; the code does not look at their return
  codes, and then decodes what the host buffer held before. The CUDA stream does not change the result. A pooled context has a host
  buffer for every output, so \<open>output_hosts[0]\<close> does not exist exactly when there is no output.
\<close>

type_synonym network = "rat list \<Rightarrow> rat list option"

definition net_output :: "network \<Rightarrow> rat list \<Rightarrow> rat list \<Rightarrow> rat list" where
  "net_output net host_buffer input = (case net input of Some out \<Rightarrow> out | None \<Rightarrow> host_buffer)"

definition infer_with_context ::
    "schedule \<Rightarrow> network \<Rightarrow> (detection list \<Rightarrow> detection list) \<Rightarrow> trt_engine \<Rightarrow>
     rat list \<Rightarrow> rat list \<Rightarrow> u8 list \<Rightarrow> int \<Rightarrow> int \<Rightarrow> int \<Rightarrow> detection list exec" where
  "infer_with_context sched net srt te input_buffer host_buffer input_data width height channels =
     exec_bind (cuda_preprocess_resize_normalize sched input_data width height channels input_buffer
         (ic_input_w (te_config te)) (ic_input_h (te_config te)) None None True True) (\<lambda>(rc, input1).
     case te_output_sizes te of
       [] \<Rightarrow> UB
     | out_size # _ \<Rightarrow>
         postprocess srt (te_config te) (Some (take (unat (out_size div 4)) (net_output net host_buffer input1)))
           (sint (ucast (out_size div 4) :: i32) sdiv 6))"

text \<open>
  \<open>infer\<close>. \<open>buf\<close> gives the contents of a context's input buffer, which the inference overwrites, and
  \<open>host\<close> those of its first host buffer before the inference.
\<close>

definition infer ::
    "schedule \<Rightarrow> network \<Rightarrow> (detection list \<Rightarrow> detection list) \<Rightarrow> (nat \<Rightarrow> rat list) \<Rightarrow> (nat \<Rightarrow> rat list) \<Rightarrow>
     u8 list \<Rightarrow> int \<Rightarrow> int \<Rightarrow> int \<Rightarrow> trt_engine \<Rightarrow> (detection list \<times> trt_engine) exec" where
  "infer sched net srt buf host input_data width height channels te =
     (if \<not> is_loaded te \<or> te_input_index te < 0 then Ret ([], te)
      else case acquire_context te of
             None \<Rightarrow> Ret ([], te)
           | Some (ctx, te1) \<Rightarrow>
               exec_bind (infer_with_context sched net srt te1 (buf ctx) (host ctx) input_data width height channels)
                 (\<lambda>result. Ret (result, release_context (Some ctx) te1)))"

text \<open>\<open>infer_batch\<close>: the four lists are indexed by the length of the first.\<close>

definition infer_batch ::
    "schedule \<Rightarrow> network \<Rightarrow> (detection list \<Rightarrow> detection list) \<Rightarrow> (nat \<Rightarrow> rat list) \<Rightarrow> (nat \<Rightarrow> rat list) \<Rightarrow>
     u8 list list \<Rightarrow> int list \<Rightarrow> int list \<Rightarrow> int list \<Rightarrow> trt_engine \<Rightarrow>
     (detection list list \<times> trt_engine) exec" where
  "infer_batch sched net srt buf host inputs widths heights channels_list te =
     exec_fold (\<lambda>b (results, te1).
         exec_bind (read_at widths b) (\<lambda>w. exec_bind (read_at heights b) (\<lambda>h.
         exec_bind (read_at channels_list b) (\<lambda>c.
         exec_bind (infer sched net srt buf host (inputs ! nat b) w h c te1) (\<lambda>(result, te2).
           Ret (results @ [result], te2))))))
       [0..int (length inputs) - 1] ([], te)"

section \<open>Resources are accounted for\<close>

definition ec_owned :: "exec_context \<Rightarrow> nat list" where
  "ec_owned ctx = (case ec_trt ctx of Some h \<Rightarrow> [h] | None \<Rightarrow> []) @
     (case ec_input_device ctx of Some h \<Rightarrow> [h] | None \<Rightarrow> []) @
     (case ec_input_host ctx of Some h \<Rightarrow> [h] | None \<Rightarrow> []) @ ec_output_devices ctx @ ec_output_hosts ctx @
     (case ec_stream ctx of Some h \<Rightarrow> [h] | None \<Rightarrow> [])"

definition te_owned :: "trt_engine \<Rightarrow> nat list" where
  "te_owned te = (case te_runtime te of Some h \<Rightarrow> [h] | None \<Rightarrow> []) @
     (case te_engine te of Some (h, _) \<Rightarrow> [h] | None \<Rightarrow> []) @ concat (map ec_owned (te_contexts te))"

lemma ec_free_grown:
  assumes "grown a b (ec_owned ctx @ xs)"
  shows "grown a (snd (ec_free ctx b)) xs"
proof -
  let ?o = "\<lambda>h. case h of Some k \<Rightarrow> [k] | None \<Rightarrow> []"
  have "grown a b (?o (ec_input_device ctx) @ ?o (ec_input_host ctx) @ ec_output_devices ctx @
      ec_output_hosts ctx @ ?o (ec_stream ctx) @ ?o (ec_trt ctx) @ xs)"
    by (rule grown_cong [OF assms]) (simp add: ec_owned_def)
  then show ?thesis
    unfolding ec_free_def Let_def snd_conv
    by (intro grown_give_back_opt grown_give_back_list)
qed

lemma allocate_outputs_grown:
  "allocate_outputs n ctx env = (ok, ctx', env') \<Longrightarrow> grown a env (ec_owned ctx @ xs) \<Longrightarrow>
   grown a env' (ec_owned ctx' @ xs)"
proof (induction n ctx env arbitrary: ok ctx' env' rule: allocate_outputs.induct)
  case (2 n ctx env)
  obtain r1 e1 where o1: "obtain_res env = (r1, e1)" by (cases "obtain_res env")
  note g1 = grown_obtain [OF o1 "2.prems"(2)]
  show ?case
  proof (cases r1)
    case None
    then show ?thesis using "2.prems"(1) g1 by (auto simp: o1)
  next
    case (Some dev)
    obtain r2 e2 where o2: "obtain_res e1 = (r2, e2)" by (cases "obtain_res e1")
    let ?c1 = "ctx\<lparr>ec_output_devices := ec_output_devices ctx @ [dev]\<rparr>"
    have c1: "grown a e1 (ec_owned ?c1 @ xs)"
      by (rule grown_cong [OF g1]) (simp add: Some ec_owned_def)
    note g2 = grown_obtain [OF o2 c1]
    show ?thesis
    proof (cases r2)
      case None
      then show ?thesis using "2.prems"(1) g2 Some by (auto simp: o1 o2)
    next
      case (Some host)
      let ?c2 = "?c1\<lparr>ec_output_hosts := ec_output_hosts ?c1 @ [host]\<rparr>"
      have c2: "grown a e2 (ec_owned ?c2 @ xs)"
        by (rule grown_cong [OF g2]) (simp add: Some ec_owned_def)
      show ?thesis
        using "2.IH" [OF o1 [symmetric] \<open>r1 = Some dev\<close> refl o2 [symmetric] Some _ c2] "2.prems"(1) Some \<open>r1 = Some dev\<close>
        by (simp add: o1 o2)
    qed
  qed
qed simp

lemma allocate_input_grown:
  assumes "allocate_input k ctx env = (ok, ctx', env')" "grown a env (ec_owned ctx @ xs)"
    "ec_input_device ctx = None" "ec_input_host ctx = None"
  shows "grown a env' (ec_owned ctx' @ xs)"
proof (cases "k < 0")
  case False
  obtain r1 e1 where o1: "obtain_res env = (r1, e1)" by (cases "obtain_res env")
  obtain r2 e2 where o2: "obtain_res e1 = (r2, e2)" by (cases "obtain_res e1")
  note g1 = grown_obtain [OF o1 assms(2)]
  note g2 = grown_obtain [OF o2 g1]
  show ?thesis
  proof (cases r1)
    case None
    then show ?thesis using assms(1) False g1 by (simp add: allocate_input_def o1)
  next
    case (Some dev)
    then have "ctx' = (case r2 of None \<Rightarrow> ctx\<lparr>ec_input_device := Some dev\<rparr>
        | Some host \<Rightarrow> ctx\<lparr>ec_input_device := Some dev, ec_input_host := Some host\<rparr>)" "env' = e2"
      using assms(1) False by (auto simp: allocate_input_def o1 o2 split: option.splits)
    then show ?thesis
      using Some assms(3,4) by (intro grown_cong [OF g2 [folded \<open>env' = e2\<close>]]) (simp add: ec_owned_def split: option.splits)
  qed
qed (use assms in \<open>simp add: allocate_input_def\<close>)

lemma allocate_input_keeps:
  "allocate_input k ctx env = (ok, ctx', env') \<Longrightarrow>
   ec_output_devices ctx' = ec_output_devices ctx \<and> ec_stream ctx' = ec_stream ctx \<and> ec_trt ctx' = ec_trt ctx"
  by (auto simp: allocate_input_def split: if_splits option.splits prod.splits)

lemma allocate_outputs_keeps:
  "allocate_outputs n ctx env = (ok, ctx', env') \<Longrightarrow> ec_stream ctx' = ec_stream ctx \<and> ec_trt ctx' = ec_trt ctx"
proof (induction n arbitrary: ctx env)
  case (Suc n)
  then show ?case by (auto simp: Let_def split: prod.splits option.splits dest!: Suc.IH)
qed simp

lemma ec_allocate_grown:
  assumes "ec_allocate k outs ctx env = (ok, ctx', env')" "grown a env (ec_owned ctx @ xs)"
    "ec_input_device ctx = None" "ec_input_host ctx = None" "ec_stream ctx = None"
  shows "grown a env' (ec_owned ctx' @ xs)"
proof -
  obtain ok1 c1 e1 where i: "allocate_input k ctx env = (ok1, c1, e1)" by (metis prod.exhaust)
  note g1 = allocate_input_grown [OF i assms(2-4)]
  obtain ok2 c2 e2 where o: "allocate_outputs (length outs) c1 e1 = (ok2, c2, e2)" by (metis prod.exhaust)
  note g2 = allocate_outputs_grown [OF o g1]
  obtain r e3 where st: "obtain_res e2 = (r, e3)" by (cases "obtain_res e2")
  have s: "ec_stream c2 = None"
    using allocate_input_keeps [OF i] allocate_outputs_keeps [OF o] assms(5) by simp
  consider "\<not> ok1" "ctx' = c1" "env' = e1" | "ctx' = c2" "env' = e2" |
    "r = None" "ctx' = c2" "env' = e3" | h where "r = Some h" "ctx' = c2\<lparr>ec_stream := Some h\<rparr>" "env' = e3"
    using assms(1) by (auto simp: ec_allocate_def i o st split: if_splits option.splits)
  then show ?thesis
  proof cases
    case 4
    then show ?thesis
      using s by (intro grown_cong [OF grown_obtain [OF st g2, folded 4(3)]]) (simp add: ec_owned_def)
  qed (use g1 g2 grown_obtain [OF st g2] in simp_all)
qed

lemma ec_allocate_trt: "ec_allocate k outs ctx env = (ok, ctx', env') \<Longrightarrow> ec_trt ctx' = ec_trt ctx"
proof -
  assume a: "ec_allocate k outs ctx env = (ok, ctx', env')"
  obtain ok1 c1 e1 where i: "allocate_input k ctx env = (ok1, c1, e1)" by (metis prod.exhaust)
  obtain ok2 c2 e2 where o: "allocate_outputs (length outs) c1 e1 = (ok2, c2, e2)" by (metis prod.exhaust)
  show ?thesis
    using a allocate_input_keeps [OF i] allocate_outputs_keeps [OF o]
    by (auto simp: ec_allocate_def i o split: if_splits option.splits prod.splits)
qed

lemma pool_loop_grown:
  "pool_loop is te env = (ok, te', env') \<Longrightarrow> grown a env (te_owned te @ xs) \<Longrightarrow> grown a env' (te_owned te' @ xs)"
proof (induction "is" te env arbitrary: ok te' env' rule: pool_loop.induct)
  case (2 i "is" te env)
  obtain r1 e1 where o1: "obtain_res env = (r1, e1)" by (cases "obtain_res env")
  note g1 = grown_obtain [OF o1 "2.prems"(2)]
  show ?case
  proof (cases r1)
    case None
    then show ?thesis using "2.prems"(1) g1 by (simp add: o1)
  next
    case (Some trt)
    let ?c = "(ec_new i)\<lparr>ec_trt := Some trt\<rparr>"
    obtain ok2 ctx e2 where al: "ec_allocate (te_input_index te) (te_output_indices te) ?c e1 = (ok2, ctx, e2)"
      by (metis prod.exhaust)
    have "grown a e1 (ec_owned ?c @ te_owned te @ xs)"
      using g1 Some by (simp add: ec_owned_def ec_new_def)
    then have g2: "grown a e2 (ec_owned ctx @ te_owned te @ xs)"
      by (rule ec_allocate_grown [OF al]) (simp_all add: ec_new_def)
    show ?thesis
    proof (cases ok2)
      case False
      then show ?thesis using "2.prems"(1) Some ec_free_grown [OF g2] by (simp add: o1 al)
    next
      case True
      let ?te = "te\<lparr>te_free := te_free te @ [trt], te_contexts := te_contexts te @ [ctx]\<rparr>"
      have "grown a e2 (te_owned ?te @ xs)"
        by (rule grown_cong [OF g2]) (simp add: te_owned_def)
      then show ?thesis
        using "2.IH" [OF o1 [symmetric] Some al [symmetric] refl] "2.prems"(1) Some True by (simp add: o1 al)
    qed
  qed
qed simp

lemma scan_bindings_keeps:
  "te_runtime (scan_bindings i bs te) = te_runtime te \<and> te_engine (scan_bindings i bs te) = te_engine te \<and>
   te_contexts (scan_bindings i bs te) = te_contexts te \<and> te_config (scan_bindings i bs te) = te_config te \<and>
   te_free (scan_bindings i bs te) = te_free te"
  by (induction i bs te rule: scan_bindings.induct) simp_all

lemma te_owned_scan [simp]: "te_owned (scan_bindings i bs te) = te_owned te"
  by (simp add: te_owned_def scan_bindings_keeps)

lemma te_load_grown:
  assumes "te_load read_file deserialize cfg te env = (ok, te', env')"
    "te_runtime te = None" "te_engine te = None" "grown a env (te_owned te @ xs)"
  shows "grown a env' (te_owned te' @ xs)"
proof (cases "read_file (ic_engine_path cfg)")
  case None
  then show ?thesis using assms by (auto simp: te_load_def te_owned_def)
next
  case (Some data)
  obtain r1 e1 where o1: "obtain_res env = (r1, e1)" by (cases "obtain_res env")
  note g1 = grown_obtain [OF o1 assms(4)]
  obtain r2 e2 where o2: "obtain_res e1 = (r2, e2)" by (cases "obtain_res e1")
  note g2 = grown_obtain [OF o2 g1]
  show ?thesis
  proof (cases r1)
    case None
    then show ?thesis using assms(1-3) Some g1 by (auto simp: te_load_def o1 te_owned_def)
  next
    case (Some rt)
    note r1 = this
    show ?thesis
    proof (cases "deserialize data")
      case None
      then show ?thesis
        using assms(1-3) \<open>read_file _ = Some data\<close> r1 g1 by (auto simp: te_load_def o1 te_owned_def)
    next
      case (Some bs)
      note de = this
      show ?thesis
      proof (cases r2)
        case None
        then show ?thesis
          using assms(1-3) \<open>read_file _ = Some data\<close> r1 de g2 by (auto simp: te_load_def o1 o2 te_owned_def)
      next
        case (Some h)
        let ?te = "te\<lparr>te_config := cfg, te_runtime := Some rt, te_engine := Some (h, bs)\<rparr>"
        have "create_context_pool (scan_bindings 0 bs ?te) e2 = (ok, te', env')"
          using assms(1) \<open>read_file _ = Some data\<close> r1 de Some by (simp add: te_load_def o1 o2)
        moreover have "grown a e2 (te_owned (scan_bindings 0 bs ?te) @ xs)"
          using assms(2,3) r1 Some by (intro grown_cong [OF g2]) (simp add: te_owned_def scan_bindings_keeps)
        ultimately show ?thesis unfolding create_context_pool_def Let_def by (rule pool_loop_grown)
      qed
    qed
  qed
qed

lemma te_unload_grown:
  assumes "grown a env (te_owned te @ xs)"
  shows "grown a (snd (te_unload te env)) xs" "te_owned (fst (te_unload te env)) = []"
proof -
  have ctxs: "grown a e (concat (map ec_owned cs) @ ys) \<Longrightarrow> grown a (fold (\<lambda>ctx e. snd (ec_free ctx e)) cs e) ys"
    for cs e ys
  proof (induction cs arbitrary: e)
    case (Cons c cs)
    then show ?case using ec_free_grown [of a e c "concat (map ec_owned cs) @ ys"] by simp
  qed simp
  let ?o = "\<lambda>h. case h of Some k \<Rightarrow> [k] | None \<Rightarrow> []"
  have "grown a env (concat (map ec_owned (te_contexts te)) @ ?o (map_option fst (te_engine te)) @ ?o (te_runtime te) @ xs)"
    by (rule grown_cong [OF assms]) (auto simp: te_owned_def split: option.splits)
  then show "grown a (snd (te_unload te env)) xs"
    unfolding te_unload_def Let_def snd_conv by (intro grown_give_back_opt ctxs)
  show "te_owned (fst (te_unload te env)) = []" by (simp add: te_unload_def te_owned_def Let_def)
qed

section \<open>Decoding, step by step\<close>

text \<open>A well-formed output: the rows are there and every class value fits \<open>int\<close>.\<close>

definition output_ok :: "rat list \<Rightarrow> nat \<Rightarrow> bool" where
  "output_ok output n \<longleftrightarrow> 6 * n \<le> length output \<and>
     (\<forall>i<n. - (2 ^ 31) \<le> rtrunc (output ! (i * 6 + 5)) \<and> rtrunc (output ! (i * 6 + 5)) < 2 ^ 31)"

definition row_det :: "rat list \<Rightarrow> nat \<Rightarrow> detection" where
  "row_det output i = \<lparr>det_box = \<lparr>rx1 = output ! (i * 6), ry1 = output ! (i * 6 + 1), rx2 = output ! (i * 6 + 2),
     ry2 = output ! (i * 6 + 3)\<rparr>, det_confidence = rnd32 (output ! (i * 6 + 4) * output ! (i * 6 + 5)),
     det_class = rtrunc (output ! (i * 6 + 5))\<rparr>"

definition candidates :: "rat \<Rightarrow> rat list \<Rightarrow> nat \<Rightarrow> detection list" where
  "candidates thr output n = filter (\<lambda>d. thr \<le> det_confidence d) (map (row_det output) [0..<n])"

lemma decode_row_Ret:
  assumes "output_ok output n" "i < n"
  shows "decode_row thr output (int i) =
    Ret (if thr \<le> det_confidence (row_det output i) then Some (row_det output i) else None)"
proof -
  have l: "i * 6 + 5 < length output" using assms by (simp add: output_ok_def)
  have r: "read_at output (int i * 6 + int k) = Ret (output ! (i * 6 + k))" if "k \<le> 5" for k
    using l that by (simp add: read_at_def nat_add_distrib nat_mult_distrib)
  have t: "to_int (output ! (i * 6 + 5)) = Ret (rtrunc (output ! (i * 6 + 5)))"
    using assms by (simp add: output_ok_def to_int_def)
  show ?thesis
    using r [of 0] r [of 1] r [of 2] r [of 3] r [of 4] r [of 5] t
    by (simp add: decode_row_def row_det_def Let_def not_less)
qed

lemma decode_rows_Ret:
  assumes "output_ok output n" "k \<le> n"
  shows "decode_rows thr output (int k) = Ret (candidates thr output k)"
  using assms(2)
proof (induction k)
  case (Suc k)
  have l: "[0..int (Suc k) - 1] = [0..int k - 1] @ [int k]"
    using upto_rec2 [of 0 "int k"] by simp
  have "decode_row thr output (int k) =
    Ret (if thr \<le> det_confidence (row_det output k) then Some (row_det output k) else None)"
    using Suc.prems by (intro decode_row_Ret [OF assms(1)]) simp
  then show ?case
    using Suc.IH Suc.prems unfolding decode_rows_def l exec_fold_append
    by (simp add: candidates_def)
qed (simp add: decode_rows_def candidates_def)

lemma postprocess_Ret:
  assumes "output_ok output n"
  shows "postprocess srt config (Some output) (int n) =
    Ret (if n = 0 then [] else nms_spec (det_overlap (ic_nms_threshold config)) (srt (candidates (ic_score_threshold config) output n)))"
  using decode_rows_Ret [OF assms order_refl, of "ic_score_threshold config"]
  by (simp add: postprocess_def nms_suppress_spec)

section \<open>Properties\<close>

text \<open>
  C11. Decoding a well-formed output is free of undefined behaviour and returns a selection of the
  rows that reach the score threshold: ordered by decreasing confidence, no two of them
  overlapping by more than the suppression threshold, and every qualifying row is selected or
  overlaps a selected one of at least its confidence. This holds for any sorting routine that
  meets the contract of \<open>std::sort\<close>.
\<close>

theorem postprocess_selects:
  assumes "output_ok output n" "std_sort srt det_confidence"
  shows "\<exists>dets. postprocess srt config (Some output) (int n) = Ret dets \<and>
    set dets \<subseteq> set (candidates (ic_score_threshold config) output n) \<and>
    sorted_wrt (\<lambda>a b. det_confidence b \<le> det_confidence a) dets \<and>
    sorted_wrt (\<lambda>a b. \<not> det_overlap (ic_nms_threshold config) a b) dets \<and>
    (\<forall>d \<in> set (candidates (ic_score_threshold config) output n). d \<in> set dets \<or>
       (\<exists>k \<in> set dets. det_overlap (ic_nms_threshold config) k d \<and> det_confidence d \<le> det_confidence k))"
proof (cases "n = 0")
  case True
  then show ?thesis using postprocess_Ret [OF assms(1), of srt config] by (simp add: candidates_def)
next
  case False
  note sel = std_sort.nms_selects [OF assms(2), where xs = "candidates (ic_score_threshold config) output n"
      and ov = "det_overlap (ic_nms_threshold config)"]
  show ?thesis
    using postprocess_Ret [OF assms(1), of srt config] False sel by auto
qed

theorem postprocess_selects_witness:
  "\<exists>dets. postprocess (desc_sort det_confidence) infer_config_default
       (Some [0, 0, 10, 10, 3/4, 1, 1, 0, 11, 10, 1, 1, 50, 50, 60, 60, 1/4, 1]) (int 3) = Ret dets \<and>
     map det_confidence dets = [1]"
proof -
  let ?o = "[0, 0, 10, 10, 3/4, 1, 1, 0, 11, 10, 1, 1, 50, 50, 60, 60, 1/4, 1] :: rat list"
  have ok: "output_ok ?o 3"
  proof -
    have "length ?o = 18" "map (\<lambda>i. rtrunc (?o ! (i * 6 + 5))) [0..<3] = [1, 1, 1]" by code_simp+
    then show ?thesis by (auto simp: output_ok_def less_Suc_eq numeral_3_eq_3)
  qed
  have "postprocess (desc_sort det_confidence) infer_config_default (Some ?o) 3 =
      Ret [\<lparr>det_box = \<lparr>rx1 = 1, ry1 = 0, rx2 = 11, ry2 = 10\<rparr>, det_confidence = 1, det_class = 1\<rparr>]"
    by code_simp
  then show ?thesis
    using postprocess_selects [OF ok ds.std_sort_axioms, of infer_config_default] by auto
qed

text \<open>
  C10. Loading and unloading gives back every resource it took and nothing else, whichever of the
  calls to TensorRT, CUDA and \<open>malloc\<close> fail on the way and whatever the engine file holds.
\<close>

theorem load_unload_no_leak:
  assumes "te_load read_file deserialize cfg te_new env = (ok, te, env')" "env_ok env"
  shows "mset (ge_live (snd (te_unload te env'))) = mset (ge_live env) \<and> te_owned (fst (te_unload te env')) = []"
proof -
  have "grown env env' (te_owned te @ [])"
    by (rule te_load_grown [OF assms(1)]) (use assms(2) in \<open>simp_all add: te_new_def te_owned_def\<close>)
  from te_unload_grown [OF this] show ?thesis by (simp add: grown_def)
qed

text \<open>The sample environment: a file, a network of one input and one output.\<close>

definition demo_file :: "string \<Rightarrow> u8 list option" where
  "demo_file path = (if path = [] then Some [1, 2, 3] else None)"

definition demo_network :: "u8 list \<Rightarrow> binding list option" where
  "demo_network data = Some [(True, [1, 3, 640, 640]), (False, [1, 3, 6])]"

text \<open>Here the seventh resource call, the host buffer of the output of the first context, fails.\<close>

theorem load_unload_no_leak_witness:
  "\<exists>te env'. te_load demo_file demo_network infer_config_default te_new
      \<lparr>ge_next = 5, ge_live = [2, 4], ge_outcomes = [True, True, True, True, True, True, False]\<rparr> = (False, te, env') \<and>
     is_loaded te \<and> mset (ge_live (snd (te_unload te env'))) = {#2, 4#}"
proof -
  let ?env = "\<lparr>ge_next = 5, ge_live = [2, 4], ge_outcomes = [True, True, True, True, True, True, False]\<rparr>"
  obtain ok te env' where l: "te_load demo_file demo_network infer_config_default te_new ?env = (ok, te, env')"
    by (metis prod.exhaust)
  have "env_ok ?env" by (simp add: env_ok_def)
  note r = load_unload_no_leak [OF l this]
  have "(case te_load demo_file demo_network infer_config_default te_new ?env of (ok, te, env') \<Rightarrow> \<not> ok \<and> is_loaded te)"
    by code_simp
  then show ?thesis using r l by auto
qed

section \<open>The pool under concurrency\<close>

text \<open>
  Threads acquire and release contexts in any order, each step under the pool's mutex; \<open>held\<close> lists
  which thread uses which context. A wait is a sequence of failed attempts.
\<close>

inductive pool_step :: "trt_engine \<times> (nat \<times> nat) list \<Rightarrow> trt_engine \<times> (nat \<times> nat) list \<Rightarrow> bool" where
  acquire: "acquire_context te = Some (c, te') \<Longrightarrow> pool_step (te, held) (te', (thread, c) # held)"
| exhausted: "acquire_context te = None \<Longrightarrow> pool_step (te, held) (te, held)"
| release: "(thread, c) \<in> set held \<Longrightarrow>
    pool_step (te, held) (release_context (Some c) te, remove1 (thread, c) held)"

definition pooled :: "trt_engine \<Rightarrow> nat list" where
  "pooled te = map (\<lambda>ctx. case ec_trt ctx of Some h \<Rightarrow> h | None \<Rightarrow> 0) (te_contexts te)"

definition pool_inv :: "trt_engine \<times> (nat \<times> nat) list \<Rightarrow> bool" where
  "pool_inv s = (case s of (te, held) \<Rightarrow>
     distinct (pooled te) \<and> mset (te_free te) + mset (map snd held) = mset (pooled te))"

lemma acquire_pooled: "acquire_context te = Some (c, te') \<Longrightarrow> te_free te = c # te_free te' \<and> pooled te' = pooled te"
  by (auto simp: acquire_context_def pooled_def split: list.splits)

lemma release_pooled: "te_free (release_context (Some c) te) = te_free te @ [c] \<and> pooled (release_context (Some c) te) = pooled te"
  by (simp add: release_context_def pooled_def)

lemma pool_step_inv: "pool_step s s' \<Longrightarrow> pool_inv s \<Longrightarrow> pool_inv s'"
proof (induction rule: pool_step.induct)
  case (acquire te c te' held thread)
  then show ?case using acquire_pooled [OF acquire.hyps] by (simp add: pool_inv_def)
next
  case (release thread c held te)
  have "mset (map snd held) = mset (map snd (remove1 (thread, c) held)) + {#c#}"
    using release.hyps by (induction held) auto
  then show ?case using release release_pooled [of c te] by (simp add: pool_inv_def)
qed

lemma pool_steps_inv: "pool_step\<^sup>*\<^sup>* s s' \<Longrightarrow> pool_inv s \<Longrightarrow> pool_inv s'"
  by (induction rule: rtranclp_induct) (auto intro: pool_step_inv)

text \<open>A successful load fills the pool with distinct contexts, all of them free.\<close>

definition pool_full :: "trt_engine \<Rightarrow> bool" where
  "pool_full te \<longleftrightarrow> te_free te = pooled te \<and> (\<forall>ctx \<in> set (te_contexts te). ec_trt ctx \<noteq> None)"

lemma pool_loop_full:
  "pool_loop is te env = (ok, te', env') \<Longrightarrow> pool_full te \<Longrightarrow>
   pool_full te' \<and> (ok \<longrightarrow> length (te_contexts te') = length (te_contexts te) + length is)"
proof (induction "is" te env arbitrary: ok te' env' rule: pool_loop.induct)
  case (2 i "is" te env)
  obtain r1 e1 where o1: "obtain_res env = (r1, e1)" by (cases "obtain_res env")
  show ?case
  proof (cases r1)
    case None
    then show ?thesis using "2.prems" by (simp add: o1)
  next
    case (Some trt)
    let ?c = "(ec_new i)\<lparr>ec_trt := Some trt\<rparr>"
    obtain ok2 ctx e2 where al: "ec_allocate (te_input_index te) (te_output_indices te) ?c e1 = (ok2, ctx, e2)"
      by (metis prod.exhaust)
    have t: "ec_trt ctx = Some trt" using ec_allocate_trt [OF al] by simp
    show ?thesis
    proof (cases ok2)
      case False
      then show ?thesis using "2.prems" Some by (simp add: o1 al)
    next
      case True
      let ?te = "te\<lparr>te_free := te_free te @ [trt], te_contexts := te_contexts te @ [ctx]\<rparr>"
      have "pool_full ?te" using "2.prems"(2) t by (auto simp: pool_full_def pooled_def)
      then show ?thesis
        using "2.IH" [OF o1 [symmetric] Some al [symmetric] refl] "2.prems"(1) Some True by (auto simp: o1 al)
    qed
  qed
qed simp

lemma pooled_owned:
  assumes "distinct (te_owned te)" "pool_full te"
  shows "distinct (pooled te)"
proof -
  let ?h = "\<lambda>ctx. case ec_trt ctx of Some h \<Rightarrow> h | None \<Rightarrow> 0"
  have "distinct (concat (map ec_owned cs)) \<Longrightarrow> (\<forall>ctx \<in> set cs. ec_trt ctx \<noteq> None) \<Longrightarrow>
      distinct (map ?h cs) \<and> set (map ?h cs) \<subseteq> set (concat (map ec_owned cs))" for cs
  proof (induction cs)
    case (Cons c cs)
    then have IH: "distinct (map ?h cs)" "set (map ?h cs) \<subseteq> set (concat (map ec_owned cs))" by simp_all
    obtain h where h: "ec_trt c = Some h" using Cons.prems(2) by auto
    then have o: "h \<in> set (ec_owned c)" by (simp add: ec_owned_def)
    moreover have "set (ec_owned c) \<inter> set (concat (map ec_owned cs)) = {}"
      using Cons.prems(1) by (simp only: list.map concat.simps distinct_append)
    ultimately have "h \<notin> set (map ?h cs)" using IH(2) by blast
    then show ?case using IH o h by (auto simp del: set_concat)
  qed simp
  then show ?thesis using assms by (auto simp: te_owned_def pool_full_def pooled_def)
qed

lemma te_load_full:
  assumes "te_load read_file deserialize cfg te_new env = (True, te, env')"
  shows "pool_full te \<and> is_loaded te \<and>
    int (length (te_contexts te)) = (if ic_context_pool_size cfg \<le> 0 then 1 else ic_context_pool_size cfg)"
proof -
  obtain data bs rt h e2 where
    l: "create_context_pool (scan_bindings 0 bs (te_new\<lparr>te_config := cfg, te_runtime := Some rt, te_engine := Some (h, bs)\<rparr>)) e2
      = (True, te, env')"
    using assms by (auto simp: te_load_def Let_def split: option.splits prod.splits)
  have keep: "te_engine te' = te_engine te1" if "pool_loop is te1 e = (ok, te', e')" for "is" te1 e ok te' e'
    using that by (induction "is" te1 e rule: pool_loop.induct) (auto split: option.splits prod.splits if_splits)
  let ?te = "scan_bindings 0 bs (te_new\<lparr>te_config := cfg, te_runtime := Some rt, te_engine := Some (h, bs)\<rparr>)"
  have "pool_full ?te" "te_contexts ?te = []"
    by (simp_all add: pool_full_def pooled_def scan_bindings_keeps te_new_def)
  with pool_loop_full [OF l [unfolded create_context_pool_def Let_def]] keep [OF l [unfolded create_context_pool_def Let_def]]
  show ?thesis by (auto simp: scan_bindings_keeps is_loaded_def)
qed

text \<open>
  C5. After a successful load, however threads acquire and release, no context is ever used by two
  threads, none in use is also free, and none is lost: free and used contexts together are always
  the configured number (at least one).
\<close>

theorem pool_exclusive:
  assumes "te_load read_file deserialize cfg te_new env = (True, te, env')" "env_ok env"
    "pool_step\<^sup>*\<^sup>* (te, []) (te', held)"
  shows "distinct (te_free te' @ map snd held) \<and>
    int (length (te_free te') + length held) = max 1 (ic_context_pool_size cfg)"
proof -
  note full = te_load_full [OF assms(1)]
  have "grown env env' (te_owned te @ [])"
    by (rule te_load_grown [OF assms(1)]) (use assms(2) in \<open>simp_all add: te_new_def te_owned_def\<close>)
  then have "distinct (te_owned te)" using grown_distinct by fastforce
  then have d: "distinct (pooled te)" using full by (blast intro: pooled_owned)
  have "pool_inv (te, [])" using d full by (simp add: pool_inv_def pool_full_def)
  from pool_steps_inv [OF assms(3) this]
  have inv: "distinct (pooled te')" "mset (te_free te' @ map snd held) = mset (pooled te')"
    by (simp_all add: pool_inv_def)
  have "pooled (fst s') = pooled (fst s)" if "pool_step\<^sup>*\<^sup>* s s'" for s s'
    using that
  proof (induction rule: rtranclp_induct)
    case (step y z)
    from step.hyps(2) have "pooled (fst z) = pooled (fst y)"
      by (cases rule: pool_step.cases) (simp_all add: acquire_pooled release_pooled)
    then show ?case using step.IH by simp
  qed simp
  from this [OF assms(3)] have same: "pooled te' = pooled te" by simp
  have "size (mset (te_free te' @ map snd held)) = size (mset (pooled te))" using inv(2) same by simp
  then have "length (te_free te') + length held = length (te_contexts te)" by (simp add: pooled_def)
  then show ?thesis
    using full inv mset_eq_imp_distinct_iff [OF inv(2)] by auto
qed

definition demo_env :: gpu_env where
  "demo_env = \<lparr>ge_next = 0, ge_live = [], ge_outcomes = []\<rparr>"

definition demo_engine :: trt_engine where
  "demo_engine = fst (snd (te_load demo_file demo_network (infer_config_default\<lparr>ic_context_pool_size := 2\<rparr>) te_new demo_env))"

theorem pool_exclusive_witness:
  "\<exists>te2 c d. pool_step\<^sup>*\<^sup>* (demo_engine, []) (te2, [(1, d), (0, c)]) \<and>
     distinct (te_free te2 @ [d, c]) \<and> te_free te2 = []"
proof -
  let ?cfg = "infer_config_default\<lparr>ic_context_pool_size := 2\<rparr>"
  obtain env' where l: "te_load demo_file demo_network ?cfg te_new demo_env = (True, demo_engine, env')"
  proof -
    have "fst (te_load demo_file demo_network ?cfg te_new demo_env)" by code_simp
    then show ?thesis using that by (metis demo_engine_def prod.collapse)
  qed
  have f: "te_free demo_engine = [2, 8]" by code_simp
  let ?t1 = "demo_engine\<lparr>te_free := [8]\<rparr>" and ?t2 = "demo_engine\<lparr>te_free := []\<rparr>"
  have "pool_step (demo_engine, []) (?t1, [(0, 2)])"
    by (rule pool_step.acquire) (simp add: acquire_context_def f)
  moreover have "pool_step (?t1, [(0, 2)]) (?t2, [(1, 8), (0, 2)])"
    by (rule pool_step.acquire) (simp add: acquire_context_def)
  ultimately have s: "pool_step\<^sup>*\<^sup>* (demo_engine, []) (?t2, [(1, 8), (0, 2)])"
    by (meson rtranclp.rtrancl_into_rtrancl rtranclp.rtrancl_refl)
  from pool_exclusive [OF l _ s] show ?thesis
    using s by (intro exI [of _ ?t2] exI [of _ "2::nat"] exI [of _ "8::nat"])
      (simp add: demo_env_def env_ok_def)
qed

section \<open>Inference\<close>

text \<open>
  An inference gives back the context it took: afterwards the engine holds the same free
  contexts (the used one last). Without an engine, an input binding or a free context it returns
  no detections and changes nothing.
\<close>

theorem infer_returns_context:
  assumes "infer sched net srt buf host input_data width height channels te = Ret (dets, te')"
  shows "mset (te_free te') = mset (te_free te) \<and> te'\<lparr>te_free := te_free te\<rparr> = te \<and>
    (\<not> is_loaded te \<or> te_input_index te < 0 \<or> te_free te = [] \<longrightarrow> dets = [] \<and> te' = te)"
proof (cases "te_free te")
  case Nil
  then show ?thesis using assms by (auto simp: infer_def acquire_context_def split: if_splits)
next
  case (Cons c cs)
  then show ?thesis
    using assms
    by (auto simp: infer_def acquire_context_def release_context_def exec_bind_Ret_iff split: if_splits)
qed

text \<open>A network of 2 by 2 pixels that reports one box, and an engine that has loaded it.\<close>

definition small_network :: "u8 list \<Rightarrow> binding list option" where
  "small_network data = Some [(True, [1, 3, 2, 2]), (False, [1, 1, 6])]"

definition small_config :: infer_config where
  "small_config = infer_config_default\<lparr>ic_input_h := 2, ic_input_w := 2, ic_context_pool_size := 1\<rparr>"

definition small_engine :: trt_engine where
  "small_engine = fst (snd (te_load demo_file small_network small_config te_new demo_env))"

definition small_net :: network where
  "small_net x = Some [0, 0, x ! 0, 2, 3/4, 1]"

lemma take_output:
  assumes "6 * n \<le> length out"
  shows "output_ok (take (6 * n) out) n \<longleftrightarrow> output_ok out n"
    and "candidates thr (take (6 * n) out) n = candidates thr out n"
proof -
  have i: "i < n \<Longrightarrow> k < 6 \<Longrightarrow> take (6 * n) out ! (i * 6 + k) = out ! (i * 6 + k)" for i k
    by (rule nth_take) simp
  have i0: "i < n \<Longrightarrow> take (6 * n) out ! (i * 6) = out ! (i * 6)" for i using i [of i 0] by simp
  show "output_ok (take (6 * n) out) n \<longleftrightarrow> output_ok out n"
    using assms i by (simp add: output_ok_def)
  have "i < n \<Longrightarrow> row_det (take (6 * n) out) i = row_det out i" for i
    using i [of i] i0 by (simp add: row_det_def)
  then have "map (row_det (take (6 * n) out)) [0..<n] = map (row_det out) [0..<n]" by simp
  then show "candidates thr (take (6 * n) out) n = candidates thr out n"
    by (simp only: candidates_def)
qed

lemma row_count:
  assumes "unat (sz :: u64) = 24 * n" "6 * n < 2 ^ 31"
  shows "unat (sz div 4) = 6 * n" "sint (ucast (sz div 4) :: i32) sdiv 6 = int n"
proof -
  show u: "unat (sz div 4) = 6 * n" using assms(1) by (simp add: unat_div_distrib)
  have "ucast (sz div 4) = (word_of_int (int (6 * n)) :: i32)"
    using u by (metis ucast_eq uint_nat)
  moreover have "sint (word_of_int (int (6 * n)) :: i32) = int (6 * n)"
    using assms(2) by (intro sint_of_int_i32) simp_all
  ultimately have s: "sint (ucast (sz div 4) :: i32) = 6 * int n" by simp
  show "sint (ucast (sz div 4) :: i32) sdiv 6 = int n"
    unfolding s by (simp add: signed_divide_int_def sgn_if)
qed

lemma infer_Ret:
  assumes "is_loaded te" "0 \<le> te_input_index te" "te_free te = c # cs"
    "te_output_sizes te = sz # szs" "unat sz = 24 * n" "6 * n < 2 ^ 31"
    "ic_input_w (te_config te) = int W" "ic_input_h (te_config te) = int H"
    "1 \<le> W" "int W \<le> 2 ^ 15" "1 \<le> H" "int H \<le> 2 ^ 15" "3 * (W * H) = length (buf c)" "3 * (W * H) < 2 ^ 31"
    "image_in frame w h ch" "3 \<le> ch" "w \<le> 2 ^ 15" "h \<le> 2 ^ 15" "sched_ok sched" "\<And>x. output_ok (net_output net (host c) x) n"
  shows "\<exists>lb input. letterbox_of True w h (int W) (int H) = Ret lb \<and>
    input = (if sched (grid_dim (int W)) (grid_dim (int H)) = None then buf c
             else map (img W H (resize_value frame w h ch (int W) (int H) (norm_of None None) True True lb)) [0..<3 * (W * H)]) \<and>
    infer sched net srt buf host frame w h ch te =
      Ret (if n = 0 then [] else nms_spec (det_overlap (ic_nms_threshold (te_config te)))
              (srt (candidates (ic_score_threshold (te_config te)) (net_output net (host c) input) n)),
           te\<lparr>te_free := cs @ [c]\<rparr>)"
proof -
  let ?te1 = "te\<lparr>te_free := cs\<rparr>"
  have buf: "3 * (W * H) \<le> length (buf c)" using assms(13) by simp
  obtain lb where lb: "letterbox_of True w h (int W) (int H) = Ret lb"
    and r: "cuda_preprocess_resize_normalize sched frame w h ch (buf c) (int W) (int H) None None True True =
      (if sched (grid_dim (int W)) (grid_dim (int H)) = None then Ret (- 1, buf c)
       else Ret (0, map (img W H (resize_value frame w h ch (int W) (int H) (norm_of None None) True True lb))
                      [0..<3 * (W * H)] @ drop (3 * (W * H)) (buf c)))"
    using resize_normalize_Ret [OF assms(15-18,9-12) buf assms(14,19), of True None None True] by blast
  let ?input = "if sched (grid_dim (int W)) (grid_dim (int H)) = None then buf c
             else map (img W H (resize_value frame w h ch (int W) (int H) (norm_of None None) True True lb)) [0..<3 * (W * H)]"
  obtain rc where rc: "cuda_preprocess_resize_normalize sched frame w h ch (buf c) (int W) (int H) None None True True = Ret (rc, ?input)"
    using r assms(13) by (auto split: if_splits)
  note cnt = row_count [OF assms(5,6)]
  have len: "6 * n \<le> length (net_output net (host c) ?input)" using assms(20) [of ?input] by (simp only: output_ok_def)
  have ok: "output_ok (take (6 * n) (net_output net (host c) ?input)) n"
    using take_output(1) [OF len] assms(20) by blast
  have "infer_with_context sched net srt ?te1 (buf c) (host c) frame w h ch =
      Ret (if n = 0 then [] else nms_spec (det_overlap (ic_nms_threshold (te_config te)))
              (srt (candidates (ic_score_threshold (te_config te)) (net_output net (host c) ?input) n)))"
    using postprocess_Ret [OF ok, of srt "te_config te"] take_output(2) [OF len]
    by (simp add: infer_with_context_def assms(4,7,8) rc cnt del: if_split)
  then have "infer sched net srt buf host frame w h ch te =
      Ret (if n = 0 then [] else nms_spec (det_overlap (ic_nms_threshold (te_config te)))
              (srt (candidates (ic_score_threshold (te_config te)) (net_output net (host c) ?input) n)), te\<lparr>te_free := cs @ [c]\<rparr>)"
    using assms(1-3) by (simp add: infer_def acquire_context_def release_context_def)
  then show ?thesis using lb by blast
qed

lemma infer_returns:
  "infer sched net srt buf host input_data width height channels te = Ret (dets, te') \<Longrightarrow>
   mset (te_free te') = mset (te_free te) \<and> te'\<lparr>te_free := te_free te\<rparr> = te"
  by (cases "te_free te")
    (auto simp: infer_def acquire_context_def release_context_def exec_bind_Ret_iff split: if_splits)

lemma small_engine_parts:
  "is_loaded small_engine" "0 \<le> te_input_index small_engine" "te_free small_engine = [2]"
  "te_output_sizes small_engine = [24]" "te_config small_engine = small_config"
  by (code_simp)+

lemma small_net_ok: "output_ok (net_output small_net h x) 1"
proof -
  have "rtrunc 1 = 1" by code_simp
  then show ?thesis by (simp add: output_ok_def net_output_def small_net_def)
qed

text \<open>
  C32. An inference on a loaded engine with a free context and well-formed input is free of
  undefined behaviour: it returns the detections selected from the network's output on the
  letterboxed frame (or on the old contents of the input buffer, when the device refuses the launch;
  or from the old contents of the host buffer, when the inference or its copy fails).
\<close>

theorem infer_decodes:
  assumes "is_loaded te" "0 \<le> te_input_index te" "te_free te = c # cs"
    "te_output_sizes te = sz # szs" "unat sz = 24 * n" "6 * n < 2 ^ 31"
    "ic_input_w (te_config te) = int W" "ic_input_h (te_config te) = int H"
    "1 \<le> W" "int W \<le> 2 ^ 15" "1 \<le> H" "int H \<le> 2 ^ 15" "3 * (W * H) = length (buf c)" "3 * (W * H) < 2 ^ 31"
    "image_in frame w h ch" "3 \<le> ch" "w \<le> 2 ^ 15" "h \<le> 2 ^ 15" "sched_ok sched" "\<And>x. output_ok (net_output net (host c) x) n"
  shows "\<exists>lb input. letterbox_of True w h (int W) (int H) = Ret lb \<and>
    input = (if sched (grid_dim (int W)) (grid_dim (int H)) = None then buf c
             else map (img W H (resize_value frame w h ch (int W) (int H) (norm_of None None) True True lb)) [0..<3 * (W * H)]) \<and>
    infer sched net srt buf host frame w h ch te =
      Ret (if n = 0 then [] else nms_spec (det_overlap (ic_nms_threshold (te_config te)))
              (srt (candidates (ic_score_threshold (te_config te)) (net_output net (host c) input) n)),
           te\<lparr>te_free := cs @ [c]\<rparr>)"
  by (rule infer_Ret) (fact assms)+

theorem infer_decodes_witness:
  "\<exists>dets. infer row_order small_net (desc_sort det_confidence) (\<lambda>_. replicate 12 7) (\<lambda>_. []) [10, 20, 30, 40, 50, 60] 2 1 3
      small_engine = Ret (dets, small_engine) \<and>
    dets = [\<lparr>det_box = \<lparr>rx1 = 0, ry1 = 0, rx2 = 30, ry2 = 2\<rparr>, det_confidence = 3/4, det_class = 1\<rparr>]"
proof -
  have cfg: "ic_input_w (te_config small_engine) = int 2" "ic_input_h (te_config small_engine) = int 2"
    by (simp_all add: small_engine_parts small_config_def)
  have im: "image_in [10, 20, 30, 40, 50, 60 :: u8] 2 1 3" by (simp add: image_in_def)
  have lb: "letterbox_of True 2 1 (int 2) (int 2) = Ret \<lparr>lb_pad_x = 0, lb_pad_y = 0, lb_resize_w = 2, lb_resize_h = 1\<rparr>"
    by code_simp
  define input where "input = map (img 2 2 (resize_value [10, 20, 30, 40, 50, 60] 2 1 3 (int 2) (int 2) (norm_of None None)
    True True \<lparr>lb_pad_x = 0, lb_pad_y = 0, lb_resize_w = 2, lb_resize_h = 1\<rparr>)) [0..<3 * (2 * 2)]"
  have "input = [30, 60, 0, 0, 20, 50, 0, 0, 10, 40, 0, 0]" unfolding input_def by code_simp
  then have out: "net_output small_net [] input = [0, 0, 30, 2, 3/4, 1]" by (simp add: net_output_def small_net_def)
  have sel: "nms_spec (det_overlap (ic_nms_threshold small_config))
      (desc_sort det_confidence (candidates (ic_score_threshold small_config) [0, 0, 30, 2, 3/4, 1] 1)) =
    [\<lparr>det_box = \<lparr>rx1 = 0, ry1 = 0, rx2 = 30, ry2 = 2\<rparr>, det_confidence = 3/4, det_class = 1\<rparr>]"
    by code_simp
  have same: "small_engine\<lparr>te_free := [] @ [2]\<rparr> = small_engine"
    using small_engine_parts(3) by simp
  from infer_decodes [OF small_engine_parts(1-4), where n = 1 and W = 2 and H = 2 and sched = row_order
      and net = small_net and host = "\<lambda>_. []" and buf = "\<lambda>_. replicate 12 7" and frame = "[10, 20, 30, 40, 50, 60]" and w = 2 and h = 1
      and ch = 3 and srt = "desc_sort det_confidence"] cfg im row_order_ok small_net_ok
  show ?thesis using lb out sel same by (auto simp: row_order_def small_engine_parts(5) input_def)
qed

lemma small_infer:
  "\<exists>dets. infer row_order small_net (desc_sort det_confidence) (\<lambda>_. replicate 12 7) (\<lambda>_. []) [10, 20, 30, 40, 50, 60] 2 1 3
      small_engine = Ret (dets, small_engine)"
proof -
  have cfg: "ic_input_w (te_config small_engine) = int 2" "ic_input_h (te_config small_engine) = int 2"
    by (simp_all add: small_engine_parts small_config_def)
  have im: "image_in [10, 20, 30, 40, 50, 60 :: u8] 2 1 3" by (simp add: image_in_def)
  have same: "small_engine\<lparr>te_free := [2]\<rparr> = small_engine"
    using small_engine_parts(3) by simp
  from infer_Ret [OF small_engine_parts(1-4), where n = 1 and W = 2 and H = 2 and sched = row_order
      and net = small_net and host = "\<lambda>_. []" and buf = "\<lambda>_. replicate 12 7" and frame = "[10, 20, 30, 40, 50, 60]" and w = 2 and h = 1
      and ch = 3 and srt = "desc_sort det_confidence"] cfg im row_order_ok small_net_ok
  show ?thesis by (auto simp: same)
qed

theorem infer_returns_context_witness:
  "\<exists>dets te'. infer row_order small_net (desc_sort det_confidence) (\<lambda>_. replicate 12 7) (\<lambda>_. []) [10, 20, 30, 40, 50, 60] 2 1 3
       small_engine = Ret (dets, te') \<and> mset (te_free te') = {#2#}"
proof -
  obtain dets where r: "infer row_order small_net (desc_sort det_confidence) (\<lambda>_. replicate 12 7) (\<lambda>_. [])
      [10, 20, 30, 40, 50, 60] 2 1 3 small_engine = Ret (dets, small_engine)"
    using small_infer by blast
  then show ?thesis using infer_returns_context [OF r] small_engine_parts(3) by auto
qed

end
