(* ===== verification/Kalman.thy ===== *)
theory Kalman
  imports Fp
begin

text \<open>
  The one-dimensional Kalman filter of \<open>arc_severity.h\<close> and \<open>arc_severity.cpp\<close>
  (\<open>KalmanFilter1D\<close>), in double precision, and the invariant that keeps its gain between
  0 and 1.
\<close>

section \<open>The filter\<close>

record kalman_state =
  ks_x :: rat
  ks_p :: rat
  ks_q :: rat
  ks_r :: rat

record kalman =
  kf_state :: kalman_state
  kf_initialized :: bool

definition kf_new :: "rat \<Rightarrow> rat \<Rightarrow> kalman" where
  "kf_new process_noise measurement_noise =
     \<lparr>kf_state = \<lparr>ks_x = 0, ks_p = 1, ks_q = process_noise, ks_r = measurement_noise\<rparr>,
      kf_initialized = False\<rparr>"

definition kf_init :: "rat \<Rightarrow> kalman \<Rightarrow> kalman" where
  "kf_init initial_value kf =
     kf\<lparr>kf_state := (kf_state kf)\<lparr>ks_x := initial_value, ks_p := 1\<rparr>, kf_initialized := True\<rparr>"

definition kf_update :: "rat \<Rightarrow> kalman \<Rightarrow> rat \<times> kalman" where
  "kf_update measurement kf =
     (if \<not> kf_initialized kf
      then let kf1 = kf_init measurement kf in (ks_x (kf_state kf1), kf1)
      else let s = kf_state kf;
               p1 = rnd64 (ks_p s + ks_q s);
               k = rnd64 (p1 / rnd64 (p1 + ks_r s));
               x1 = rnd64 (ks_x s + rnd64 (k * rnd64 (measurement - ks_x s)));
               p2 = rnd64 (rnd64 (1 - k) * p1)
           in (x1, kf\<lparr>kf_state := s\<lparr>ks_x := x1, ks_p := p2\<rparr>\<rparr>))"

definition kf_predict :: "kalman \<Rightarrow> rat" where
  "kf_predict kf = ks_x (kf_state kf)"

section \<open>Invariant\<close>

text \<open>Noise parameters as a filter needs them; all values are doubles.\<close>

definition kf_ok :: "kalman \<Rightarrow> bool" where
  "kf_ok kf \<longleftrightarrow> (let s = kf_state kf in
     0 \<le> ks_p s \<and> 0 \<le> ks_q s \<and> 0 < ks_r s \<and> rnd64 (ks_x s) = ks_x s \<and> rnd64 (ks_p s) = ks_p s \<and>
     rnd64 (ks_q s) = ks_q s \<and> rnd64 (ks_r s) = ks_r s)"

text \<open>The gain of the next correction.\<close>

definition kf_gain :: "kalman \<Rightarrow> rat" where
  "kf_gain kf = (let s = kf_state kf; p1 = rnd64 (ks_p s + ks_q s)
     in rnd64 (p1 / rnd64 (p1 + ks_r s)))"

lemma kf_update_fst: "fst (kf_update m kf) = kf_predict (snd (kf_update m kf))"
  by (simp add: kf_update_def kf_predict_def Let_def)

lemma kf_update_initialized [simp]: "kf_initialized (snd (kf_update m kf))"
  by (simp add: kf_update_def kf_init_def Let_def)

lemma kf_update_noise [simp]:
  "ks_q (kf_state (snd (kf_update m kf))) = ks_q (kf_state kf)"
  "ks_r (kf_state (snd (kf_update m kf))) = ks_r (kf_state kf)"
  by (simp_all add: kf_update_def kf_init_def Let_def)

lemma kf_gain_range:
  assumes "kf_ok kf"
  shows "0 \<le> kf_gain kf" "kf_gain kf \<le> 1"
proof -
  define s p1 where "s = kf_state kf" and "p1 = rnd64 (ks_p s + ks_q s)"
  have ok: "0 \<le> ks_p s" "0 \<le> ks_q s" "0 < ks_r s" "rnd64 (ks_r s) = ks_r s"
    using assms by (simp_all add: kf_ok_def s_def Let_def)
  have p1: "0 \<le> p1" "rnd64 p1 = p1" using ok by (auto simp: p1_def intro: f64.nonneg)
  have le: "p1 \<le> rnd64 (p1 + ks_r s)" using p1 ok by (intro f64.ge_repr) auto
  have pos: "0 < rnd64 (p1 + ks_r s)"
    using p1 ok f64.ge_repr [of "ks_r s" "p1 + ks_r s"] by simp
  have g: "kf_gain kf = rnd64 (p1 / rnd64 (p1 + ks_r s))"
    by (simp add: kf_gain_def Let_def s_def p1_def)
  show "0 \<le> kf_gain kf" unfolding g using p1 pos by (intro f64.nonneg) simp
  show "kf_gain kf \<le> 1" unfolding g using le pos by (intro f64.le_repr) simp_all
qed

lemma kf_update_eq:
  "kf_initialized kf \<Longrightarrow> kf_update m kf =
     (let s = kf_state kf; k = kf_gain kf;
          x1 = rnd64 (ks_x s + rnd64 (k * rnd64 (m - ks_x s)))
      in (x1, kf\<lparr>kf_state := s\<lparr>ks_x := x1, ks_p := rnd64 (rnd64 (1 - k) * rnd64 (ks_p s + ks_q s))\<rparr>\<rparr>))"
  by (simp add: kf_update_def kf_gain_def Let_def)

lemma kf_update_ok:
  assumes "kf_ok kf" "rnd64 m = m"
  shows "kf_ok (snd (kf_update m kf))"
proof (cases "kf_initialized kf")
  case True
  have "0 \<le> rnd64 (rnd64 (1 - kf_gain kf) * rnd64 (ks_p (kf_state kf) + ks_q (kf_state kf)))"
    using assms(1) kf_gain_range [OF assms(1)]
    by (intro f64.nonneg mult_nonneg_nonneg) (auto simp: kf_ok_def Let_def)
  then show ?thesis
    using assms True by (simp add: kf_update_eq kf_ok_def Let_def)
next
  case False
  then show ?thesis using assms by (simp add: kf_update_def kf_init_def kf_ok_def Let_def)
qed

text \<open>The uncertainty never grows by more than the process noise.\<close>

lemma kf_update_p:
  assumes "kf_ok kf" "kf_initialized kf"
  shows "ks_p (kf_state (snd (kf_update m kf))) \<le> rnd64 (ks_p (kf_state kf) + ks_q (kf_state kf))"
proof -
  let ?p1 = "rnd64 (ks_p (kf_state kf) + ks_q (kf_state kf))"
  have "0 \<le> ?p1" using assms(1) by (intro f64.nonneg) (simp add: kf_ok_def Let_def)
  moreover have "rnd64 (1 - kf_gain kf) \<le> 1" "0 \<le> rnd64 (1 - kf_gain kf)"
    using kf_gain_range [OF assms(1)] by (auto intro: f64.le_repr f64.nonneg)
  ultimately have "rnd64 (1 - kf_gain kf) * ?p1 \<le> ?p1" by (intro mult_left_le_one_le)
  then show ?thesis using assms(2) by (simp add: kf_update_eq Let_def f64.le_repr)
qed

text \<open>A correction goes towards the measurement, and a filter of nonnegative data is nonnegative.\<close>

lemma kf_update_towards:
  assumes "kf_ok kf" "kf_initialized kf"
  shows "kf_predict kf \<le> m \<Longrightarrow> kf_predict kf \<le> fst (kf_update m kf)"
    and "m \<le> kf_predict kf \<Longrightarrow> fst (kf_update m kf) \<le> kf_predict kf"
proof -
  let ?x = "ks_x (kf_state kf)" and ?k = "kf_gain kf"
  have x: "rnd64 ?x = ?x" using assms(1) by (simp add: kf_ok_def Let_def)
  note k = kf_gain_range [OF assms(1)]
  have eq: "fst (kf_update m kf) = rnd64 (?x + rnd64 (?k * rnd64 (m - ?x)))"
    using assms(2) by (simp add: kf_update_eq Let_def)
  show "kf_predict kf \<le> fst (kf_update m kf)" if "kf_predict kf \<le> m"
  proof -
    have "0 \<le> rnd64 (?k * rnd64 (m - ?x))"
      using that k by (intro f64.nonneg mult_nonneg_nonneg) (simp_all add: kf_predict_def)
    then show ?thesis unfolding eq kf_predict_def using x by (intro f64.ge_repr) auto
  qed
  show "fst (kf_update m kf) \<le> kf_predict kf" if "m \<le> kf_predict kf"
  proof -
    have "rnd64 (?k * rnd64 (m - ?x)) \<le> 0"
      using that k by (intro f64.nonpos mult_nonneg_nonpos) (simp_all add: kf_predict_def f64.nonpos)
    then show ?thesis unfolding eq kf_predict_def using x by (intro f64.le_repr) auto
  qed
qed

lemma kf_update_nonneg:
  assumes "kf_ok kf" "0 \<le> m" "kf_initialized kf \<Longrightarrow> 0 \<le> kf_predict kf"
  shows "0 \<le> fst (kf_update m kf)"
proof (cases "kf_initialized kf")
  case True
  then show ?thesis
    using assms kf_gain_range [OF assms(1)]
    by (simp add: kf_update_eq Let_def kf_predict_def kf_ok_def f64.step_nonneg)
next
  case False
  then show ?thesis using assms by (simp add: kf_update_def kf_init_def Let_def)
qed

text \<open>The estimate grows by no more than the measurement.\<close>

lemma kf_update_le:
  assumes "kf_ok kf" "m \<le> B" "0 \<le> B" "rnd64 B = B" "rnd64 (C + B) = C + B" "0 \<le> C"
    "kf_initialized kf \<Longrightarrow> 0 \<le> kf_predict kf \<and> kf_predict kf \<le> C"
  shows "fst (kf_update m kf) \<le> C + B"
proof (cases "kf_initialized kf")
  case True
  let ?x = "ks_x (kf_state kf)" and ?k = "kf_gain kf"
  have x: "0 \<le> ?x" "?x \<le> C" using assms(7) [OF True] by (simp_all add: kf_predict_def)
  have d: "rnd64 (m - ?x) \<le> B" using assms(2,4) x(1) by (intro f64.le_repr) simp_all
  have "?k * rnd64 (m - ?x) \<le> B"
  proof (cases "0 \<le> rnd64 (m - ?x)")
    case True
    then show ?thesis using mult_left_le_one_le [OF True] kf_gain_range [OF assms(1)] d by (meson order_trans)
  next
    case False
    then have "?k * rnd64 (m - ?x) \<le> 0" using kf_gain_range(1) [OF assms(1)] by (intro mult_nonneg_nonpos) simp_all
    then show ?thesis using assms(3) by simp
  qed
  then have "rnd64 (?k * rnd64 (m - ?x)) \<le> B" using assms(4) by (intro f64.le_repr)
  then have "rnd64 (?x + rnd64 (?k * rnd64 (m - ?x))) \<le> C + B" using assms(5) x(2) by (intro f64.le_repr) simp_all
  then show ?thesis using True by (simp add: kf_update_eq Let_def)
next
  case False
  then show ?thesis using assms(2,6) by (simp add: kf_update_def kf_init_def Let_def)
qed

lemma kf_update_repr:
  assumes "rnd64 m = m"
  shows "rnd64 (fst (kf_update m kf)) = fst (kf_update m kf)"
  using assms by (simp add: kf_update_def kf_init_def Let_def)

section \<open>Properties\<close>

text \<open>
  C26. A correction of a filter with sound parameters uses a gain between 0 and 1, moves the
  estimate towards the measurement (never away from it), keeps the uncertainty below its
  predicted value, and leaves a sound, initialised filter; all under double rounding.
\<close>

theorem kalman_correction:
  assumes "kf_ok kf" "kf_initialized kf" "rnd64 m = m" "kf_update m kf = (x', kf')"
  shows "0 \<le> kf_gain kf \<and> kf_gain kf \<le> 1 \<and>
    (if m \<le> kf_predict kf then x' \<le> kf_predict kf else kf_predict kf \<le> x') \<and>
    kf_predict kf' = x' \<and>
    ks_p (kf_state kf') \<le> rnd64 (ks_p (kf_state kf) + ks_q (kf_state kf)) \<and>
    kf_ok kf' \<and> kf_initialized kf'"
  using kf_gain_range [OF assms(1)] kf_update_towards [OF assms(1,2), of m] kf_update_p [OF assms(1,2), of m]
    kf_update_ok [OF assms(1,3)] kf_update_fst [of m kf] kf_update_initialized [of m kf] assms(4)
  by auto

theorem kalman_correction_witness:
  "\<exists>x' kf'. kf_update 40 (kf_init 100 (kf_new (rnd64 (1/100)) (rnd64 (1/10)))) = (x', kf') \<and>
     x' \<le> 100 \<and> kf_ok kf'"
proof -
  let ?kf = "kf_init 100 (kf_new (rnd64 (1/100)) (rnd64 (1/10)))"
  have pos: "0 < rnd64 (1/10)" "0 \<le> rnd64 (1/100)" by code_simp+
  then have kf: "kf_ok ?kf" by (simp add: kf_ok_def kf_init_def kf_new_def)
  obtain x' kf' where u: "kf_update 40 ?kf = (x', kf')" by (metis prod.exhaust)
  with kalman_correction [OF kf _ _ u] show ?thesis
    by (simp add: kf_init_def kf_new_def kf_predict_def)
qed

end
