(* ===== verification/Severity.thy ===== *)
theory Severity
  imports Fp
begin

text \<open>
  Severity levels and thresholds of \<open>arc_severity.h\<close>, and the classification of a track
  (\<open>ArcLifecycleTracker::classify_severity\<close>) as a function of the three quantities it looks at.
  The levels are a linear order, the order of the enumeration's values.
\<close>

datatype severity =
    LEVEL_1_MINOR_SPARK
  | LEVEL_2_STABLE_ARC
  | LEVEL_3_INTENSE_ARC
  | LEVEL_4_SUSTAINED_BURN
  | LEVEL_5_FATAL_ABLATION

text \<open>\<open>static_cast<int32_t>\<close> of a level.\<close>

fun severity_code :: "severity \<Rightarrow> int" where
  "severity_code LEVEL_1_MINOR_SPARK = 1"
| "severity_code LEVEL_2_STABLE_ARC = 2"
| "severity_code LEVEL_3_INTENSE_ARC = 3"
| "severity_code LEVEL_4_SUSTAINED_BURN = 4"
| "severity_code LEVEL_5_FATAL_ABLATION = 5"

lemma severity_code_inj: "severity_code a = severity_code b \<Longrightarrow> a = b"
  by (cases a; cases b) simp_all

instantiation severity :: linorder
begin

definition less_eq_severity :: "severity \<Rightarrow> severity \<Rightarrow> bool" where
  "less_eq_severity a b \<longleftrightarrow> severity_code a \<le> severity_code b"

definition less_severity :: "severity \<Rightarrow> severity \<Rightarrow> bool" where
  "less_severity a b \<longleftrightarrow> severity_code a < severity_code b"

instance
  by standard (auto simp: less_eq_severity_def less_severity_def dest: severity_code_inj)

end

record severity_thresholds =
  level2_cumulative_energy :: rat
  level3_cumulative_energy :: rat
  level4_cumulative_energy :: rat
  level5_cumulative_energy :: rat
  level3_instant_energy :: rat
  level5_instant_energy :: rat
  level4_duration_ns :: i64
  level5_duration_ns :: i64

text \<open>
  The classification, on a track's cumulative energy, smoothed energy and duration; the 64-bit
  durations are compared as signed values.
\<close>

definition classify_severity :: "severity_thresholds \<Rightarrow> rat \<Rightarrow> rat \<Rightarrow> i64 \<Rightarrow> severity" where
  "classify_severity th cumulative smoothed duration =
     (if level5_cumulative_energy th \<le> cumulative \<or> level5_instant_energy th \<le> smoothed \<or>
         sint (level5_duration_ns th) \<le> sint duration
      then LEVEL_5_FATAL_ABLATION
      else if level4_cumulative_energy th \<le> cumulative \<or> sint (level4_duration_ns th) \<le> sint duration
      then LEVEL_4_SUSTAINED_BURN
      else if level3_cumulative_energy th \<le> cumulative \<or> level3_instant_energy th \<le> smoothed
      then LEVEL_3_INTENSE_ARC
      else if level2_cumulative_energy th \<le> cumulative
      then LEVEL_2_STABLE_ARC
      else LEVEL_1_MINOR_SPARK)"

text \<open>The levels a track qualifies for, each by any one of its criteria.\<close>

fun qualifies :: "severity_thresholds \<Rightarrow> rat \<Rightarrow> rat \<Rightarrow> i64 \<Rightarrow> severity \<Rightarrow> bool" where
  "qualifies th c s d LEVEL_1_MINOR_SPARK = True"
| "qualifies th c s d LEVEL_2_STABLE_ARC = (level2_cumulative_energy th \<le> c)"
| "qualifies th c s d LEVEL_3_INTENSE_ARC = (level3_cumulative_energy th \<le> c \<or> level3_instant_energy th \<le> s)"
| "qualifies th c s d LEVEL_4_SUSTAINED_BURN =
     (level4_cumulative_energy th \<le> c \<or> sint (level4_duration_ns th) \<le> sint d)"
| "qualifies th c s d LEVEL_5_FATAL_ABLATION =
     (level5_cumulative_energy th \<le> c \<or> level5_instant_energy th \<le> s \<or>
      sint (level5_duration_ns th) \<le> sint d)"

lemma classify_qualifies: "qualifies th c s d (classify_severity th c s d)"
  by (simp add: classify_severity_def)

lemma qualifies_le: "qualifies th c s d l \<Longrightarrow> l \<le> classify_severity th c s d"
  by (cases l) (auto simp: classify_severity_def less_eq_severity_def)

lemma qualifies_mono:
  "c \<le> c' \<Longrightarrow> s \<le> s' \<Longrightarrow> sint d \<le> sint d' \<Longrightarrow> qualifies th c s d l \<Longrightarrow> qualifies th c' s' d' l"
  by (cases l) auto

section \<open>Properties\<close>

text \<open>The thresholds \<open>arcvision_engine_init\<close> configures.\<close>

definition default_thresholds :: severity_thresholds where
  "default_thresholds = \<lparr>level2_cumulative_energy = 500, level3_cumulative_energy = 5000,
     level4_cumulative_energy = 50000, level5_cumulative_energy = 500000,
     level3_instant_energy = 1000, level5_instant_energy = 10000,
     level4_duration_ns = 3000000000, level5_duration_ns = 10000000000\<rparr>"

text \<open>
  C30. The classification is the highest level of which some criterion is met, for any
  thresholds, ordered or not.
\<close>

theorem classify_severity_is_max:
  "classify_severity th c s d = Max {l. qualifies th c s d l}"
proof (rule Max_eqI [symmetric])
  have "(UNIV :: severity set) = {LEVEL_1_MINOR_SPARK, LEVEL_2_STABLE_ARC, LEVEL_3_INTENSE_ARC,
      LEVEL_4_SUSTAINED_BURN, LEVEL_5_FATAL_ABLATION}"
    using severity.exhaust by blast
  then have "finite (UNIV :: severity set)" by (metis finite.emptyI finite_insert)
  then show "finite {l. qualifies th c s d l}" by (rule finite_subset [rotated]) simp
qed (auto simp: classify_qualifies intro: qualifies_le)

text \<open>
  Classification is monotone: more cumulative energy, more smoothed energy and a longer
  duration never lower the level.
\<close>

theorem classify_severity_mono:
  assumes "c \<le> c'" "s \<le> s'" "sint d \<le> sint d'"
  shows "classify_severity th c s d \<le> classify_severity th c' s' d'"
  by (rule qualifies_le) (rule qualifies_mono [OF assms classify_qualifies])

theorem classify_severity_mono_witness:
  "classify_severity default_thresholds 600 20 1000000000 = LEVEL_2_STABLE_ARC \<and>
   classify_severity default_thresholds 600 1200 4000000000 = LEVEL_4_SUSTAINED_BURN \<and>
   classify_severity default_thresholds 600 20 1000000000
     \<le> classify_severity default_thresholds 600 1200 4000000000"
  using classify_severity_mono [of 600 600 20 1200 1000000000 4000000000 default_thresholds]
  by (simp add: classify_severity_def default_thresholds_def)

end
