(* ===== verification/Tracker.thy ===== *)
theory Tracker
  imports Kalman Severity Geometry
begin

text \<open>
  The life cycle of arc tracks (\<open>ArcLifecycleTracker\<close> of \<open>arc_severity.h\<close> and
  \<open>arc_severity.cpp\<close>): each frame, active tracks claim detections greedily by intersection
  over union, unclaimed detections open tracks, and tracks that were not seen for too long are
  moved to the completed list.

  The loops over indices are folds over index lists; the flags of the code's
  \<open>detection_matched\<close> are a list of booleans. \<open>track_matched\<close> and \<open>dt_s\<close> are written
  but never read by the code and have no counterpart here. The differences of times and the
  increments of counters are checked: signed overflow is undefined.
\<close>

section \<open>State\<close>

record arc_track =
  tr_id :: i32
  tr_stream_index :: i32
  tr_start_pts :: i64
  tr_last_pts :: i64
  tr_frame_count :: i32
  tr_box :: rect
  tr_last_instant :: rat
  tr_smoothed :: rat
  tr_cumulative :: rat
  tr_kf :: kalman
  tr_severity :: severity
  tr_active :: bool

record track_update =
  up_id :: i32
  up_box :: rect
  up_instant :: rat
  up_smoothed :: rat
  up_cumulative :: rat
  up_severity :: severity
  up_frame_count :: i32
  up_duration :: i64
  up_is_new :: bool
  up_escalated :: bool

record tracker =
  lt_thresholds :: severity_thresholds
  lt_iou_threshold :: rat
  lt_max_gap :: i64
  lt_max_tracks :: i32
  lt_next_id :: i32
  lt_active :: "arc_track list"
  lt_completed :: "arc_track list"

definition lt_new :: "severity_thresholds \<Rightarrow> rat \<Rightarrow> i64 \<Rightarrow> i32 \<Rightarrow> tracker" where
  "lt_new th iou_thr max_gap max_tracks =
     \<lparr>lt_thresholds = th, lt_iou_threshold = iou_thr, lt_max_gap = max_gap,
      lt_max_tracks = max_tracks, lt_next_id = 1, lt_active = [], lt_completed = []\<rparr>"

text \<open>The default-constructed track.\<close>

definition track_default :: arc_track where
  "track_default = \<lparr>tr_id = - 1, tr_stream_index = - 1, tr_start_pts = 0, tr_last_pts = 0,
     tr_frame_count = 0, tr_box = \<lparr>rx1 = 0, ry1 = 0, rx2 = 0, ry2 = 0\<rparr>, tr_last_instant = 0,
     tr_smoothed = 0, tr_cumulative = 0, tr_kf = kf_new (rnd64 (1/100)) (rnd64 (1/10)),
     tr_severity = LEVEL_1_MINOR_SPARK, tr_active = True\<rparr>"

section \<open>Operations\<close>

definition compute_iou :: "arc_track \<Rightarrow> rect \<Rightarrow> rat" where
  "compute_iou track det = rect_iou rnd64 (tr_box track) det"

definition track_severity :: "severity_thresholds \<Rightarrow> arc_track \<Rightarrow> severity exec" where
  "track_severity th track =
     exec_bind (sub64 (tr_last_pts track) (tr_start_pts track)) (\<lambda>duration_ns.
       Ret (classify_severity th (tr_cumulative track) (tr_smoothed track) duration_ns))"

text \<open>
  The inner loop of \<open>update\<close>: the unmatched detection with the largest overlap, the first one
  among equals; \<open>None\<close> is the code's \<open>best_det = -1\<close>.
\<close>

definition best_match :: "arc_track \<Rightarrow> rect list \<Rightarrow> bool list \<Rightarrow> rat \<times> nat option" where
  "best_match track dets matched =
     fold (\<lambda>d (best_iou, best_det).
         if matched ! d then (best_iou, best_det)
         else let iou = compute_iou track (dets ! d)
              in if best_iou < iou then (iou, Some d) else (best_iou, best_det))
       [0..<length dets] (0, None)"

text \<open>The body for a track that claims a detection.\<close>

definition energy_step :: rat where
  "energy_step = rnd64 (1 / 30)"

definition record_hit ::
    "severity_thresholds \<Rightarrow> i64 \<Rightarrow> rect \<Rightarrow> rat \<Rightarrow> arc_track \<Rightarrow> (arc_track \<times> track_update) exec" where
  "record_hit th pts box raw_energy track =
     exec_bind (inc32 (tr_frame_count track)) (\<lambda>frame_count.
     let (smoothed, kf) = kf_update raw_energy (tr_kf track) in
     exec_bind (sub64 pts (tr_start_pts track)) (\<lambda>dt_ns.
     let tr1 = track\<lparr>tr_box := box, tr_last_pts := pts, tr_frame_count := frame_count,
           tr_last_instant := raw_energy, tr_kf := kf, tr_smoothed := smoothed,
           tr_cumulative := rnd64 (tr_cumulative track + rnd64 (smoothed * energy_step))\<rparr> in
     exec_bind (track_severity th tr1) (\<lambda>severity.
     let tr2 = tr1\<lparr>tr_severity := severity\<rparr>
     in Ret (tr2, \<lparr>up_id = tr_id tr2, up_box = tr_box tr2, up_instant = tr_last_instant tr2,
           up_smoothed = tr_smoothed tr2, up_cumulative = tr_cumulative tr2,
           up_severity = tr_severity tr2, up_frame_count = tr_frame_count tr2,
           up_duration = dt_ns, up_is_new = False,
           up_escalated = severity_code (tr_severity track) < severity_code (tr_severity tr2)\<rparr>))))"

text \<open>The loop over the active tracks: updated tracks, flags, updates.\<close>

fun match_tracks ::
    "tracker \<Rightarrow> i64 \<Rightarrow> rect list \<Rightarrow> rat list \<Rightarrow> arc_track list \<Rightarrow> bool list \<Rightarrow>
     (arc_track list \<times> bool list \<times> track_update list) exec" where
  "match_tracks lt pts dets energies [] matched = Ret ([], matched, [])"
| "match_tracks lt pts dets energies (track # tracks) matched =
     (case best_match track dets matched of
        (best_iou, Some d) \<Rightarrow>
          if lt_iou_threshold lt \<le> best_iou
          then exec_bind (record_hit (lt_thresholds lt) pts (dets ! d) (energies ! d) track) (\<lambda>(track1, upd).
               exec_bind (match_tracks lt pts dets energies tracks (matched[d := True]))
                 (\<lambda>(tracks1, matched1, upds). Ret (track1 # tracks1, matched1, upd # upds)))
          else exec_bind (match_tracks lt pts dets energies tracks matched)
                 (\<lambda>(tracks1, matched1, upds). Ret (track # tracks1, matched1, upds))
      | (_, None) \<Rightarrow>
          exec_bind (match_tracks lt pts dets energies tracks matched)
            (\<lambda>(tracks1, matched1, upds). Ret (track # tracks1, matched1, upds)))"

definition new_track :: "i32 \<Rightarrow> i64 \<Rightarrow> rect \<Rightarrow> rat \<Rightarrow> arc_track" where
  "new_track track_id pts box energy =
     (let (smoothed, kf) = kf_update energy (tr_kf track_default)
      in track_default\<lparr>tr_id := track_id, tr_stream_index := 0, tr_start_pts := pts,
           tr_last_pts := pts, tr_frame_count := 1, tr_box := box, tr_last_instant := energy,
           tr_kf := kf, tr_smoothed := smoothed, tr_cumulative := rnd64 (smoothed * energy_step),
           tr_severity := LEVEL_1_MINOR_SPARK, tr_active := True\<rparr>)"

definition new_update :: "arc_track \<Rightarrow> track_update" where
  "new_update track =
     \<lparr>up_id = tr_id track, up_box = tr_box track, up_instant = tr_last_instant track,
      up_smoothed = tr_smoothed track, up_cumulative = tr_cumulative track,
      up_severity = tr_severity track, up_frame_count = 1, up_duration = 0, up_is_new = True,
      up_escalated = False\<rparr>"

text \<open>The loop that opens a track for every unmatched detection, from the next free id.\<close>

fun open_tracks ::
    "i64 \<Rightarrow> rect list \<Rightarrow> rat list \<Rightarrow> bool list \<Rightarrow> nat list \<Rightarrow> i32 \<Rightarrow> (arc_track list \<times> i32) exec" where
  "open_tracks pts dets energies matched [] next_id = Ret ([], next_id)"
| "open_tracks pts dets energies matched (d # ds) next_id =
     (if matched ! d then open_tracks pts dets energies matched ds next_id
      else exec_bind (inc32 next_id) (\<lambda>next1.
           exec_bind (open_tracks pts dets energies matched ds next1) (\<lambda>(tracks, next2).
             Ret (new_track next_id pts (dets ! d) (energies ! d) # tracks, next2))))"

text \<open>
  \<open>update\<close>. The code reads \<open>energies[d]\<close> exactly once for every detection \<open>d\<close>, so a shorter
  energy vector is an access past its end.
\<close>

definition lt_update ::
    "i64 \<Rightarrow> rect list \<Rightarrow> rat list \<Rightarrow> tracker \<Rightarrow> (tracker \<times> track_update list) exec" where
  "lt_update pts dets energies lt =
     (if length energies < length dets then UB
      else exec_bind (match_tracks lt pts dets energies (lt_active lt) (replicate (length dets) False))
             (\<lambda>(tracks, matched, upds).
           exec_bind (open_tracks pts dets energies matched [0..<length dets] (lt_next_id lt)) (\<lambda>(opened, next_id).
             Ret (lt\<lparr>lt_active := tracks @ opened, lt_next_id := next_id\<rparr>, upds @ map new_update opened))))"

definition expired :: "tracker \<Rightarrow> i64 \<Rightarrow> arc_track \<Rightarrow> bool exec" where
  "expired lt current track =
     (if tr_active track
      then exec_bind (sub64 current (tr_last_pts track)) (\<lambda>gap. Ret (sint (lt_max_gap lt) < sint gap))
      else Ret False)"

text \<open>The loop that marks the stale tracks and copies them: the tracks, and the copies.\<close>

fun expire_loop :: "tracker \<Rightarrow> i64 \<Rightarrow> arc_track list \<Rightarrow> (arc_track list \<times> arc_track list) exec" where
  "expire_loop lt current [] = Ret ([], [])"
| "expire_loop lt current (track # tracks) =
     exec_bind (expired lt current track) (\<lambda>stale.
       let track1 = (if stale then track\<lparr>tr_active := False\<rparr> else track) in
       exec_bind (expire_loop lt current tracks) (\<lambda>(tracks1, finished).
         Ret (track1 # tracks1, if stale then track1 # finished else finished)))"

definition keep_last :: "nat \<Rightarrow> 'a list \<Rightarrow> 'a list" where
  "keep_last n xs = (if n < length xs then drop (length xs - n) xs else xs)"

text \<open>
  \<open>expire_old_tracks\<close>: mark, copy to the completed list, erase the inactive, trim the completed
  list to the \<open>max_tracks_\<close> newest (compared as \<open>size_t\<close>).
\<close>

definition lt_expire :: "i64 \<Rightarrow> tracker \<Rightarrow> tracker exec" where
  "lt_expire current lt =
     exec_bind (expire_loop lt current (lt_active lt)) (\<lambda>(marked, finished).
       let cap = unat (scast (lt_max_tracks lt) :: u64)
       in Ret (lt\<lparr>lt_active := filter tr_active marked,
                  lt_completed := keep_last cap (lt_completed lt @ finished)\<rparr>))"

definition get_track :: "tracker \<Rightarrow> i32 \<Rightarrow> arc_track option" where
  "get_track lt track_id = find (\<lambda>t. tr_id t = track_id) (lt_active lt @ lt_completed lt)"

section \<open>The best match\<close>

definition free_dets :: "bool list \<Rightarrow> nat set" where
  "free_dets matched = {d. d < length matched \<and> \<not> matched ! d}"

lemma free_dets_finite [simp]: "finite (free_dets matched)"
  by (simp add: free_dets_def)

lemma free_dets_update: "d < length matched \<Longrightarrow> free_dets (matched[d := True]) = free_dets matched - {d}"
  by (auto simp: free_dets_def nth_list_update)

definition best_of :: "arc_track \<Rightarrow> rect list \<Rightarrow> bool list \<Rightarrow> nat \<Rightarrow> rat \<times> nat option \<Rightarrow> bool" where
  "best_of track dets matched n r \<longleftrightarrow>
     (case r of
        (b, None) \<Rightarrow> b = 0 \<and> (\<forall>k<n. \<not> matched ! k \<longrightarrow> compute_iou track (dets ! k) \<le> 0)
      | (b, Some d) \<Rightarrow> d < n \<and> \<not> matched ! d \<and> b = compute_iou track (dets ! d) \<and> 0 < b \<and>
          (\<forall>k<n. \<not> matched ! k \<longrightarrow> compute_iou track (dets ! k) \<le> b) \<and>
          (\<forall>k<d. \<not> matched ! k \<longrightarrow> compute_iou track (dets ! k) < b))"

lemma best_match_upto:
  "best_of track dets matched n
    (fold (\<lambda>d (best_iou, best_det).
         if matched ! d then (best_iou, best_det)
         else let iou = compute_iou track (dets ! d)
              in if best_iou < iou then (iou, Some d) else (best_iou, best_det))
       [0..<n] (0, None))"
proof (induction n)
  case 0
  show ?case by (simp add: best_of_def)
next
  case (Suc n)
  let ?F = "\<lambda>n. fold (\<lambda>d (best_iou, best_det).
         if matched ! d then (best_iou, best_det)
         else let iou = compute_iou track (dets ! d)
              in if best_iou < iou then (iou, Some d) else (best_iou, best_det))
       [0..<n] (0, None)"
  obtain b r where F: "?F n = (b, r)" by force
  show ?case
    using Suc.IH unfolding best_of_def
    by (cases r) (auto simp: F less_Suc_eq Let_def)
qed

lemma best_match_best: "best_of track dets matched (length dets) (best_match track dets matched)"
  unfolding best_match_def by (rule best_match_upto)

lemma best_match_Some:
  "best_match track dets matched = (b, Some d) \<Longrightarrow> length matched = length dets \<Longrightarrow>
   d \<in> free_dets matched \<and> d < length dets"
  using best_match_best [of track dets matched] by (simp add: best_of_def free_dets_def)

section \<open>One hit\<close>

definition track_ok :: "arc_track \<Rightarrow> bool" where
  "track_ok t \<longleftrightarrow> kf_ok (tr_kf t) \<and> kf_initialized (tr_kf t) \<and> tr_smoothed t = kf_predict (tr_kf t) \<and>
     0 \<le> tr_smoothed t \<and> 0 \<le> tr_cumulative t \<and> rnd64 (tr_cumulative t) = tr_cumulative t \<and> tr_active t"

definition energy_ok :: "rat \<Rightarrow> bool" where
  "energy_ok e \<longleftrightarrow> 0 \<le> e \<and> rnd64 e = e"

lemma energy_step_nonneg: "0 \<le> energy_step"
  unfolding energy_step_def by (rule f64.nonneg) simp

text \<open>What a hit that is defined computes.\<close>

lemma record_hit_Ret:
  assumes "record_hit th pts box e t = Ret (t', u)"
  shows "t' = t\<lparr>tr_box := box, tr_last_pts := pts, tr_frame_count := tr_frame_count t + 1, tr_last_instant := e,
      tr_kf := snd (kf_update e (tr_kf t)), tr_smoothed := fst (kf_update e (tr_kf t)),
      tr_cumulative := rnd64 (tr_cumulative t + rnd64 (fst (kf_update e (tr_kf t)) * energy_step)),
      tr_severity := tr_severity t'\<rparr>"
    "u = \<lparr>up_id = tr_id t, up_box = box, up_instant = e, up_smoothed = tr_smoothed t', up_cumulative = tr_cumulative t',
      up_severity = tr_severity t',
      up_frame_count = tr_frame_count t + 1, up_duration = pts - tr_start_pts t, up_is_new = False,
      up_escalated = (tr_severity t < tr_severity t')\<rparr>"
    "tr_severity t' = classify_severity th (tr_cumulative t') (tr_smoothed t') (pts - tr_start_pts t)"
    "sint (tr_frame_count t) < 2 ^ 31 - 1" "sint (pts - tr_start_pts t) = sint pts - sint (tr_start_pts t)"
proof -
  obtain sm kf where k: "kf_update e (tr_kf t) = (sm, kf)" by (cases "kf_update e (tr_kf t)")
  from assms obtain d where c: "sint (tr_frame_count t) < 2 ^ 31 - 1" and d: "sub64 pts (tr_start_pts t) = Ret d"
    by (auto simp: record_hit_def inc32_eq k exec_bind_Ret_iff split: if_splits)
  have v: "d = pts - tr_start_pts t" using sub64_value [OF d] .
  note r = assms [unfolded record_hit_def inc32_eq k track_severity_def less_severity_def [symmetric]]
  show "t' = t\<lparr>tr_box := box, tr_last_pts := pts, tr_frame_count := tr_frame_count t + 1, tr_last_instant := e,
      tr_kf := snd (kf_update e (tr_kf t)), tr_smoothed := fst (kf_update e (tr_kf t)),
      tr_cumulative := rnd64 (tr_cumulative t + rnd64 (fst (kf_update e (tr_kf t)) * energy_step)),
      tr_severity := tr_severity t'\<rparr>"
    using r c d by (auto simp: k Let_def)
  show "u = \<lparr>up_id = tr_id t, up_box = box, up_instant = e, up_smoothed = tr_smoothed t', up_cumulative = tr_cumulative t',
      up_severity = tr_severity t',
      up_frame_count = tr_frame_count t + 1, up_duration = pts - tr_start_pts t, up_is_new = False,
      up_escalated = (tr_severity t < tr_severity t')\<rparr>"
    using r c d by (auto simp: k v Let_def)
  show "tr_severity t' = classify_severity th (tr_cumulative t') (tr_smoothed t') (pts - tr_start_pts t)"
    using r c d by (auto simp: k v Let_def)
  show "sint (tr_frame_count t) < 2 ^ 31 - 1" by (rule c)
  show "sint (pts - tr_start_pts t) = sint pts - sint (tr_start_pts t)" using d v by (simp add: sub64_Ret_iff)
qed

text \<open>A hit is defined when the counter and the duration have room.\<close>

lemma record_hit_defined:
  assumes "sint (tr_frame_count t) < 2 ^ 31 - 1" "sub64 pts (tr_start_pts t) = Ret d"
  obtains t' u where "record_hit th pts box e t = Ret (t', u)"
proof -
  have "\<exists>r. record_hit th pts box e t = Ret r"
    using assms by (cases "kf_update e (tr_kf t)") (simp add: record_hit_def inc32_eq track_severity_def Let_def)
  then show ?thesis using that by auto
qed

lemma record_hit_fields:
  assumes "record_hit th pts box e t = Ret (t', u)"
  shows "tr_id t' = tr_id t" "tr_start_pts t' = tr_start_pts t" "tr_last_pts t' = pts" "tr_box t' = box"
    "tr_active t' = tr_active t" "tr_frame_count t' = tr_frame_count t + 1" "tr_kf t' = snd (kf_update e (tr_kf t))"
    "tr_smoothed t' = fst (kf_update e (tr_kf t))"
    "tr_cumulative t' = rnd64 (tr_cumulative t + rnd64 (tr_smoothed t' * energy_step))"
    "up_box u = box" "up_instant u = e"
  by (subst record_hit_Ret(1) [OF assms], simp)+ (simp_all add: record_hit_Ret(2) [OF assms])

lemma record_hit_cumulative:
  assumes "record_hit th pts box e t = Ret (t', u)" "track_ok t" "energy_ok e"
  shows "tr_cumulative t \<le> tr_cumulative t'"
proof -
  have "0 \<le> fst (kf_update e (tr_kf t))"
    using assms(2,3) by (intro kf_update_nonneg) (auto simp: track_ok_def energy_ok_def)
  then have "0 \<le> rnd64 (fst (kf_update e (tr_kf t)) * energy_step)"
    using energy_step_nonneg by (intro f64.nonneg mult_nonneg_nonneg)
  then show ?thesis
    using assms(2) by (simp add: record_hit_fields [OF assms(1)] track_ok_def f64.ge_repr)
qed

lemma record_hit_ok:
  assumes "record_hit th pts box e t = Ret (t', u)" "track_ok t" "energy_ok e"
  shows "track_ok t'"
proof -
  have "0 \<le> fst (kf_update e (tr_kf t))"
    using assms(2,3) by (intro kf_update_nonneg) (auto simp: track_ok_def energy_ok_def)
  then show ?thesis
    using assms(2,3) record_hit_cumulative [OF assms] kf_update_ok [of "tr_kf t" e] record_hit_fields [OF assms(1)]
    by (auto simp: track_ok_def energy_ok_def kf_update_fst)
qed

lemma track_default_kf: "kf_ok (tr_kf track_default)" "\<not> kf_initialized (tr_kf track_default)"
proof -
  have "rnd64 (1/100) = 5764607523034235 / 576460752303423488" "rnd64 (1/10) = 3602879701896397 / 36028797018963968"
    by code_simp+
  then show "kf_ok (tr_kf track_default)"
    using f64.idem [of "1/100"] f64.idem [of "1/10"]
    by (simp add: track_default_def kf_new_def kf_ok_def)
  show "\<not> kf_initialized (tr_kf track_default)" by (simp add: track_default_def kf_new_def)
qed

lemma new_track_fields [simp]:
  "tr_id (new_track i pts box e) = i" "tr_box (new_track i pts box e) = box"
  "tr_last_instant (new_track i pts box e) = e" "tr_start_pts (new_track i pts box e) = pts"
  "tr_last_pts (new_track i pts box e) = pts" "tr_active (new_track i pts box e)"
  by (simp_all add: new_track_def split: prod.split)

lemma new_track_ok:
  assumes "energy_ok e"
  shows "track_ok (new_track i pts box e)"
proof -
  have "0 \<le> fst (kf_update e (tr_kf track_default))"
    using assms track_default_kf by (intro kf_update_nonneg) (auto simp: energy_ok_def)
  then show ?thesis
    using assms kf_update_ok [OF track_default_kf(1), of e] energy_step_nonneg
    by (auto simp: new_track_def track_ok_def energy_ok_def kf_update_fst case_prod_beta
        intro!: f64.nonneg)
qed

end
