(* ===== verification/Tracker_Inv.thy ===== *)
theory Tracker_Inv
  imports Tracker
begin

text \<open>
  What the tracker guarantees from frame to frame: every detection is accounted for exactly once,
  track ids stay distinct, energies only grow and stay bounded, expiry moves exactly the stale tracks,
  and with times below \<open>2 ^ 62\<close> and room in the counters nothing overflows.
\<close>

section \<open>The matching loop\<close>

definition det_pairs :: "rect list \<Rightarrow> rat list \<Rightarrow> nat set \<Rightarrow> (rect \<times> rat) multiset" where
  "det_pairs dets energies D = image_mset (\<lambda>d. (dets ! d, energies ! d)) (mset_set D)"

definition upd_pair :: "track_update \<Rightarrow> rect \<times> rat" where
  "upd_pair u = (up_box u, up_instant u)"

lemma det_pairs_insert:
  "finite D \<Longrightarrow> d \<notin> D \<Longrightarrow> det_pairs dets energies (insert d D) = add_mset (dets ! d, energies ! d) (det_pairs dets energies D)"
  by (simp add: det_pairs_def)

lemma det_pairs_union:
  "finite A \<Longrightarrow> finite B \<Longrightarrow> A \<inter> B = {} \<Longrightarrow>
   det_pairs dets energies (A \<union> B) = det_pairs dets energies A + det_pairs dets energies B"
  by (simp add: det_pairs_def mset_set_Union)

text \<open>A step of the loop, in the two forms it takes.\<close>

definition claims_det :: "tracker \<Rightarrow> arc_track \<Rightarrow> rect list \<Rightarrow> bool list \<Rightarrow> nat \<Rightarrow> bool" where
  "claims_det lt track dets matched d \<longleftrightarrow>
     snd (best_match track dets matched) = Some d \<and> lt_iou_threshold lt \<le> fst (best_match track dets matched)"

lemma claims_det_free:
  "claims_det lt track dets matched d \<Longrightarrow> length matched = length dets \<Longrightarrow>
   d \<in> free_dets matched \<and> d < length dets"
  using best_match_Some [of track dets matched "fst (best_match track dets matched)" d]
  by (metis claims_det_def prod.collapse)

lemma match_tracks_hit:
  "claims_det lt track dets matched d \<Longrightarrow>
   match_tracks lt pts dets energies (track # tracks) matched =
     exec_bind (record_hit (lt_thresholds lt) pts (dets ! d) (energies ! d) track) (\<lambda>(track1, upd).
     exec_bind (match_tracks lt pts dets energies tracks (matched[d := True]))
       (\<lambda>(tracks1, matched1, upds). Ret (track1 # tracks1, matched1, upd # upds)))"
  by (cases "best_match track dets matched") (simp add: claims_det_def)

lemma match_tracks_miss:
  "(\<And>d. \<not> claims_det lt track dets matched d) \<Longrightarrow>
   match_tracks lt pts dets energies (track # tracks) matched =
     exec_bind (match_tracks lt pts dets energies tracks matched)
       (\<lambda>(tracks1, matched1, upds). Ret (track # tracks1, matched1, upds))"
  by (cases "best_match track dets matched")
    (auto simp: claims_det_def split: option.split)

declare match_tracks.simps(2) [simp del]

lemma match_tracks_cases [case_names hit miss]:
  assumes "\<And>d. claims_det lt track dets matched d \<Longrightarrow> P"
    and "(\<And>d. \<not> claims_det lt track dets matched d) \<Longrightarrow> P"
  shows P
  using assms by blast

text \<open>Induction over a run of the loop that is defined.\<close>

lemma match_tracks_induct [consumes 1, case_names Nil hit miss]:
  assumes "match_tracks lt pts dets energies ts m = Ret (ts', m', us)"
    and nil: "\<And>m. P [] m [] m []"
    and hit: "\<And>t ts m d t1 u ts' m' us. claims_det lt t dets m d \<Longrightarrow>
      record_hit (lt_thresholds lt) pts (dets ! d) (energies ! d) t = Ret (t1, u) \<Longrightarrow>
      P ts (m[d := True]) ts' m' us \<Longrightarrow> P (t # ts) m (t1 # ts') m' (u # us)"
    and miss: "\<And>t ts m ts' m' us. (\<And>d. \<not> claims_det lt t dets m d) \<Longrightarrow>
      P ts m ts' m' us \<Longrightarrow> P (t # ts) m (t # ts') m' us"
  shows "P ts m ts' m' us"
  using assms(1)
proof (induction ts arbitrary: m ts' m' us)
  case Nil
  then show ?case using nil by simp
next
  case (Cons t ts)
  show ?case
  proof (rule match_tracks_cases [of lt t dets m])
    fix d assume c: "claims_det lt t dets m d"
    then show ?thesis
      using Cons.prems Cons.IH hit [OF c]
      by (auto simp: match_tracks_hit [OF c] exec_bind_Ret_iff)
  next
    assume c: "\<And>d. \<not> claims_det lt t dets m d"
    then show ?thesis
      using Cons.prems Cons.IH miss [OF c]
      by (auto simp: match_tracks_miss [OF c] exec_bind_Ret_iff)
  qed
qed

lemma match_tracks_length:
  "match_tracks lt pts dets energies ts m = Ret (ts', m', us) \<Longrightarrow> length ts' = length ts \<and> length m' = length m"
  by (induction rule: match_tracks_induct) simp_all

lemma match_tracks_pairs:
  assumes "match_tracks lt pts dets energies ts m = Ret (ts', m', us)" "length m = length dets"
  shows "free_dets m' \<subseteq> free_dets m \<and>
     image_mset upd_pair (mset us) = det_pairs dets energies (free_dets m - free_dets m')"
  using assms
proof (induction rule: match_tracks_induct)
  case (Nil m)
  show ?case by (simp add: det_pairs_def)
next
  case (hit t ts m d t1 u ts' m' us)
  have d: "d \<in> free_dets m" "d < length dets"
    using claims_det_free [OF hit.hyps(1)] hit.prems by auto
  have fr: "free_dets (m[d := True]) = free_dets m - {d}"
    using d hit.prems by (simp add: free_dets_update)
  have sub: "free_dets m' \<subseteq> free_dets m - {d}"
    and pairs: "image_mset upd_pair (mset us) = det_pairs dets energies (free_dets m - {d} - free_dets m')"
    using hit.IH hit.prems by (simp_all add: fr)
  have "free_dets m - free_dets m' = insert d (free_dets m - {d} - free_dets m')"
    using d sub by blast
  moreover have "upd_pair u = (dets ! d, energies ! d)"
    using record_hit_fields(10,11) [OF hit.hyps(2)] by (simp add: upd_pair_def)
  ultimately show ?case using sub pairs by (auto simp: det_pairs_insert)
qed simp

lemma match_tracks_step:
  assumes "match_tracks lt pts dets energies ts m = Ret (ts', m', us)" "length m = length dets" "list_all P ts"
    and "\<And>t d t1 u. P t \<Longrightarrow> d < length dets \<Longrightarrow>
      record_hit (lt_thresholds lt) pts (dets ! d) (energies ! d) t = Ret (t1, u) \<Longrightarrow> R t t1"
    and "\<And>t. P t \<Longrightarrow> R t t"
  shows "list_all2 R ts ts'"
  using assms(1-3)
proof (induction rule: match_tracks_induct)
  case (hit t ts m d t1 u ts' m' us)
  then have "R t t1" using claims_det_free [OF hit.hyps(1)] assms(4) [OF _ _ hit.hyps(2)] by simp
  then show ?case using hit by simp
qed (use assms(5) in simp_all)

section \<open>Opening tracks\<close>

text \<open>The tracks of the unmatched detections, with consecutive ids.\<close>

definition opened_tracks :: "i64 \<Rightarrow> rect list \<Rightarrow> rat list \<Rightarrow> i32 \<Rightarrow> nat list \<Rightarrow> arc_track list" where
  "opened_tracks pts dets energies n ds =
     map (\<lambda>(i, d). new_track (n + of_nat i) pts (dets ! d) (energies ! d)) (enumerate 0 ds)"

lemma opened_tracks_Cons:
  "opened_tracks pts dets energies n (d # ds) =
   new_track n pts (dets ! d) (energies ! d) # opened_tracks pts dets energies (n + 1) ds"
  by (simp add: opened_tracks_def enumerate_Suc_eq split_beta comp_def algebra_simps)

lemma open_tracks_eq:
  defines "free \<equiv> (\<lambda>m ds. filter (\<lambda>d. \<not> m ! d) ds)"
  shows "open_tracks pts dets energies m ds n =
    (if free m ds = [] \<or> sint n + int (length (free m ds)) < 2 ^ 31
     then Ret (opened_tracks pts dets energies n (free m ds), n + of_nat (length (free m ds))) else UB)"
proof (induction ds arbitrary: n)
  case Nil
  show ?case by (simp add: free_def opened_tracks_def)
next
  case (Cons d ds)
  show ?case
  proof (cases "m ! d \<or> 2 ^ 31 - 1 \<le> sint n")
    case True
    then show ?thesis using Cons by (auto simp: free_def inc32_eq)
  next
    case False
    then have "sint (n + 1) = sint n + 1" by (intro sint_inc_i32) simp
    then show ?thesis using False Cons [of "n + 1"] by (auto simp: free_def inc32_eq opened_tracks_Cons algebra_simps)
  qed
qed

lemma opened_tracks_length [simp]: "length (opened_tracks pts dets energies n ds) = length ds"
  by (simp add: opened_tracks_def)

lemma opened_tracks_in:
  assumes "t \<in> set (opened_tracks pts dets energies n ds)"
  obtains i where "i < length ds" "t = new_track (n + of_nat i) pts (dets ! (ds ! i)) (energies ! (ds ! i))"
  using assms by (auto simp: opened_tracks_def in_set_enumerate_eq)

lemma opened_tracks_ids:
  "map tr_id (opened_tracks pts dets energies n ds) = map (\<lambda>i. n + of_nat i) [0..<length ds]"
  by (rule nth_equalityI) (simp_all add: opened_tracks_def nth_enumerate_eq split_beta)

lemma opened_tracks_pairs:
  assumes "length m = length dets"
  shows "image_mset (\<lambda>t. (tr_box t, tr_last_instant t))
      (mset (opened_tracks pts dets energies n (filter (\<lambda>d. \<not> m ! d) [0..<length dets]))) =
    det_pairs dets energies (free_dets m)"
proof -
  have eq: "map (\<lambda>(i, d). (dets ! d, energies ! d)) (enumerate k xs) = map (\<lambda>d. (dets ! d, energies ! d)) xs"
    for k and xs :: "nat list"
    by (induction xs arbitrary: k) simp_all
  have fr: "mset_set (free_dets m) = mset (filter (\<lambda>d. \<not> m ! d) [0..<length dets])"
  proof -
    have "set (filter (\<lambda>d. \<not> m ! d) [0..<length dets]) = free_dets m"
      using assms by (auto simp: free_dets_def)
    then show ?thesis using mset_set_set [of "filter (\<lambda>d. \<not> m ! d) [0..<length dets]"] by simp
  qed
  have c: "(\<lambda>t. (tr_box t, tr_last_instant t)) \<circ> (\<lambda>(i, d). new_track (n + of_nat i) pts (dets ! d) (energies ! d)) =
      (\<lambda>(i :: nat, d). (dets ! d, energies ! d))"
    by (simp add: fun_eq_iff)
  show ?thesis
    unfolding mset_map [symmetric] opened_tracks_def det_pairs_def fr map_map c by (simp add: eq)
qed

section \<open>Ids\<close>

text \<open>
  The invariant of a tracker: ids are positive, distinct over both lists and below the next free
  id; active tracks hold a sound filter and nonnegative energies; completed tracks are inactive
  and no more than the configured number.
\<close>

definition tracker_inv :: "tracker \<Rightarrow> bool" where
  "tracker_inv lt \<longleftrightarrow>
     distinct (map tr_id (lt_active lt @ lt_completed lt)) \<and> 0 < sint (lt_next_id lt) \<and>
     (\<forall>i \<in> tr_id ` set (lt_active lt @ lt_completed lt). 0 < sint i \<and> sint i < sint (lt_next_id lt)) \<and>
     list_all track_ok (lt_active lt) \<and> list_all (\<lambda>t. \<not> tr_active t) (lt_completed lt) \<and>
     length (lt_completed lt) \<le> unat (scast (lt_max_tracks lt) :: u64)"

lemma list_all2_ids: "list_all2 (\<lambda>t t'. tr_id t' = tr_id t \<and> S t t') ts ts' \<Longrightarrow> map tr_id ts' = map tr_id ts"
  by (induction rule: list_all2_induct) simp_all

lemma list_all2_right: "list_all2 (\<lambda>t t'. S t t' \<and> P t') ts ts' \<Longrightarrow> list_all P ts'"
  by (induction rule: list_all2_induct) simp_all

text \<open>What a frame does to an active track.\<close>

definition track_step :: "arc_track \<Rightarrow> arc_track \<Rightarrow> bool" where
  "track_step t t' \<longleftrightarrow> tr_id t' = tr_id t \<and> tr_start_pts t' = tr_start_pts t \<and>
     tr_cumulative t \<le> tr_cumulative t' \<and> track_ok t'"

lemma match_tracks_track_step:
  assumes "match_tracks lt pts dets energies ts m = Ret (ts', m', us)" "length m = length dets"
    "list_all track_ok ts" "list_all energy_ok energies" "length dets \<le> length energies"
  shows "list_all2 track_step ts ts'"
proof (rule match_tracks_step [OF assms(1-3)])
  fix t d t1 u
  assume "track_ok t" "d < length dets" and h: "record_hit (lt_thresholds lt) pts (dets ! d) (energies ! d) t = Ret (t1, u)"
  moreover have "energy_ok (energies ! d)" using assms(4,5) \<open>d < length dets\<close> by (simp add: list_all_length)
  ultimately show "track_step t t1"
    using record_hit_ok [OF h] record_hit_cumulative [OF h] record_hit_fields [OF h] by (simp add: track_step_def)
qed (simp add: track_step_def)

text \<open>What an update that is defined is made of.\<close>

lemma lt_update_parts:
  assumes "lt_update pts dets energies lt = Ret (lt', upds)"
  obtains ts m us ds where
    "length dets \<le> length energies" "length m = length dets"
    "match_tracks lt pts dets energies (lt_active lt) (replicate (length dets) False) = Ret (ts, m, us)"
    "ds = filter (\<lambda>d. \<not> m ! d) [0..<length dets]" "ds = [] \<or> sint (lt_next_id lt) + int (length ds) < 2 ^ 31"
    "lt' = lt\<lparr>lt_active := ts @ opened_tracks pts dets energies (lt_next_id lt) ds,
       lt_next_id := lt_next_id lt + of_nat (length ds)\<rparr>"
    "upds = us @ map new_update (opened_tracks pts dets energies (lt_next_id lt) ds)"
proof -
  obtain ts m us where mt:
    "match_tracks lt pts dets energies (lt_active lt) (replicate (length dets) False) = Ret (ts, m, us)"
    using assms by (auto simp: lt_update_def exec_bind_Ret_iff split: if_splits)
  have "length m = length dets" using match_tracks_length [OF mt] by simp
  then show ?thesis
    using assms that [OF _ _ mt refl] by (auto simp: lt_update_def mt open_tracks_eq split: if_splits)
qed

lemma opened_tracks_ok:
  "\<forall>d \<in> set ds. energy_ok (energies ! d) \<Longrightarrow> list_all track_ok (opened_tracks pts dets energies n ds)"
  by (auto simp: list_all_iff elim!: opened_tracks_in intro: new_track_ok)

text \<open>
  A tracker with one active track (one earlier detection), the thresholds of the engine, and the
  next frame: the same box, moved a little, and a new one.
\<close>

definition box_a :: rect where "box_a = \<lparr>rx1 = 10, ry1 = 10, rx2 = 30, ry2 = 30\<rparr>"
definition box_b :: rect where "box_b = \<lparr>rx1 = 12, ry1 = 10, rx2 = 32, ry2 = 30\<rparr>"
definition box_c :: rect where "box_c = \<lparr>rx1 = 100, ry1 = 50, rx2 = 120, ry2 = 80\<rparr>"

definition lt_demo :: tracker where
  "lt_demo = (lt_new default_thresholds (rnd64 (3/10)) 500000000 1000)
     \<lparr>lt_next_id := 2, lt_active := [new_track 1 0 box_a 100]\<rparr>"

lemma energy_ok_numeral [simp]: "numeral n < (2 ^ 53 :: nat) \<Longrightarrow> energy_ok (numeral n)"
  by (simp add: energy_ok_def)

lemma lt_demo_inv: "tracker_inv lt_demo"
  by (simp add: tracker_inv_def lt_demo_def lt_new_def new_track_ok)

text \<open>
  Sizes. Times are below \<open>2 ^ 62\<close> in magnitude, so that their differences are defined; a track of
  \<open>n\<close> frames has an estimate of at most \<open>2 ^ 31 * n\<close> and an energy of at most \<open>2 ^ 62 * n\<close>.
\<close>

definition time_ok :: "i64 \<Rightarrow> bool" where
  "time_ok t \<longleftrightarrow> \<bar>sint t\<bar> < 2 ^ 62"

definition track_bounded :: "arc_track \<Rightarrow> bool" where
  "track_bounded t \<longleftrightarrow> time_ok (tr_start_pts t) \<and> time_ok (tr_last_pts t) \<and> 1 \<le> sint (tr_frame_count t) \<and>
     tr_smoothed t \<le> 2 ^ 31 * of_int (sint (tr_frame_count t)) \<and>
     tr_cumulative t \<le> 2 ^ 62 * of_int (sint (tr_frame_count t))"

text \<open>Room in the 32-bit counters for \<open>k\<close> more detections.\<close>

definition tracker_room :: "nat \<Rightarrow> tracker \<Rightarrow> bool" where
  "tracker_room k lt \<longleftrightarrow> sint (lt_next_id lt) + int k < 2 ^ 31 \<and>
     (\<forall>t \<in> set (lt_active lt). sint (tr_frame_count t) + int k < 2 ^ 31)"

lemma tracker_room_less: "tracker_room k lt \<Longrightarrow> j \<le> k \<Longrightarrow> tracker_room j lt"
  by (fastforce simp: tracker_room_def)

lemma sub64_times: "time_ok a \<Longrightarrow> time_ok b \<Longrightarrow> sub64 a b = Ret (a - b)"
  by (rule sub64_Ret) (simp_all add: time_ok_def)

lemma match_tracks_total:
  assumes "\<forall>t \<in> set ts. sint (tr_frame_count t) < 2 ^ 31 - 1 \<and> time_ok (tr_start_pts t)" "time_ok pts"
  obtains ts' m' us where "match_tracks lt pts dets energies ts m = Ret (ts', m', us)"
proof -
  have "\<exists>r. match_tracks lt pts dets energies ts m = Ret r"
    using assms(1)
  proof (induction ts arbitrary: m)
    case (Cons t ts)
    show ?case
    proof (rule match_tracks_cases [of lt t dets m])
      fix d assume c: "claims_det lt t dets m d"
      obtain t1 u where "record_hit (lt_thresholds lt) pts (dets ! d) (energies ! d) t = Ret (t1, u)"
        using record_hit_defined sub64_times [OF assms(2)] Cons.prems by (metis list.set_intros(1))
      moreover obtain r where "match_tracks lt pts dets energies ts (m[d := True]) = Ret r"
        using Cons by fastforce
      ultimately show ?thesis by (simp add: match_tracks_hit [OF c] split: prod.split)
    next
      assume c: "\<And>d. \<not> claims_det lt t dets m d"
      obtain r where "match_tracks lt pts dets energies ts m = Ret r" using Cons by fastforce
      then show ?thesis by (simp add: match_tracks_miss [OF c] split: prod.split)
    qed
  qed simp
  then show ?thesis using that by auto
qed

lemma match_tracks_none: "match_tracks lt pts [] energies ts [] = Ret (ts, [], [])"
  by (induction ts) (simp_all add: match_tracks_miss claims_det_def best_match_def)

lemma lt_update_none: "lt_update pts [] [] lt = Ret (lt, [])"
  by (simp add: lt_update_def match_tracks_none)

text \<open>With bounded times and room an update is defined.\<close>

lemma lt_update_total:
  assumes "length dets \<le> length energies" "list_all track_bounded (lt_active lt)" "time_ok pts"
    "tracker_room (length dets) lt"
  obtains lt' upds where "lt_update pts dets energies lt = Ret (lt', upds)"
proof -
  obtain ts m us where mt:
    "match_tracks lt pts dets energies (lt_active lt) (replicate (length dets) False) = Ret (ts, m, us)"
  proof (cases "dets = []")
    case True
    then show ?thesis
      using that match_tracks_none [of lt pts energies "lt_active lt"] by simp
  next
    case False
    then have "1 \<le> length dets" by (cases dets) simp_all
    then have "\<forall>t \<in> set (lt_active lt). sint (tr_frame_count t) < 2 ^ 31 - 1 \<and> time_ok (tr_start_pts t)"
      using assms(2,4) by (fastforce simp: tracker_room_def track_bounded_def list_all_iff)
    then show ?thesis using that match_tracks_total assms(3) by metis
  qed
  let ?ds = "filter (\<lambda>d. \<not> m ! d) [0..<length dets]"
  have "length ?ds \<le> length dets" using length_filter_le [of "\<lambda>d. \<not> m ! d" "[0..<length dets]"] by simp
  then have "sint (lt_next_id lt) + int (length ?ds) < 2 ^ 31" using assms(4) by (simp add: tracker_room_def)
  then show ?thesis
    using that assms(1) mt by (simp add: lt_update_def open_tracks_eq)
qed

text \<open>A hit and a new track stay bounded.\<close>

lemma energy_step_le: "energy_step \<le> 1"
  unfolding energy_step_def by (rule f64.le_repr) simp_all

lemma energy_gain:
  assumes "0 \<le> x" "x \<le> 2 ^ 62"
  shows "0 \<le> rnd64 (x * energy_step)" "rnd64 (x * energy_step) \<le> 2 ^ 62"
proof -
  show "0 \<le> rnd64 (x * energy_step)" using assms energy_step_nonneg by (intro f64.nonneg) simp
  have "x * energy_step \<le> x" using assms energy_step_nonneg energy_step_le by (rule_tac mult_right_le_one_le)
  then show "rnd64 (x * energy_step) \<le> 2 ^ 62"
    using assms(2) rnd64_scaled [of 1 62] by (intro f64.le_repr) simp_all
qed

lemma count_le: "\<bar>sint (n :: i32)\<bar> \<le> 2 ^ 53"
  using sint_ge [of n] sint_lt [of n] by (simp add: abs_le_iff)

lemma record_hit_bounded:
  assumes "record_hit th pts box e t = Ret (t', u)" "track_ok t" "track_bounded t" "energy_ok e" "e \<le> 2 ^ 31" "time_ok pts"
  shows "track_bounded t'"
proof -
  note f = record_hit_fields [OF assms(1)]
  define n where "n = sint (tr_frame_count t)"
  have n: "1 \<le> n" "n < 2 ^ 31 - 1" "sint (tr_frame_count t') = n + 1"
    using assms(3) record_hit_Ret(4) [OF assms(1)] f(6) by (simp_all add: n_def track_bounded_def sint_inc_i32)
  let ?C = "2 ^ 31 * of_int n :: rat"
  have c: "?C + 2 ^ 31 = 2 ^ 31 * of_int (n + 1)" by (simp add: algebra_simps)
  have "tr_smoothed t' \<le> ?C + 2 ^ 31"
    unfolding f(8)
  proof (rule kf_update_le)
    show "rnd64 (?C + 2 ^ 31) = ?C + 2 ^ 31" unfolding c using n by (intro rnd64_scaled) simp
    show "0 \<le> kf_predict (tr_kf t) \<and> kf_predict (tr_kf t) \<le> ?C"
      using assms(2,3) by (simp add: track_ok_def track_bounded_def n_def)
  qed (use assms(2,5) n(1) in \<open>simp_all add: track_ok_def\<close>)
  then have s: "tr_smoothed t' \<le> 2 ^ 31 * of_int (n + 1)" using c by simp
  have "0 \<le> tr_smoothed t'" using record_hit_ok [OF assms(1,2,4)] by (simp add: track_ok_def)
  moreover have "(of_int (n + 1) :: rat) \<le> of_int (2 ^ 31)" using n(2) by (simp only: of_int_le_iff)
  then have "2 ^ 31 * of_int (n + 1) \<le> (2 ^ 62 :: rat)" by simp
  ultimately have g: "rnd64 (tr_smoothed t' * energy_step) \<le> 2 ^ 62" using s by (intro energy_gain(2)) simp_all
  have "rnd64 (2 ^ 62 * of_int (n + 1)) = 2 ^ 62 * of_int (n + 1)" using n by (intro rnd64_scaled) simp
  moreover have "tr_cumulative t + rnd64 (tr_smoothed t' * energy_step) \<le> 2 ^ 62 * of_int (n + 1)"
    using g assms(3) by (simp add: track_bounded_def n_def algebra_simps)
  ultimately have "tr_cumulative t' \<le> 2 ^ 62 * of_int (n + 1)" unfolding f(9) by (intro f64.le_repr)
  then show ?thesis using s n assms(3,6) f(2,3) by (simp add: track_bounded_def)
qed

lemma new_track_energies:
  "tr_smoothed (new_track i pts box e) = e" "tr_cumulative (new_track i pts box e) = rnd64 (e * energy_step)"
  "tr_frame_count (new_track i pts box e) = 1"
  by (simp_all add: new_track_def kf_update_def kf_init_def Let_def track_default_kf)

lemma new_track_bounded:
  assumes "energy_ok e" "e \<le> 2 ^ 31" "time_ok pts"
  shows "track_bounded (new_track i pts box e)"
  using assms energy_gain(2) [of e] by (simp add: track_bounded_def new_track_energies energy_ok_def)

lemma lt_update_bounded:
  assumes "lt_update pts dets energies lt = Ret (lt', upds)" "tracker_inv lt" "list_all track_bounded (lt_active lt)"
    "list_all (\<lambda>e. energy_ok e \<and> e \<le> 2 ^ 31) energies" "time_ok pts"
  shows "list_all track_bounded (lt_active lt')"
proof -
  obtain ts m us ds where p: "length dets \<le> length energies" "length m = length dets"
    "match_tracks lt pts dets energies (lt_active lt) (replicate (length dets) False) = Ret (ts, m, us)"
    "ds = filter (\<lambda>d. \<not> m ! d) [0..<length dets]"
    and lt': "lt_active lt' = ts @ opened_tracks pts dets energies (lt_next_id lt) ds"
    by (rule lt_update_parts [OF assms(1)]) simp
  have e: "energy_ok (energies ! d) \<and> energies ! d \<le> 2 ^ 31" if "d < length dets" for d
    using assms(4) p(1) that by (simp add: list_all_length)
  have "list_all2 (\<lambda>t t'. track_bounded t') (lt_active lt) ts"
  proof (rule match_tracks_step [OF p(3), where P = "\<lambda>t. track_ok t \<and> track_bounded t"])
    show "list_all (\<lambda>t. track_ok t \<and> track_bounded t) (lt_active lt)"
      using assms(2,3) by (simp add: tracker_inv_def list_all_iff)
  qed (use e assms(5) record_hit_bounded in \<open>auto\<close>)
  then have "list_all track_bounded ts" by (auto simp: list_all2_conv_all_nth list_all_length)
  moreover have "list_all track_bounded (opened_tracks pts dets energies (lt_next_id lt) ds)"
    unfolding list_all_iff
  proof
    fix t assume "t \<in> set (opened_tracks pts dets energies (lt_next_id lt) ds)"
    then obtain i where i: "i < length ds" "t = new_track (lt_next_id lt + of_nat i) pts (dets ! (ds ! i)) (energies ! (ds ! i))"
      by (rule opened_tracks_in)
    have "ds ! i \<in> set ds" using i(1) by simp
    then have "ds ! i < length dets" by (auto simp: p(4))
    then show "track_bounded t" using i(2) e assms(5) new_track_bounded by blast
  qed
  ultimately show ?thesis by (simp add: lt')
qed

text \<open>An update takes no more of the counters than there are detections.\<close>

lemma lt_update_room:
  assumes "lt_update pts dets energies lt = Ret (lt', upds)" "0 < sint (lt_next_id lt)" "tracker_room (length dets + k) lt"
  shows "tracker_room k lt'"
proof -
  obtain ts m us ds where p: "length m = length dets"
    "match_tracks lt pts dets energies (lt_active lt) (replicate (length dets) False) = Ret (ts, m, us)"
    "ds = filter (\<lambda>d. \<not> m ! d) [0..<length dets]"
    and lt': "lt_active lt' = ts @ opened_tracks pts dets energies (lt_next_id lt) ds"
      "lt_next_id lt' = lt_next_id lt + of_nat (length ds)"
    by (rule lt_update_parts [OF assms(1)]) simp
  have l: "length ds \<le> length dets" using length_filter_le [of "\<lambda>d. \<not> m ! d" "[0..<length dets]"] by (simp add: p(3))
  note room = assms(3) [unfolded tracker_room_def]
  have "list_all2 (\<lambda>t t'. sint (tr_frame_count t') + int k < 2 ^ 31) (lt_active lt) ts"
  proof (rule match_tracks_step [OF p(2), where P = "\<lambda>t. sint (tr_frame_count t) + int (length dets + k) < 2 ^ 31"])
    fix t d t1 u
    assume c: "sint (tr_frame_count t) + int (length dets + k) < 2 ^ 31" "d < length dets"
      and h: "record_hit (lt_thresholds lt) pts (dets ! d) (energies ! d) t = Ret (t1, u)"
    have "sint (tr_frame_count t1) = sint (tr_frame_count t) + 1"
      unfolding record_hit_fields(6) [OF h] by (rule sint_inc_i32 [OF record_hit_Ret(4) [OF h]])
    then show "sint (tr_frame_count t1) + int k < 2 ^ 31" using c by linarith
  qed (use room in \<open>auto simp: list_all_iff\<close>)
  then have "\<forall>t \<in> set ts. sint (tr_frame_count t) + int k < 2 ^ 31"
    by (auto simp: list_all2_conv_all_nth in_set_conv_nth)
  moreover have "sint (tr_frame_count t) + int k < 2 ^ 31"
    if "t \<in> set (opened_tracks pts dets energies (lt_next_id lt) ds)" for t
  proof -
    obtain i where i: "i < length ds" "t = new_track (lt_next_id lt + of_nat i) pts (dets ! (ds ! i)) (energies ! (ds ! i))"
      by (rule opened_tracks_in [OF \<open>t \<in> _\<close>])
    then have "1 \<le> length dets" using l by linarith
    then show ?thesis using i(2) room assms(2) by (simp add: new_track_energies)
  qed
  moreover have "sint (lt_next_id lt') + int k < 2 ^ 31"
    using room l by (simp add: lt'(2) sint_add_nat_i32)
  ultimately show ?thesis by (auto simp: tracker_room_def lt'(1))
qed

lemma lt_demo_bounded: "list_all track_bounded (lt_active lt_demo)" "tracker_room 2 lt_demo"
proof -
  have "track_bounded (new_track 1 0 box_a 100)" by (rule new_track_bounded) (simp_all add: time_ok_def)
  then show "list_all track_bounded (lt_active lt_demo)" "tracker_room 2 lt_demo"
    by (simp_all add: lt_demo_def lt_new_def tracker_room_def new_track_energies)
qed

lemma lt_demo_update:
  "\<exists>lt' upds. lt_update 33000000 [box_b, box_c] [150, 8] lt_demo = Ret (lt', upds)"
  by (rule lt_update_total [of "[box_b, box_c]" "[150, 8]" lt_demo 33000000])
    (use lt_demo_bounded in \<open>auto simp: time_ok_def numeral_2_eq_2\<close>)

lemma lt_update_pairs:
  assumes "lt_update pts dets energies lt = Ret (lt', upds)"
  shows "mset (map upd_pair upds) = mset (zip dets energies)"
proof -
  obtain ts m us ds where p: "length dets \<le> length energies" "length m = length dets"
    "match_tracks lt pts dets energies (lt_active lt) (replicate (length dets) False) = Ret (ts, m, us)"
    "ds = filter (\<lambda>d. \<not> m ! d) [0..<length dets]"
    and u: "upds = us @ map new_update (opened_tracks pts dets energies (lt_next_id lt) ds)"
    by (rule lt_update_parts [OF assms])
  have all: "free_dets (replicate (length dets) False) = {0..<length dets}"
    by (auto simp: free_dets_def)
  have us: "free_dets m \<subseteq> {0..<length dets}"
    "image_mset upd_pair (mset us) = det_pairs dets energies ({0..<length dets} - free_dets m)"
    using match_tracks_pairs [OF p(3)] by (simp_all add: all)
  have new: "upd_pair \<circ> new_update = (\<lambda>t. (tr_box t, tr_last_instant t))"
    by (simp add: fun_eq_iff upd_pair_def new_update_def)
  have "image_mset upd_pair (mset upds) =
      det_pairs dets energies ({0..<length dets} - free_dets m) + det_pairs dets energies (free_dets m)"
    by (simp add: u us(2) image_mset.compositionality new p(4) opened_tracks_pairs [OF p(2)])
  also have "\<dots> = det_pairs dets energies {0..<length dets}"
    using us(1) det_pairs_union [of "{0..<length dets} - free_dets m" "free_dets m" dets energies]
    by (simp add: Un_absorb2 Int_commute)
  also have "\<dots> = mset (map (\<lambda>d. (dets ! d, energies ! d)) [0..<length dets])"
    by (simp add: det_pairs_def)
  also have "map (\<lambda>d. (dets ! d, energies ! d)) [0..<length dets] = zip dets energies"
    using p(1) by (intro nth_equalityI) simp_all
  finally show ?thesis by simp
qed

text \<open>
  C3. Every detection of a frame is accounted for exactly once: the boxes and energies of the
  reported updates are, as a multiset, the detections with their energies.
\<close>

theorem update_accounts_every_detection:
  assumes "lt_update pts dets energies lt = Ret (lt', upds)"
  shows "mset (map (\<lambda>u. (up_box u, up_instant u)) upds) = mset (zip dets energies)"
  using lt_update_pairs [OF assms] by (simp add: upd_pair_def [abs_def])

theorem update_accounts_every_detection_witness:
  "\<exists>lt' upds. lt_update 33000000 [box_b, box_c] [150, 8] lt_demo = Ret (lt', upds) \<and>
     mset (map (\<lambda>u. (up_box u, up_instant u)) upds) = {#(box_b, 150), (box_c, 8)#}"
  using lt_demo_update update_accounts_every_detection [of 33000000 "[box_b, box_c]" "[150, 8]" lt_demo]
  by fastforce

lemma lt_update_inv:
  assumes "lt_update pts dets energies lt = Ret (lt', upds)" "tracker_inv lt" "list_all energy_ok energies"
  shows "tracker_inv lt'"
proof -
  obtain ts m us ds where p: "length dets \<le> length energies" "length m = length dets"
    "match_tracks lt pts dets energies (lt_active lt) (replicate (length dets) False) = Ret (ts, m, us)"
    "ds = filter (\<lambda>d. \<not> m ! d) [0..<length dets]" "ds = [] \<or> sint (lt_next_id lt) + int (length ds) < 2 ^ 31"
    and lt': "lt' = lt\<lparr>lt_active := ts @ opened_tracks pts dets energies (lt_next_id lt) ds,
       lt_next_id := lt_next_id lt + of_nat (length ds)\<rparr>"
    by (rule lt_update_parts [OF assms(1)])
  define k where "k = length ds"
  define n where "n = lt_next_id lt"
  note inv = assms(2) [unfolded tracker_inv_def, folded n_def]
  have kn: "0 < sint n" "sint n + int k < 2 ^ 31"
    using inv p(5) sint_lt [of n] by (auto simp: n_def k_def)
  have step: "list_all2 track_step (lt_active lt) ts"
    using match_tracks_track_step [OF p(3)] inv assms(3) p(1) by simp
  have ids: "map tr_id ts = map tr_id (lt_active lt)"
    by (rule list_all2_ids [OF list_all2_mono [OF step]]) (simp add: track_step_def)
  have oks: "list_all track_ok ts"
    by (rule list_all2_right [OF list_all2_mono [OF step]]) (simp add: track_step_def)
  have fresh: "i < k \<Longrightarrow> sint (n + of_nat i) = sint n + int i" for i
    using kn by (intro sint_add_nat_i32) simp_all
  have inj: "inj_on (\<lambda>i. n + of_nat i) {0..<k}"
    by (rule inj_onI) (metis atLeastLessThan_iff add_left_cancel fresh of_nat_eq_iff)
  have succ: "sint (n + of_nat k) = sint n + int k"
    using kn by (intro sint_add_nat_i32) simp_all
  let ?new = "opened_tracks pts dets energies n ds"
  have new_ok: "list_all track_ok ?new"
    using assms(3) p(1) by (intro opened_tracks_ok) (auto simp: p(4) list_all_length)
  have new_ids: "map tr_id ?new = map (\<lambda>i. n + of_nat i) [0..<k]"
    by (simp add: opened_tracks_ids k_def)
  have new_ge: "i \<in> tr_id ` set ?new \<Longrightarrow> sint n \<le> sint i \<and> sint i < sint n + int k" for i
    using arg_cong [OF new_ids, of set] by (auto simp: fresh)
  have act: "map tr_id (lt_active lt') = map tr_id (lt_active lt) @ map tr_id ?new"
    by (simp add: lt' ids n_def)
  have same: "lt_completed lt' = lt_completed lt" "lt_max_tracks lt' = lt_max_tracks lt"
    "lt_next_id lt' = n + of_nat k"
    by (simp_all add: lt' n_def k_def)
  have bound: "i \<in> tr_id ` set (lt_active lt @ lt_completed lt) \<Longrightarrow> 0 < sint i \<and> sint i < sint n" for i
    using inv by blast
  show ?thesis
    unfolding tracker_inv_def same succ
  proof (intro conjI)
    have "distinct (map tr_id ?new)"
      unfolding new_ids using inj by (simp add: distinct_map)
    moreover have "tr_id ` set ?new \<inter> tr_id ` set (lt_active lt @ lt_completed lt) = {}"
      using bound new_ge by (meson disjoint_iff not_le)
    ultimately show "distinct (map tr_id (lt_active lt' @ lt_completed lt))"
      using inv unfolding map_append act by auto
    show "\<forall>i \<in> tr_id ` set (lt_active lt' @ lt_completed lt). 0 < sint i \<and> sint i < sint n + int k"
    proof
      fix i assume "i \<in> tr_id ` set (lt_active lt' @ lt_completed lt)"
      then consider "i \<in> tr_id ` set (lt_active lt @ lt_completed lt)" | "i \<in> tr_id ` set ?new"
        using arg_cong [OF act, of set] by (auto simp: image_Un)
      then show "0 < sint i \<and> sint i < sint n + int k"
      proof cases
        case 1
        from bound [OF this] show ?thesis by linarith
      next
        case 2
        from new_ge [OF this] kn(1) show ?thesis by linarith
      qed
    qed
    show "list_all track_ok (lt_active lt')" using oks new_ok by (simp add: lt' n_def)
  qed (use inv kn in auto)
qed

text \<open>
  C13. A frame keeps the tracker's invariant: ids stay distinct and fresh, every active track keeps
  a sound filter.
\<close>

theorem update_keeps_tracker_inv:
  assumes "lt_update pts dets energies lt = Ret (lt', upds)" "tracker_inv lt" "list_all energy_ok energies"
  shows "tracker_inv lt'"
  using assms by (rule lt_update_inv)

theorem update_keeps_tracker_inv_witness:
  "\<exists>lt' upds. lt_update 33000000 [box_b, box_c] [150, 8] lt_demo = Ret (lt', upds) \<and> tracker_inv lt'"
proof -
  obtain lt' upds where "lt_update 33000000 [box_b, box_c] [150, 8] lt_demo = Ret (lt', upds)"
    using lt_demo_update by blast
  with update_keeps_tracker_inv [OF this lt_demo_inv] show ?thesis by simp
qed

section \<open>Growth of an active track\<close>

text \<open>
  C22. Over a frame every active track keeps its id and start time and its cumulative energy
  does not decrease; the tracks opened by the frame come after them.
\<close>

theorem update_never_loses_energy:
  assumes "lt_update pts dets energies lt = Ret (lt', upds)" "tracker_inv lt" "list_all energy_ok energies"
  shows "list_all2 (\<lambda>t t'. tr_id t' = tr_id t \<and> tr_start_pts t' = tr_start_pts t \<and>
             tr_cumulative t \<le> tr_cumulative t')
           (lt_active lt) (take (length (lt_active lt)) (lt_active lt'))"
proof -
  obtain ts m us where p: "length dets \<le> length energies" "length m = length dets"
    "match_tracks lt pts dets energies (lt_active lt) (replicate (length dets) False) = Ret (ts, m, us)"
    and lt': "take (length ts) (lt_active lt') = ts"
    by (rule lt_update_parts [OF assms(1)]) simp
  have step: "list_all2 track_step (lt_active lt) ts"
    using match_tracks_track_step [OF p(3)] assms(2,3) p(1) by (simp add: tracker_inv_def)
  then have "take (length (lt_active lt)) (lt_active lt') = ts"
    using lt' by (simp add: list_all2_lengthD)
  then show ?thesis
    using step by (auto simp: track_step_def elim: list_all2_mono)
qed

theorem update_never_loses_energy_witness:
  "\<exists>lt' upds. lt_update 33000000 [box_b, box_c] [150, 8] lt_demo = Ret (lt', upds) \<and>
     list_all2 (\<lambda>t t'. tr_id t' = tr_id t \<and> tr_start_pts t' = tr_start_pts t \<and>
             tr_cumulative t \<le> tr_cumulative t')
           (lt_active lt_demo) (take (length (lt_active lt_demo)) (lt_active lt'))"
proof -
  obtain lt' upds where "lt_update 33000000 [box_b, box_c] [150, 8] lt_demo = Ret (lt', upds)"
    using lt_demo_update by blast
  with update_never_loses_energy [OF this lt_demo_inv] show ?thesis by simp
qed

text \<open>
  What the update of a claimed track reports: the track goes on with one frame more, the filtered
  energy, the energy accumulated by a thirtieth of a second at the filtered power, and the severity of these.
\<close>

definition hit_update :: "tracker \<Rightarrow> i64 \<Rightarrow> arc_track \<Rightarrow> track_update \<Rightarrow> bool" where
  "hit_update lt pts t u \<longleftrightarrow> up_id u = tr_id t \<and> \<not> up_is_new u \<and>
     lt_iou_threshold lt \<le> compute_iou t (up_box u) \<and> 0 < compute_iou t (up_box u) \<and>
     sint (up_frame_count u) = sint (tr_frame_count t) + 1 \<and> sint (up_duration u) = sint pts - sint (tr_start_pts t) \<and>
     up_smoothed u = fst (kf_update (up_instant u) (tr_kf t)) \<and>
     up_cumulative u = rnd64 (tr_cumulative t + rnd64 (up_smoothed u * rnd64 (1 / 30))) \<and>
     up_severity u = classify_severity (lt_thresholds lt) (up_cumulative u) (up_smoothed u) (up_duration u) \<and>
     (up_escalated u \<longleftrightarrow> tr_severity t < up_severity u)"

text \<open>What the update of a new track reports.\<close>

definition opening_update :: "tracker \<Rightarrow> nat \<Rightarrow> track_update \<Rightarrow> bool" where
  "opening_update lt n u \<longleftrightarrow> up_is_new u \<and> up_frame_count u = 1 \<and> up_duration u = 0 \<and> \<not> up_escalated u \<and>
     up_severity u = LEVEL_1_MINOR_SPARK \<and> up_smoothed u = up_instant u \<and>
     up_cumulative u = rnd64 (up_instant u * rnd64 (1 / 30)) \<and>
     (\<exists>i<n. up_id u = lt_next_id lt + of_nat i)"

text \<open>The track that an update speaks of, afterwards.\<close>

definition reported_track :: "i64 \<Rightarrow> arc_track \<Rightarrow> track_update \<Rightarrow> bool" where
  "reported_track pts t u \<longleftrightarrow> tr_id t = up_id u \<and> tr_box t = up_box u \<and> tr_last_instant t = up_instant u \<and>
     tr_smoothed t = up_smoothed u \<and> tr_cumulative t = up_cumulative u \<and> tr_severity t = up_severity u \<and>
     tr_frame_count t = up_frame_count u \<and> tr_last_pts t = pts \<and> sint (up_duration u) = sint pts - sint (tr_start_pts t)"

lemma record_hit_update:
  assumes "claims_det lt t dets m d" "record_hit (lt_thresholds lt) pts (dets ! d) e t = Ret (t', u)"
  shows "hit_update lt pts t u" "reported_track pts t' u"
proof -
  note r = record_hit_Ret [OF assms(2)]
  have m: "lt_iou_threshold lt \<le> compute_iou t (dets ! d)" "0 < compute_iou t (dets ! d)"
    using assms(1) best_match_best [of t dets m]
    by (cases "best_match t dets m"; auto simp: claims_det_def best_of_def)+
  have u: "up_id u = tr_id t" "\<not> up_is_new u" "up_box u = dets ! d" "up_instant u = e" "up_smoothed u = tr_smoothed t'"
    "up_cumulative u = tr_cumulative t'" "up_severity u = tr_severity t'" "up_frame_count u = tr_frame_count t + 1"
    "up_duration u = pts - tr_start_pts t" "up_escalated u \<longleftrightarrow> tr_severity t < tr_severity t'"
    by (simp_all add: r(2))
  note f = record_hit_fields [OF assms(2)]
  show "hit_update lt pts t u"
    using m u f(8,9) r(3-5) sint_inc_i32 [OF r(4)] by (simp add: hit_update_def energy_step_def)
  have "tr_last_instant t' = e" by (subst r(1)) simp
  then show "reported_track pts t' u" using u f r(5) by (simp add: reported_track_def)
qed

lemma match_tracks_updates:
  "match_tracks lt pts dets energies ts m = Ret (ts', m', us) \<Longrightarrow>
   \<forall>u \<in> set us. (\<exists>t \<in> set ts. hit_update lt pts t u) \<and> (\<exists>t \<in> set ts'. reported_track pts t u)"
  by (induction rule: match_tracks_induct) (auto dest: record_hit_update)

lemma new_update_reports:
  assumes "i < n"
  shows "opening_update lt n (new_update (new_track (lt_next_id lt + of_nat i) pts box e))"
    "reported_track pts (new_track j pts box e) (new_update (new_track j pts box e))"
proof -
  let ?t = "\<lambda>j. new_track j pts box e"
  have "tr_severity (?t j) = LEVEL_1_MINOR_SPARK" for j by (simp add: new_track_def split_beta)
  then show "opening_update lt n (new_update (?t (lt_next_id lt + of_nat i)))" "reported_track pts (?t j) (new_update (?t j))"
    using assms by (auto simp: opening_update_def reported_track_def new_update_def new_track_energies energy_step_def)
qed

lemma lt_update_reports:
  assumes "lt_update pts dets energies lt = Ret (lt', upds)" "u \<in> set upds"
  shows "((\<exists>t \<in> set (lt_active lt). hit_update lt pts t u) \<or> opening_update lt (length dets) u) \<and>
     (\<exists>t \<in> set (lt_active lt'). reported_track pts t u)"
proof -
  obtain ts m us ds where p:
    "match_tracks lt pts dets energies (lt_active lt) (replicate (length dets) False) = Ret (ts, m, us)"
    "ds = filter (\<lambda>d. \<not> m ! d) [0..<length dets]"
    and lt': "lt_active lt' = ts @ opened_tracks pts dets energies (lt_next_id lt) ds"
    and u: "upds = us @ map new_update (opened_tracks pts dets energies (lt_next_id lt) ds)"
    by (rule lt_update_parts [OF assms(1)]) simp
  consider "u \<in> set us" | t where "t \<in> set (opened_tracks pts dets energies (lt_next_id lt) ds)" "u = new_update t"
    using assms(2) u by auto
  then show ?thesis
  proof cases
    case 1
    then show ?thesis using match_tracks_updates [OF p(1)] by (auto simp: lt')
  next
    case 2
    obtain i where i: "i < length ds" "t = new_track (lt_next_id lt + of_nat i) pts (dets ! (ds ! i)) (energies ! (ds ! i))"
      by (rule opened_tracks_in [OF 2(1)])
    have "length ds \<le> length dets" using length_filter_le [of "\<lambda>d. \<not> m ! d" "[0..<length dets]"] by (simp add: p(2))
    then have "i < length dets" using i(1) by simp
    moreover have "t \<in> set (lt_active lt')" using 2(1) by (simp add: lt')
    ultimately show ?thesis using new_update_reports 2(2) i(2) by blast
  qed
qed

text \<open>
  C21. An update of a frame either continues an active track whose last box overlaps the
  detection by at least the threshold, with one frame more, the filtered energy, the old total plus
  the filtered energy over a thirtieth of a second, and the severity of the new totals (escalated exactly when it
  rose); or it opens a track with a fresh id, one frame, no duration, the first total and the lowest severity.
  Either way an active track holds exactly what was reported.
\<close>

theorem update_reports:
  assumes "lt_update pts dets energies lt = Ret (lt', upds)" "u \<in> set upds"
  shows "((\<exists>t \<in> set (lt_active lt). hit_update lt pts t u) \<or> opening_update lt (length dets) u) \<and>
     (\<exists>t \<in> set (lt_active lt'). reported_track pts t u)"
  using assms by (rule lt_update_reports)

theorem update_reports_witness:
  "\<exists>lt' upds u. lt_update 33000000 [box_b, box_c] [150, 8] lt_demo = Ret (lt', upds) \<and>
     u \<in> set upds \<and> up_box u = box_b \<and>
     (hit_update lt_demo 33000000 (new_track 1 0 box_a 100) u \<or> opening_update lt_demo 2 u) \<and>
     (\<exists>t \<in> set (lt_active lt'). reported_track 33000000 t u)"
proof -
  obtain lt' upds where r: "lt_update 33000000 [box_b, box_c] [150, 8] lt_demo = Ret (lt', upds)"
    using lt_demo_update by blast
  have "set (map upd_pair upds) = {(box_b, 150), (box_c, 8)}"
    using arg_cong [OF lt_update_pairs [OF r], of set_mset] by simp
  then have "(box_b, 150) \<in> upd_pair ` set upds" by simp
  then obtain u where u: "u \<in> set upds" "up_box u = box_b"
    unfolding upd_pair_def by auto
  have "lt_active lt_demo = [new_track 1 0 box_a 100]" by (simp add: lt_demo_def)
  then show ?thesis using r u update_reports [OF r u(1)] by (auto simp: numeral_2_eq_2)
qed

section \<open>Expiry\<close>

lemma keep_last_suffix: "keep_last n xs = drop (length xs - n) xs"
  by (simp add: keep_last_def)

lemma keep_last_length: "length (keep_last n xs) \<le> n"
  by (simp add: keep_last_def)

lemma keep_last_append: "\<exists>ys. xs = ys @ keep_last n xs"
  by (metis append_take_drop_id keep_last_suffix)

text \<open>The gap since a track was last seen, and whether it exceeds the limit.\<close>

definition stale :: "tracker \<Rightarrow> i64 \<Rightarrow> arc_track \<Rightarrow> bool" where
  "stale lt now t \<longleftrightarrow> sint (lt_max_gap lt) < sint now - sint (tr_last_pts t)"

lemma expired_Ret:
  assumes "tr_active t"
  shows "expired lt now t = Ret b \<Longrightarrow> b = stale lt now t"
    and "sub64 now (tr_last_pts t) = Ret d \<Longrightarrow> expired lt now t = Ret (stale lt now t)"
  using assms by (auto simp: expired_def stale_def exec_bind_Ret_iff sub64_Ret_iff)

lemma expire_loop_Ret:
  assumes "expire_loop lt now ts = Ret (marked, finished)" "list_all tr_active ts"
  shows "filter tr_active marked = filter (\<lambda>t. \<not> stale lt now t) ts \<and>
    finished = map (\<lambda>t. t\<lparr>tr_active := False\<rparr>) (filter (stale lt now) ts)"
  using assms
proof (induction ts arbitrary: marked finished)
  case (Cons t ts)
  obtain b where b: "expired lt now t = Ret b" using Cons.prems(1) by (auto simp: exec_bind_Ret_iff)
  have "b = stale lt now t" using expired_Ret(1) [OF _ b] Cons.prems(2) by simp
  then show ?case using Cons b by (auto simp: exec_bind_Ret_iff Let_def)
qed simp

lemma expire_loop_total:
  assumes "\<forall>t \<in> set ts. \<exists>d. sub64 now (tr_last_pts t) = Ret d"
  shows "\<exists>r. expire_loop lt now ts = Ret r"
  using assms
proof (induction ts)
  case (Cons t ts)
  obtain d where "sub64 now (tr_last_pts t) = Ret d" using Cons.prems by auto
  then obtain b where "expired lt now t = Ret b" by (cases "tr_active t") (auto simp: expired_def)
  moreover obtain m f where "expire_loop lt now ts = Ret (m, f)" using Cons by fastforce
  ultimately show ?case by (simp add: Let_def)
qed simp

lemma lt_expire_Ret:
  assumes "lt_expire now lt = Ret lt'" "list_all tr_active (lt_active lt)"
  shows "lt' = lt\<lparr>lt_active := filter (\<lambda>t. \<not> stale lt now t) (lt_active lt),
    lt_completed := keep_last (unat (scast (lt_max_tracks lt) :: u64))
      (lt_completed lt @ map (\<lambda>t. t\<lparr>tr_active := False\<rparr>) (filter (stale lt now) (lt_active lt)))\<rparr>"
proof -
  obtain m f where l: "expire_loop lt now (lt_active lt) = Ret (m, f)"
    using assms(1) by (auto simp: lt_expire_def exec_bind_Ret_iff)
  from expire_loop_Ret [OF l assms(2)] show ?thesis using assms(1) by (simp add: lt_expire_def l Let_def)
qed

lemma lt_expire_total:
  assumes "list_all track_bounded (lt_active lt)" "time_ok now"
  obtains lt' where "lt_expire now lt = Ret lt'"
proof -
  have "\<forall>t \<in> set (lt_active lt). \<exists>d. sub64 now (tr_last_pts t) = Ret d"
    using assms sub64_times [OF assms(2)] by (fastforce simp: list_all_iff track_bounded_def)
  then obtain m f where "expire_loop lt now (lt_active lt) = Ret (m, f)"
    using expire_loop_total [of "lt_active lt" now lt] by fastforce
  then show ?thesis using that by (simp add: lt_expire_def)
qed

text \<open>
  C25. Expiry moves exactly the stale tracks, in order and marked inactive: the active list keeps
  the tracks seen within the gap; the completed list is the old completed tracks followed by the
  stale ones, without its oldest entries beyond \<open>max_tracks\<close>, and nothing else is dropped.
\<close>

theorem expire_moves_stale_tracks:
  assumes "lt_expire now lt = Ret lt'" "list_all tr_active (lt_active lt)"
  shows "lt_active lt' = filter (\<lambda>t. sint now - sint (tr_last_pts t) \<le> sint (lt_max_gap lt)) (lt_active lt) \<and>
    (let all = lt_completed lt @ map (\<lambda>t. t\<lparr>tr_active := False\<rparr>)
           (filter (\<lambda>t. sint (lt_max_gap lt) < sint now - sint (tr_last_pts t)) (lt_active lt))
     in lt_completed lt' = drop (length all - unat (scast (lt_max_tracks lt) :: u64)) all) \<and>
    lt_next_id lt' = lt_next_id lt"
  unfolding lt_expire_Ret [OF assms] stale_def [abs_def] not_less keep_last_suffix Let_def by simp

lemma time_ok_600: "time_ok 600000000"
  by (simp add: time_ok_def)

lemma lt_demo_expire:
  "lt_expire 600000000 lt_demo = Ret (lt_demo\<lparr>lt_active := [],
     lt_completed := [(new_track 1 0 box_a 100)\<lparr>tr_active := False\<rparr>]\<rparr>)"
proof -
  obtain lt' where e: "lt_expire 600000000 lt_demo = Ret lt'"
    using lt_expire_total [OF lt_demo_bounded(1)] by (metis time_ok_600)
  have "lt_active lt_demo = [new_track 1 0 box_a 100]" "lt_completed lt_demo = []" "lt_max_gap lt_demo = 500000000"
    "lt_max_tracks lt_demo = 1000"
    by (simp_all add: lt_demo_def lt_new_def)
  then show ?thesis using lt_expire_Ret [OF e] by (simp add: e stale_def keep_last_def)
qed

theorem expire_moves_stale_tracks_witness:
  "\<exists>lt'. lt_expire 600000000 lt_demo = Ret lt' \<and> lt_active lt' = [] \<and>
   lt_completed lt' = [(new_track 1 0 box_a 100)\<lparr>tr_active := False\<rparr>]"
proof -
  have "list_all tr_active (lt_active lt_demo)" by (simp add: lt_demo_def)
  from expire_moves_stale_tracks [OF lt_demo_expire this] show ?thesis
    using lt_demo_expire by (simp add: lt_demo_def lt_new_def Let_def)
qed

lemma distinct_keep_last: "distinct (xs @ ys) \<Longrightarrow> distinct (xs @ keep_last n ys)"
  by (metis distinct_append in_set_dropD keep_last_suffix distinct_drop disjoint_iff)

lemma map_keep_last: "map f (keep_last n xs) = keep_last n (map f xs)"
  by (simp add: keep_last_suffix drop_map)

lemma tracker_inv_active: "tracker_inv lt \<Longrightarrow> list_all tr_active (lt_active lt)"
  by (auto simp: tracker_inv_def track_ok_def elim: list.pred_mono_strong)

lemma lt_expire_inv:
  assumes "lt_expire now lt = Ret lt'" "tracker_inv lt"
  shows "tracker_inv lt'"
proof -
  let ?P = "\<lambda>t. \<not> stale lt now t"
  let ?in = "\<lambda>t. t\<lparr>tr_active := False\<rparr>"
  note inv = assms(2) [unfolded tracker_inv_def]
  note e = lt_expire_Ret [OF assms(1) tracker_inv_active [OF assms(2)]]
  have A: "lt_active lt' = filter ?P (lt_active lt)"
    and C: "lt_completed lt' = keep_last (unat (scast (lt_max_tracks lt) :: u64))
      (lt_completed lt @ map ?in (filter (\<lambda>t. \<not> ?P t) (lt_active lt)))"
    and other: "lt_next_id lt' = lt_next_id lt" "lt_max_tracks lt' = lt_max_tracks lt"
    by (simp_all add: e)
  have perm: "mset (map tr_id (filter ?P ts)) + mset (map tr_id (filter (\<lambda>t. \<not> ?P t) ts)) = mset (map tr_id ts)" for ts
    by (induction ts) auto
  have "mset (map tr_id (filter ?P (lt_active lt)) @ map tr_id (lt_completed lt @ map ?in (filter (\<lambda>t. \<not> ?P t) (lt_active lt))))
      = mset (map tr_id (lt_active lt @ lt_completed lt))"
    using perm [of "lt_active lt"] by (simp add: ac_simps comp_def)
  then have "distinct (map tr_id (filter ?P (lt_active lt)) @
      map tr_id (lt_completed lt @ map ?in (filter (\<lambda>t. \<not> ?P t) (lt_active lt))))"
    using inv mset_eq_imp_distinct_iff by blast
  from distinct_keep_last [OF this]
  have "distinct (map tr_id (lt_active lt' @ lt_completed lt'))"
    unfolding A C map_append [of tr_id "filter _ _"] map_keep_last .
  moreover have "t \<in> set (lt_active lt' @ lt_completed lt') \<Longrightarrow>
      tr_id t \<in> tr_id ` set (lt_active lt @ lt_completed lt)" for t
    unfolding A C keep_last_suffix by (auto dest!: in_set_dropD)
  moreover have "list_all track_ok (lt_active lt')"
    using inv by (auto simp: A list_all_iff)
  moreover have "list_all (\<lambda>t. \<not> tr_active t) (lt_completed lt')"
    using inv unfolding C keep_last_suffix by (auto simp: list_all_iff dest!: in_set_dropD)
  moreover have "length (lt_completed lt') \<le> unat (scast (lt_max_tracks lt) :: u64)"
    unfolding C by (rule keep_last_length)
  ultimately show ?thesis
    using inv unfolding tracker_inv_def other by blast
qed

lemma lt_expire_bounded:
  assumes "lt_expire now lt = Ret lt'" "tracker_inv lt"
  shows "list_all track_bounded (lt_active lt) \<Longrightarrow> list_all track_bounded (lt_active lt')"
    "tracker_room k lt \<Longrightarrow> tracker_room k lt'" "lt_next_id lt' = lt_next_id lt"
  unfolding lt_expire_Ret [OF assms(1) tracker_inv_active [OF assms(2)]]
  by (auto simp: list_all_iff tracker_room_def)

text \<open>Expiry keeps the invariant of the tracker, whatever the current time.\<close>

theorem expire_keeps_tracker_inv:
  assumes "lt_expire now lt = Ret lt'" "tracker_inv lt"
  shows "tracker_inv lt'"
  using assms by (rule lt_expire_inv)

theorem expire_keeps_tracker_inv_witness:
  "\<exists>lt'. lt_expire 600000000 lt_demo = Ret lt' \<and> tracker_inv lt'"
  using expire_keeps_tracker_inv [OF lt_demo_expire lt_demo_inv] lt_demo_expire by blast

text \<open>A track of a sound tracker is found by its id, active or completed.\<close>

theorem get_track_finds:
  assumes "tracker_inv lt" "t \<in> set (lt_active lt @ lt_completed lt)"
  shows "get_track lt (tr_id t) = Some t"
proof -
  have "distinct (map tr_id ts) \<Longrightarrow> t \<in> set ts \<Longrightarrow> find (\<lambda>u. tr_id u = tr_id t) ts = Some t" for ts
    by (induction ts) (auto simp: image_iff)
  then show ?thesis
    using assms by (simp add: get_track_def tracker_inv_def)
qed

theorem get_track_finds_witness: "get_track lt_demo 1 = Some (new_track 1 0 box_a 100)"
  using get_track_finds [OF lt_demo_inv, of "new_track 1 0 box_a 100"] by (simp add: lt_demo_def)

text \<open>
  C27. Greedy matching is optimal for the track at hand: the chosen detection is free, overlaps,
  no free detection overlaps more and no earlier one as much; no choice means that no free
  detection overlaps.
\<close>

theorem best_match_optimal:
  assumes "length matched = length dets"
  shows "case best_match track dets matched of
     (b, Some d) \<Rightarrow> d < length dets \<and> \<not> matched ! d \<and> b = compute_iou track (dets ! d) \<and> 0 < b \<and>
        (\<forall>k \<in> free_dets matched. compute_iou track (dets ! k) \<le> b \<and>
           (k < d \<longrightarrow> compute_iou track (dets ! k) < b))
   | (b, None) \<Rightarrow> b = 0 \<and> (\<forall>k \<in> free_dets matched. compute_iou track (dets ! k) \<le> 0)"
  using assms best_match_best [of track dets matched]
  by (auto simp: best_of_def free_dets_def split: option.splits prod.splits)

theorem best_match_optimal_witness:
  "best_match (new_track 1 0 box_a 100) [box_c, box_b] [False, False] = (rnd64 (9/11), Some 1) \<and>
   compute_iou (new_track 1 0 box_a 100) box_c \<le> rnd64 (9/11)"
proof -
  have r: "best_match (new_track 1 0 box_a 100) [box_c, box_b] [False, False] = (rnd64 (9/11), Some 1)"
    by code_simp
  have "0 \<in> free_dets [False, False]" by (simp add: free_dets_def)
  then show ?thesis
    using best_match_optimal [of "[False, False]" "[box_c, box_b]" "new_track 1 0 box_a 100"]
    unfolding r by force
qed

end
