(* ===== verification/Energy.thy ===== *)
theory Energy
  imports Fp Geometry Prelude
begin

text \<open>
  The energy of a detection (\<open>EnergyEstimator\<close> of \<open>arc_severity.cpp\<close>): area of the box
  inside the ultraviolet frame, weighted by the square of its normalised mean luminance. The host
  routine reads a host buffer pixel by pixel; the other copies the rows of the box from device
  memory into one buffer first. Both are proved to compute the same double, the one of a
  specification with an exact sum.

  Device memory is a list of bytes; \<open>cudaMemcpyAsync\<close> to the host is the argument \<open>d2h\<close>
  (a device buffer, an offset and a length give the bytes, or a failure that the code ignores).
\<close>

section \<open>The code\<close>

text \<open>The pixel window of a box, in \<open>int\<close>: first column and row, column and row after the last.\<close>

definition energy_window :: "rect \<Rightarrow> int \<Rightarrow> int \<Rightarrow> (int \<times> int \<times> int \<times> int) exec" where
  "energy_window box uv_width uv_height =
     exec_bind (to_int (rx1 box)) (\<lambda>a. exec_bind (to_int (ry1 box)) (\<lambda>b.
     exec_bind (to_int (rx2 box)) (\<lambda>c. exec_bind (to_int (ry2 box)) (\<lambda>d.
       Ret (max 0 a, max 0 b, min uv_width c, min uv_height d)))))"

definition luminance_energy :: "int \<Rightarrow> rat \<Rightarrow> int \<Rightarrow> rat" where
  "luminance_energy area luminance_sum samples =
     (let pixel_area = rnd64 (of_int area);
          mean = rnd64 (luminance_sum / rnd64 (of_int samples));
          normalized = rnd64 (mean / 255)
      in rnd64 (rnd64 (pixel_area * normalized) * normalized))"

definition compute_instant_energy :: "rect \<Rightarrow> u8 list \<Rightarrow> int \<Rightarrow> int \<Rightarrow> int \<Rightarrow> rat exec" where
  "compute_instant_energy box uv uv_width uv_height uv_channels =
     exec_bind (energy_window box uv_width uv_height) (\<lambda>(x1, y1, x2, y2).
       if x2 \<le> x1 \<or> y2 \<le> y1 then Ret 0
       else exec_bind (ci32 ((x2 - x1) * (y2 - y1))) (\<lambda>area.
         exec_bind (exec_fold (\<lambda>row acc.
             exec_bind (ci32 (row * uv_width)) (\<lambda>r. exec_bind (ci32 (r * uv_channels)) (\<lambda>base.
               exec_fold (\<lambda>col (lum, n).
                   exec_bind (ci32 (col * uv_channels)) (\<lambda>off.
                   exec_bind (read_at uv (base + off)) (\<lambda>px.
                   exec_bind (ci32 (n + 1)) (\<lambda>n1.
                     Ret (rnd64 (lum + of_int (uint px)), n1)))))
                 [x1..x2 - 1] acc)))
             [y1..y2 - 1] (0, 0))
           (\<lambda>(lum, samples).
             if samples = 0 then Ret 0 else Ret (luminance_energy area lum samples))))"

type_synonym d2h_copy = "u8 list \<Rightarrow> int \<Rightarrow> nat \<Rightarrow> u8 list option"

text \<open>
  The device variant. The host buffer starts uninitialised (\<open>None\<close>); reading a byte that no
  copy has written is undefined.
\<close>

definition write_bytes :: "'b option list \<Rightarrow> nat \<Rightarrow> 'b list \<Rightarrow> 'b option list" where
  "write_bytes buf off bytes = take off buf @ map Some bytes @ drop (off + length bytes) buf"

definition compute_instant_energy_gpu ::
    "d2h_copy \<Rightarrow> rect \<Rightarrow> u8 list \<Rightarrow> int \<Rightarrow> int \<Rightarrow> rat exec" where
  "compute_instant_energy_gpu d2h box uv uv_width uv_height =
     exec_bind (energy_window box uv_width uv_height) (\<lambda>(x1, y1, x2, y2).
       if x2 \<le> x1 \<or> y2 \<le> y1 then Ret 0
       else let roi_w = x2 - x1; roi_h = y2 - y1; roi_size = roi_w * roi_h in
         exec_bind (exec_fold (\<lambda>row buf.
             exec_bind (ci32 ((y1 + row) * uv_width)) (\<lambda>src. exec_bind (ci32 (row * roi_w)) (\<lambda>dst.
               case d2h uv (src + x1) (nat roi_w) of
                 Some bytes \<Rightarrow> Ret (write_bytes buf (nat dst) bytes)
               | None \<Rightarrow> Ret buf)))
             [0..roi_h - 1] (replicate (nat roi_size) None)) (\<lambda>host_buf.
         exec_bind (ci32 (roi_w * roi_h)) (\<lambda>area.
         exec_bind (exec_fold (\<lambda>i lum. exec_bind (read_at host_buf i) (\<lambda>px.
               case px of Some v \<Rightarrow> Ret (rnd64 (lum + of_int (uint v))) | None \<Rightarrow> UB))
             [0..roi_size - 1] 0) (\<lambda>lum.
           Ret (luminance_energy area lum roi_size)))))"

text \<open>What \<open>cudaMemcpyAsync\<close> is documented to do for a range inside the device buffer.\<close>

definition d2h_ok :: "d2h_copy \<Rightarrow> bool" where
  "d2h_ok d2h \<longleftrightarrow> (\<forall>dev off n. 0 \<le> off \<longrightarrow> nat off + n \<le> length dev \<longrightarrow>
     d2h dev off n = Some (take n (drop (nat off) dev)))"

definition d2h_model :: d2h_copy where
  "d2h_model dev off n =
     (if 0 \<le> off \<and> nat off + n \<le> length dev then Some (take n (drop (nat off) dev)) else None)"

lemma d2h_model_ok: "d2h_ok d2h_model"
  by (simp add: d2h_ok_def d2h_model_def)

section \<open>The specification\<close>

definition window_of :: "rect \<Rightarrow> int \<Rightarrow> int \<Rightarrow> int \<times> int \<times> int \<times> int" where
  "window_of box w h =
     (max 0 (rtrunc (rx1 box)), max 0 (rtrunc (ry1 box)), min w (rtrunc (rx2 box)), min h (rtrunc (ry2 box)))"

definition row_lum :: "u8 list \<Rightarrow> int \<Rightarrow> int \<Rightarrow> int \<Rightarrow> int \<Rightarrow> int \<Rightarrow> int list" where
  "row_lum uv w ch x1 x2 row = map (\<lambda>col. uint (uv ! nat (row * w * ch + col * ch))) [x1..x2 - 1]"

definition window_lum :: "u8 list \<Rightarrow> int \<Rightarrow> int \<Rightarrow> int \<Rightarrow> int \<Rightarrow> int \<Rightarrow> int \<Rightarrow> int list" where
  "window_lum uv w ch x1 y1 x2 y2 = concat (map (row_lum uv w ch x1 x2) [y1..y2 - 1])"

definition energy_spec :: "rect \<Rightarrow> u8 list \<Rightarrow> int \<Rightarrow> int \<Rightarrow> int \<Rightarrow> rat" where
  "energy_spec box uv w h ch =
     (case window_of box w h of (x1, y1, x2, y2) \<Rightarrow>
        if x2 \<le> x1 \<or> y2 \<le> y1 then 0
        else luminance_energy ((x2 - x1) * (y2 - y1)) (of_int (sum_list (window_lum uv w ch x1 y1 x2 y2)))
               ((x2 - x1) * (y2 - y1)))"

text \<open>A box whose coordinates fit \<open>int\<close>, and a frame that holds its pixels.\<close>

definition box_in_range :: "rect \<Rightarrow> bool" where
  "box_in_range b \<longleftrightarrow> (\<forall>x \<in> {rx1 b, ry1 b, rx2 b, ry2 b}. - (2 ^ 31) \<le> rtrunc x \<and> rtrunc x < 2 ^ 31)"

definition frame_holds :: "u8 list \<Rightarrow> int \<Rightarrow> int \<Rightarrow> int \<Rightarrow> bool" where
  "frame_holds uv w h ch \<longleftrightarrow> 0 \<le> w \<and> 0 \<le> h \<and> 0 < ch \<and> w * h * ch < 2 ^ 31 \<and> w * h * ch \<le> int (length uv)"

lemma energy_window_eq: "box_in_range box \<Longrightarrow> energy_window box w h = Ret (window_of box w h)"
  by (simp add: energy_window_def window_of_def box_in_range_def to_int_def)

section \<open>Exact sums\<close>

lemma fold_lum_exact:
  assumes "list_all (\<lambda>v. 0 \<le> v \<and> v < 256) vs" "0 \<le> a" "a + 256 * int (length vs) \<le> 2 ^ 53"
  shows "fold (\<lambda>v lum. rnd64 (lum + of_int v)) vs (of_int a) = of_int (a + sum_list vs)"
  using assms
proof (induction vs arbitrary: a)
  case (Cons v vs)
  then have "rnd64 (of_int (a + v)) = of_int (a + v)"
    by (intro rnd64_of_int) simp
  then show ?case using Cons.IH [of "a + v"] Cons.prems by (simp add: add.assoc)
qed simp

lemma row_lum_range: "list_all (\<lambda>v. 0 \<le> v \<and> v < 256) (row_lum uv w ch x1 x2 row)"
proof -
  have "uint (v :: u8) < 256" for v using uint_lt2p [of v] by simp
  then show ?thesis by (simp add: row_lum_def list_all_iff)
qed

lemma window_lum_range: "list_all (\<lambda>v. 0 \<le> v \<and> v < 256) (window_lum uv w ch x1 y1 x2 y2)"
  using row_lum_range by (auto simp: window_lum_def list_all_iff)

lemma row_lum_length [simp]: "length (row_lum uv w ch x1 x2 row) = nat (x2 - x1)"
  by (simp add: row_lum_def)

lemma window_lum_length: "length (window_lum uv w ch x1 y1 x2 y2) = nat (y2 - y1) * nat (x2 - x1)"
  by (simp add: window_lum_def length_concat comp_def sum_list_triv)

lemma upto_nat_split: "j \<le> k \<Longrightarrow> [i..k] = [i..j] @ [j + 1..k]" if "i \<le> j + 1"
  using that by (metis upto_split1 upto_split2 upto_empty append_Nil2 append_Nil order_le_less zless_add1_eq)

text \<open>The window of a box lies in the frame.\<close>

lemma window_bounds:
  assumes "window_of box w h = (x1, y1, x2, y2)"
  shows "0 \<le> x1" "0 \<le> y1" "x2 \<le> w" "y2 \<le> h"
  using assms by (auto simp: window_of_def)

lemma pixel_index:
  assumes "frame_holds uv w h ch" "0 \<le> row" "row < h" "0 \<le> col" "col < w"
  shows "0 \<le> row * w * ch + col * ch" "row * w * ch + col * ch < int (length uv)"
    "row * w < 2 ^ 31" "row * w * ch < 2 ^ 31" "col * ch < 2 ^ 31" "0 \<le> row * w" "0 \<le> row * w * ch" "0 \<le> col * ch"
proof -
  note f = assms(1) [unfolded frame_holds_def]
  show nn: "0 \<le> row * w" "0 \<le> row * w * ch" "0 \<le> col * ch" "0 \<le> row * w * ch + col * ch"
    using assms f by simp_all
  have "(row + 1) * w \<le> h * w" using assms f by (intro mult_right_mono) auto
  then have "row * w + col + 1 \<le> w * h" using assms by (simp add: algebra_simps)
  then have "(row * w + col + 1) * ch \<le> w * h * ch" using f by (intro mult_right_mono) auto
  then have i: "row * w * ch + col * ch + ch \<le> w * h * ch" by (simp add: algebra_simps)
  then show "row * w * ch + col * ch < int (length uv)" "row * w * ch < 2 ^ 31" "col * ch < 2 ^ 31"
    using f nn by linarith+
  have "row * w * 1 \<le> row * w * ch" using f nn by (intro mult_left_mono) auto
  then show "row * w < 2 ^ 31" using i f nn by linarith
qed

lemma window_area:
  assumes "frame_holds uv w h ch" "0 \<le> x1" "x1 < x2" "x2 \<le> w" "0 \<le> y1" "y1 < y2" "y2 \<le> h"
  shows "0 < (x2 - x1) * (y2 - y1)" "(x2 - x1) * (y2 - y1) < 2 ^ 31"
proof -
  note f = assms(1) [unfolded frame_holds_def]
  show "0 < (x2 - x1) * (y2 - y1)" using assms by simp
  have "(x2 - x1) * (y2 - y1) \<le> w * h" using assms by (intro mult_mono) auto
  moreover have "w * h * 1 \<le> w * h * ch" using f by (intro mult_left_mono) auto
  ultimately show "(x2 - x1) * (y2 - y1) < 2 ^ 31" using f by linarith
qed

section \<open>The host routine\<close>

text \<open>One row of the loop, and all rows.\<close>

lemma cpu_row:
  assumes "frame_holds uv w h ch" "0 \<le> row" "row < h" "0 \<le> x1" "x2 \<le> w"
    "0 \<le> n" "n + int (nat (x2 - x1)) < 2 ^ 31"
  shows "exec_fold (\<lambda>col (lum, n).
       exec_bind (ci32 (col * ch)) (\<lambda>off. exec_bind (read_at uv (row * w * ch + off)) (\<lambda>px.
         exec_bind (ci32 (n + 1)) (\<lambda>n1. Ret (rnd64 (lum + of_int (uint px)), n1)))))
     [x1..x2 - 1] (lum, n) =
     Ret (fold (\<lambda>v lum. rnd64 (lum + of_int v)) (row_lum uv w ch x1 x2 row) lum, n + int (nat (x2 - x1)))"
  using assms(4,6,7)
proof (induction "nat (x2 - x1)" arbitrary: x1 lum n)
  case (Suc k)
  then have x: "x1 < x2" by simp
  then have l: "[x1..x2 - 1] = x1 # [x1 + 1..x2 - 1]" by (simp add: upto_rec1)
  have nn: "nat (x2 - x1) = Suc (nat (x2 - (x1 + 1)))" using x by simp
  note px = pixel_index [OF assms(1-3) \<open>0 \<le> x1\<close>]
  show ?case
    using Suc.hyps(1) [of "x1 + 1" "n + 1"] Suc.hyps(2) Suc.prems px x assms(5)
    by (simp add: l row_lum_def nn)
qed (simp add: row_lum_def)

lemma window_lum_rec:
  "y1 < y2 \<Longrightarrow> window_lum uv w ch x1 y1 x2 y2 = row_lum uv w ch x1 x2 y1 @ window_lum uv w ch x1 (y1 + 1) x2 y2"
  by (simp add: window_lum_def upto_rec1)

lemma cpu_rows:
  assumes "frame_holds uv w h ch" "0 \<le> x1" "x2 \<le> w" "0 \<le> y1" "y2 \<le> h" "x1 < x2"
    "0 \<le> n" "n + int (nat (y2 - y1)) * int (nat (x2 - x1)) < 2 ^ 31"
  shows "exec_fold (\<lambda>row acc.
      exec_bind (ci32 (row * w)) (\<lambda>r. exec_bind (ci32 (r * ch)) (\<lambda>base.
        exec_fold (\<lambda>col (lum, n).
          exec_bind (ci32 (col * ch)) (\<lambda>off. exec_bind (read_at uv (base + off)) (\<lambda>px.
            exec_bind (ci32 (n + 1)) (\<lambda>n1. Ret (rnd64 (lum + of_int (uint px)), n1)))))
          [x1..x2 - 1] acc)))
     [y1..y2 - 1] (lum, n) =
     Ret (fold (\<lambda>v lum. rnd64 (lum + of_int v)) (window_lum uv w ch x1 y1 x2 y2) lum,
          n + int (nat (y2 - y1)) * int (nat (x2 - x1)))"
  using assms(4,7,8)
proof (induction "nat (y2 - y1)" arbitrary: y1 lum n)
  case (Suc k)
  then have y: "y1 < y2" by simp
  then have l: "[y1..y2 - 1] = y1 # [y1 + 1..y2 - 1]" by (simp add: upto_rec1)
  have nn: "int (nat (y2 - y1)) * int (nat (x2 - x1)) =
      int (nat (x2 - x1)) + int (nat (y2 - (y1 + 1))) * int (nat (x2 - x1))"
    using y by (simp add: algebra_simps)
  have room: "n + int (nat (x2 - x1)) < 2 ^ 31"
    using Suc.prems(3) nn by (smt (verit) mult_nonneg_nonneg of_nat_0_le_iff)
  note px = pixel_index [OF assms(1) Suc.prems(1) _ assms(2)]
  have "ci32 (y1 * w) = Ret (y1 * w)" "ci32 (y1 * w * ch) = Ret (y1 * w * ch)"
    using px y assms(3,5,6) by simp_all
  then show ?case
    using cpu_row [OF assms(1) Suc.prems(1) _ assms(2,3) Suc.prems(2) room]
      Suc.hyps(1) [of "y1 + 1" "n + int (nat (x2 - x1))"] Suc.hyps(2) Suc.prems y assms(5) nn
    by (simp add: l window_lum_rec add.assoc)
qed (simp add: window_lum_def)

lemma window_sum_exact:
  assumes "frame_holds uv w h ch" "0 \<le> x1" "x1 < x2" "x2 \<le> w" "0 \<le> y1" "y1 < y2" "y2 \<le> h"
  shows "fold (\<lambda>v lum. rnd64 (lum + of_int v)) (window_lum uv w ch x1 y1 x2 y2) 0 =
     of_int (sum_list (window_lum uv w ch x1 y1 x2 y2))"
proof -
  have "int (length (window_lum uv w ch x1 y1 x2 y2)) = (x2 - x1) * (y2 - y1)"
    using assms(3,6) by (simp add: window_lum_length)
  then show ?thesis
    using fold_lum_exact [OF window_lum_range, of 0 uv w ch x1 y1 x2 y2] window_area [OF assms] by simp
qed

lemma cpu_energy_spec:
  assumes "frame_holds uv w h ch" "box_in_range box"
  shows "compute_instant_energy box uv w h ch = Ret (energy_spec box uv w h ch)"
proof -
  obtain x1 y1 x2 y2 where win: "window_of box w h = (x1, y1, x2, y2)" by (metis prod.exhaust)
  note b = window_bounds [OF win]
  show ?thesis
  proof (cases "x2 \<le> x1 \<or> y2 \<le> y1")
    case True
    then show ?thesis
      by (simp add: compute_instant_energy_def energy_window_eq [OF assms(2)] win energy_spec_def)
  next
    case False
    then have lt: "x1 < x2" "y1 < y2" by auto
    note area = window_area [OF assms(1) b(1) lt(1) b(3) b(2) lt(2) b(4)]
    have n: "int (nat (y2 - y1)) * int (nat (x2 - x1)) = (x2 - x1) * (y2 - y1)" using lt by simp
    note rows = cpu_rows [OF assms(1) b(1,3,2,4) lt(1), of 0 0, unfolded n]
    have "ci32 ((x2 - x1) * (y2 - y1)) = Ret ((x2 - x1) * (y2 - y1))"
      using area by (intro ci32_Ret) linarith+
    then show ?thesis
      using lt area rows window_sum_exact [OF assms(1) b(1) lt(1) b(3) b(2) lt(2) b(4)]
      by (simp add: compute_instant_energy_def energy_window_eq [OF assms(2)] win energy_spec_def)
  qed
qed

section \<open>The device routine\<close>

text \<open>The host buffer after some rows: their bytes, then bytes not written yet.\<close>

definition row_bytes :: "u8 list \<Rightarrow> int \<Rightarrow> int \<Rightarrow> int \<Rightarrow> int \<Rightarrow> u8 list" where
  "row_bytes uv w x1 x2 row = take (nat (x2 - x1)) (drop (nat (row * w + x1)) uv)"

lemma row_bytes_lum:
  assumes "frame_holds uv w h 1" "0 \<le> row" "row < h" "0 \<le> x1" "x1 < x2" "x2 \<le> w"
  shows "map uint (row_bytes uv w x1 x2 row) = row_lum uv w 1 x1 x2 row"
    "length (row_bytes uv w x1 x2 row) = nat (x2 - x1)"
    "nat (row * w + x1) + nat (x2 - x1) \<le> length uv"
proof -
  have i: "0 \<le> row * w" "row * w + (x2 - 1) < int (length uv)"
    using pixel_index [OF assms(1-3), of "x2 - 1"] assms(4-6) by simp_all
  then show n: "nat (row * w + x1) + nat (x2 - x1) \<le> length uv" using assms by linarith
  then show len: "length (row_bytes uv w x1 x2 row) = nat (x2 - x1)" by (simp add: row_bytes_def)
  show "map uint (row_bytes uv w x1 x2 row) = row_lum uv w 1 x1 x2 row"
  proof (rule nth_equalityI)
    fix k assume "k < length (map uint (row_bytes uv w x1 x2 row))"
    then have k: "k < nat (x2 - x1)" by (simp add: len)
    have "nat (row * w + x1) + k = nat (row * w + (x1 + int k))" using i assms by linarith
    then show "map uint (row_bytes uv w x1 x2 row) ! k = row_lum uv w 1 x1 x2 row ! k"
      using k len n by (simp add: row_bytes_def row_lum_def nth_upto)
  qed (simp add: len)
qed

lemma gpu_rows:
  assumes "frame_holds uv w h 1" "d2h_ok d2h" "0 \<le> x1" "x1 < x2" "x2 \<le> w" "0 \<le> y1" "y1 + int k \<le> h"
    "k \<le> n" "int n * (x2 - x1) < 2 ^ 31"
  shows "exec_fold (\<lambda>row buf.
      exec_bind (ci32 ((y1 + row) * w)) (\<lambda>src. exec_bind (ci32 (row * (x2 - x1))) (\<lambda>dst.
        case d2h uv (src + x1) (nat (x2 - x1)) of
          Some bytes \<Rightarrow> Ret (write_bytes buf (nat dst) bytes) | None \<Rightarrow> Ret buf)))
     [0..int k - 1] (replicate (n * nat (x2 - x1)) None) =
     Ret (map Some (concat (map (row_bytes uv w x1 x2) [y1..y1 + int k - 1]))
            @ replicate ((n - k) * nat (x2 - x1)) None)"
  using assms(7,8)
proof (induction k)
  case (Suc k)
  have l: "[0..int (Suc k) - 1] = [0..int k - 1] @ [int k]"
    using upto_rec2 [of 0 "int k"] by simp
  have l2: "[y1..y1 + int (Suc k) - 1] = [y1..y1 + int k - 1] @ [y1 + int k]"
    using upto_rec2 [of y1 "y1 + int k"] by simp
  have row: "0 \<le> y1 + int k" "y1 + int k < h" using Suc.prems assms(6) by simp_all
  note bytes = row_bytes_lum [OF assms(1) row assms(3-5)]
  note px = pixel_index [OF assms(1) row assms(3)]
  have d: "d2h uv ((y1 + int k) * w + x1) (nat (x2 - x1)) = Some (row_bytes uv w x1 x2 (y1 + int k))"
    using assms(2,3) bytes(3) px(6) assms(4,5) by (simp add: d2h_ok_def row_bytes_def)
  have c1: "ci32 ((y1 + int k) * w) = Ret ((y1 + int k) * w)"
    using px assms(4,5) by (intro ci32_Ret) simp_all
  have "int k * (x2 - x1) \<le> int n * (x2 - x1)"
    using Suc.prems assms(4) by (intro mult_right_mono) auto
  moreover have "0 \<le> int k * (x2 - x1)" using assms(4) by simp
  ultimately have c2: "ci32 (int k * (x2 - x1)) = Ret (int k * (x2 - x1))"
    using assms(9) by (intro ci32_Ret) linarith+
  have len: "length (concat (map (row_bytes uv w x1 x2) [y1..y1 + int k - 1])) = k * nat (x2 - x1)"
  proof -
    have "map length (map (row_bytes uv w x1 x2) [y1..y1 + int k - 1]) =
        map (\<lambda>_. nat (x2 - x1)) [y1..y1 + int k - 1]"
      using assms(1,3-6) Suc.prems by (auto intro!: row_bytes_lum(2))
    then show ?thesis by (simp add: length_concat sum_list_triv del: map_map)
  qed
  have "(n - k) * nat (x2 - x1) = nat (x2 - x1) + (n - Suc k) * nat (x2 - x1)"
    using Suc.prems by (metis Suc_diff_Suc Suc_le_lessD mult_Suc)
  moreover have "nat (int k * (x2 - x1)) = k * nat (x2 - x1)" using assms(4) by (simp add: nat_mult_distrib)
  ultimately show ?case
    unfolding l l2 exec_fold_append
    using Suc.IH Suc.prems by (simp add: d c1 c2 write_bytes_def len bytes(2) replicate_add)
qed simp

lemma gpu_sum:
  "exec_fold (\<lambda>i lum. exec_bind (read_at host_buf i) (\<lambda>px.
      case px of Some v \<Rightarrow> Ret (rnd64 (lum + of_int (uint v))) | None \<Rightarrow> UB))
     [0..int k - 1] a = Ret (fold (\<lambda>v lum. rnd64 (lum + of_int v)) (map uint (take k bytes)) a)"
  if "host_buf = map Some bytes" "k \<le> length bytes"
  using that(2)
proof (induction k)
  case (Suc k)
  have l: "[0..int (Suc k) - 1] = [0..int k - 1] @ [int k]"
    using upto_rec2 [of 0 "int k"] by simp
  show ?case
    unfolding l exec_fold_append
    using Suc that(1) by (simp add: take_Suc_conv_app_nth del: of_int_uint)
qed simp

lemma gpu_energy_spec:
  assumes "frame_holds uv w h 1" "box_in_range box" "d2h_ok d2h"
  shows "compute_instant_energy_gpu d2h box uv w h = Ret (energy_spec box uv w h 1)"
proof -
  obtain x1 y1 x2 y2 where win: "window_of box w h = (x1, y1, x2, y2)" by (metis prod.exhaust)
  note b = window_bounds [OF win]
  show ?thesis
  proof (cases "x2 \<le> x1 \<or> y2 \<le> y1")
    case True
    then show ?thesis
      by (simp add: compute_instant_energy_gpu_def energy_window_eq [OF assms(2)] win energy_spec_def)
  next
    case False
    then have lt: "x1 < x2" "y1 < y2" by auto
    note area = window_area [OF assms(1) b(1) lt(1) b(3) b(2) lt(2) b(4)]
    define k where "k = nat (y2 - y1)"
    have k: "int k = y2 - y1" "y1 + int k = y2" using lt by (simp_all add: k_def)
    define bytes where "bytes = concat (map (row_bytes uv w x1 x2) [y1..y2 - 1])"
    have rows: "exec_fold (\<lambda>row buf.
      exec_bind (ci32 ((y1 + row) * w)) (\<lambda>src. exec_bind (ci32 (row * (x2 - x1))) (\<lambda>dst.
        case d2h uv (src + x1) (nat (x2 - x1)) of
          Some bytes \<Rightarrow> Ret (write_bytes buf (nat dst) bytes) | None \<Rightarrow> Ret buf)))
      [0..y2 - y1 - 1] (replicate (nat ((x2 - x1) * (y2 - y1))) None) = Ret (map Some bytes)"
      using gpu_rows [OF assms(1,3) b(1) lt(1) b(3) b(2), of k k] k area b(4) lt
      by (simp add: bytes_def nat_mult_distrib mult.commute k_def)
    have "map uint bytes = window_lum uv w 1 x1 y1 x2 y2"
      unfolding bytes_def window_lum_def map_concat map_map
      using assms(1) b lt by (intro arg_cong [of _ _ concat] map_cong) (auto intro!: row_bytes_lum(1))
    moreover from this have "length bytes = nat ((x2 - x1) * (y2 - y1))"
      using lt by (metis length_map window_lum_length nat_mult_distrib diff_ge_0_iff_ge order_less_imp_le mult.commute)
    ultimately have sum: "exec_fold (\<lambda>i lum. exec_bind (read_at (map Some bytes) i) (\<lambda>px.
      case px of Some v \<Rightarrow> Ret (rnd64 (lum + of_int (uint v))) | None \<Rightarrow> UB))
      [0..(x2 - x1) * (y2 - y1) - 1] 0 = Ret (of_int (sum_list (window_lum uv w 1 x1 y1 x2 y2)))"
      using gpu_sum [of "map Some bytes" bytes "length bytes" 0] area
        window_sum_exact [OF assms(1) b(1) lt(1) b(3) b(2) lt(2) b(4)]
      by (simp del: of_int_uint)
    have "ci32 ((x2 - x1) * (y2 - y1)) = Ret ((x2 - x1) * (y2 - y1))"
      using area by (intro ci32_Ret) linarith+
    then show ?thesis
      using lt rows sum
      by (simp add: compute_instant_energy_gpu_def energy_window_eq [OF assms(2)] win energy_spec_def Let_def
          del: of_int_uint)
  qed
qed

section \<open>Properties\<close>

lemma luminance_energy_bounds:
  assumes "0 < n" "n < 2 ^ 31" "0 \<le> lum" "lum \<le> 255 * n"
  shows "0 \<le> luminance_energy n (of_int lum) n" "luminance_energy n (of_int lum) n \<le> of_int n"
    "rnd64 (luminance_energy n (of_int lum) n) = luminance_energy n (of_int lum) n"
proof -
  have r: "rnd64 (of_int n) = of_int n" using assms by (intro rnd64_of_int) simp
  define m where "m = rnd64 (of_int lum / of_int n)"
  have "of_int lum \<le> (of_int (255 * n) :: rat)" using assms(4) by (simp only: of_int_le_iff)
  then have "(of_int lum :: rat) / of_int n \<le> 255" using assms(1) by (simp add: divide_le_eq)
  then have m: "0 \<le> m" "m \<le> 255"
    using assms unfolding m_def by (auto intro!: f64.le_repr f64.nonneg)
  define z where "z = rnd64 (m / 255)"
  have z: "0 \<le> z" "z \<le> 1" using m by (auto simp: z_def intro!: f64.le_repr f64.nonneg)
  have e: "luminance_energy n (of_int lum) n = rnd64 (rnd64 (of_int n * z) * z)"
    by (simp add: luminance_energy_def Let_def r m_def z_def)
  have a: "0 \<le> rnd64 (of_int n * z)" "rnd64 (of_int n * z) \<le> of_int n"
    using assms(1) z r by (auto intro!: f64.le_repr f64.nonneg mult_left_le)
  then show "0 \<le> luminance_energy n (of_int lum) n" "luminance_energy n (of_int lum) n \<le> of_int n"
    unfolding e using z r by (auto intro!: f64.le_repr f64.nonneg order_trans [OF mult_left_le])
  show "rnd64 (luminance_energy n (of_int lum) n) = luminance_energy n (of_int lum) n" by (simp add: e)
qed

text \<open>
  C16. On a frame that holds its pixels and a box whose coordinates fit \<open>int\<close>, both energy
  routines are free of undefined behaviour and return the same double, although one reads pixels
  in place and the other sums a copied buffer: the device routine on a one-channel frame is the
  host routine.
\<close>

theorem gpu_energy_is_cpu_energy:
  assumes "frame_holds uv w h 1" "box_in_range box" "d2h_ok d2h"
  shows "compute_instant_energy_gpu d2h box uv w h = compute_instant_energy box uv w h 1 \<and>
    compute_instant_energy box uv w h 1 = Ret (energy_spec box uv w h 1)"
  using gpu_energy_spec [OF assms] cpu_energy_spec [OF assms(1,2)] by simp

theorem gpu_energy_is_cpu_energy_witness:
  "compute_instant_energy_gpu d2h_model \<lparr>rx1 = 1/2, ry1 = 0, rx2 = 5/2, ry2 = 7\<rparr> [1, 2, 3, 4, 5, 6] 3 2 =
     Ret (luminance_energy 4 12 4)"
proof -
  let ?b = "\<lparr>rx1 = 1/2, ry1 = 0, rx2 = 5/2, ry2 = 7\<rparr>"
  have "frame_holds [1, 2, 3, 4, 5, 6] 3 2 1" "box_in_range ?b"
    by (simp add: frame_holds_def) (code_simp)
  moreover have "energy_spec ?b [1, 2, 3, 4, 5, 6] 3 2 1 = luminance_energy 4 12 4" by code_simp
  ultimately show ?thesis
    using gpu_energy_is_cpu_energy [of "[1, 2, 3, 4, 5, 6]" 3 2 ?b d2h_model] d2h_model_ok by simp
qed

lemma energy_spec_bounds:
  assumes "frame_holds uv w h 1"
  shows "0 \<le> energy_spec box uv w h 1 \<and> energy_spec box uv w h 1 \<le> of_int (w * h) \<and>
    rnd64 (energy_spec box uv w h 1) = energy_spec box uv w h 1"
proof -
  obtain x1 y1 x2 y2 where win: "window_of box w h = (x1, y1, x2, y2)" by (metis prod.exhaust)
  note b = window_bounds [OF win]
  show ?thesis
  proof (cases "x2 \<le> x1 \<or> y2 \<le> y1")
    case True
    then show ?thesis using assms by (simp add: energy_spec_def win frame_holds_def)
  next
    case False
    then have lt: "x1 < x2" "y1 < y2" by auto
    note area = window_area [OF assms b(1) lt(1) b(3) b(2) lt(2) b(4)]
    have sum: "list_all (\<lambda>v. 0 \<le> v \<and> v < 256) vs \<Longrightarrow> 0 \<le> sum_list vs \<and> sum_list vs \<le> 255 * int (length vs)"
      for vs :: "int list"
      by (induction vs) auto
    have "int (length (window_lum uv w 1 x1 y1 x2 y2)) = (x2 - x1) * (y2 - y1)"
      using lt by (simp add: window_lum_length)
    with sum [OF window_lum_range, of uv w 1 x1 y1 x2 y2]
    have s: "0 \<le> sum_list (window_lum uv w 1 x1 y1 x2 y2)"
      "sum_list (window_lum uv w 1 x1 y1 x2 y2) \<le> 255 * ((x2 - x1) * (y2 - y1))" by simp_all
    have "(x2 - x1) * (y2 - y1) \<le> w * h" using b lt by (intro mult_mono) auto
    then have "(of_int ((x2 - x1) * (y2 - y1)) :: rat) \<le> of_int (w * h)" by (simp only: of_int_le_iff)
    with luminance_energy_bounds [OF area s] show ?thesis
      using lt unfolding energy_spec_def win by (auto intro: order_trans)
  qed
qed

text \<open>
  The energy of a box lies between 0 and the area of the frame, and is a double: what the
  tracker asks of its input.
\<close>

theorem energy_bounds:
  assumes "frame_holds uv w h 1" "box_in_range box" "d2h_ok d2h"
    "compute_instant_energy_gpu d2h box uv w h = Ret e"
  shows "0 \<le> e \<and> e \<le> of_int (w * h) \<and> rnd64 e = e"
  using gpu_energy_spec [OF assms(1-3)] energy_spec_bounds [OF assms(1), of box] assms(4) by simp

theorem energy_bounds_witness:
  "\<exists>e. compute_instant_energy_gpu d2h_model \<lparr>rx1 = 1/2, ry1 = 0, rx2 = 5/2, ry2 = 7\<rparr> [1, 2, 3, 4, 5, 6] 3 2 = Ret e \<and>
     0 \<le> e \<and> e \<le> 6 \<and> rnd64 e = e"
proof -
  let ?b = "\<lparr>rx1 = 1/2, ry1 = 0, rx2 = 5/2, ry2 = 7\<rparr>"
  have f: "frame_holds [1, 2, 3, 4, 5, 6] 3 2 1" "box_in_range ?b"
    by (simp add: frame_holds_def) (code_simp)
  then have "compute_instant_energy_gpu d2h_model ?b [1, 2, 3, 4, 5, 6] 3 2 = Ret (energy_spec ?b [1, 2, 3, 4, 5, 6] 3 2 1)"
    by (intro gpu_energy_spec d2h_model_ok)
  from energy_bounds [OF f d2h_model_ok this] this show ?thesis by auto
qed

end
