(* ===== verification/Zmq_Publisher.thy ===== *)
theory Zmq_Publisher
  imports Resources
begin

text \<open>
  The result channel of \<open>zmq_publisher.h\<close> and \<open>zmq_publisher.cpp\<close>: the layout of
  \<open>ArcResultMsg\<close> in memory, opening and closing the sockets, and the framing of messages.

  The ZeroMQ library is an argument: the outcome of the calls that create contexts and sockets,
  the return code of a send as a function of the message, and the message or failure a receive
  delivers. The layout is that of the x86-64 ABI (natural alignment, little endian); \<open>float\<close> and
  \<open>double\<close> fields are their bit patterns, since this code only moves them.
\<close>

section \<open>Layout of a struct\<close>

datatype ctype = F32 | I32 | I64 | F64

fun ctype_size :: "ctype \<Rightarrow> nat" where
  "ctype_size F32 = 4" | "ctype_size I32 = 4" | "ctype_size I64 = 8" | "ctype_size F64 = 8"

definition align_up :: "nat \<Rightarrow> nat \<Rightarrow> nat" where
  "align_up n a = (n + a - 1) div a * a"

text \<open>Offsets of the fields and the offset after the last; a scalar is aligned to its size.\<close>

fun field_offsets :: "nat \<Rightarrow> ctype list \<Rightarrow> nat list" where
  "field_offsets off [] = []"
| "field_offsets off (t # ts) =
     (let o' = align_up off (ctype_size t) in o' # field_offsets (o' + ctype_size t) ts)"

fun fields_end :: "nat \<Rightarrow> ctype list \<Rightarrow> nat" where
  "fields_end off [] = off"
| "fields_end off (t # ts) = fields_end (align_up off (ctype_size t) + ctype_size t) ts"

definition sizeof_struct :: "ctype list \<Rightarrow> nat" where
  "sizeof_struct ts = align_up (fields_end 0 ts) (foldr (\<lambda>t. max (ctype_size t)) ts 1)"

text \<open>The fields of \<open>ArcResultMsg\<close> in their order.\<close>

definition arc_result_fields :: "ctype list" where
  "arc_result_fields = [F32, F32, F32, F32, F32, I32, I64, I32, F64, F64, F64, F64, I32, I32, I32, I64]"

definition sizeof_msg :: nat where
  "sizeof_msg = sizeof_struct arc_result_fields"

lemma sizeof_msg [simp]: "sizeof_msg = 96"
  by code_simp

section \<open>Numbers as bytes\<close>

fun le_bytes :: "nat \<Rightarrow> int \<Rightarrow> u8 list" where
  "le_bytes 0 k = []"
| "le_bytes (Suc n) k = word_of_int k # le_bytes n (k div 256)"

fun le_value :: "u8 list \<Rightarrow> int" where
  "le_value [] = 0"
| "le_value (b # bs) = uint b + 256 * le_value bs"

lemma le_bytes_length [simp]: "length (le_bytes n k) = n"
  by (induction n arbitrary: k) simp_all

lemma le_roundtrip: "le_value (le_bytes n k) = k mod 256 ^ n"
proof (induction n arbitrary: k)
  case (Suc n)
  have "uint (word_of_int k :: u8) = k mod 256"
    by (simp add: uint_word_of_int_eq take_bit_eq_mod)
  then have "le_value (le_bytes (Suc n) k) = k mod 256 + 256 * (k div 256 mod 256 ^ n)"
    by (simp add: Suc.IH)
  also have "\<dots> = k mod (256 * 256 ^ n)" by (simp add: mod_mult2_eq' zmod_zmult2_eq)
  finally show ?case by simp
qed simp

lemma le_word32: "word_of_int (le_value (le_bytes 4 (uint w))) = (w :: i32)"
proof -
  have "uint w < 256 ^ 4" using uint_lt2p [of w] by simp
  then have "le_value (le_bytes 4 (uint w)) = uint w" unfolding le_roundtrip by (intro mod_pos_pos_trivial) simp_all
  then show ?thesis by simp
qed

lemma le_word64: "word_of_int (le_value (le_bytes 8 (uint w))) = (w :: i64)"
proof -
  have "uint w < 256 ^ 8" using uint_lt2p [of w] by simp
  then have "le_value (le_bytes 8 (uint w)) = uint w" unfolding le_roundtrip by (intro mod_pos_pos_trivial) simp_all
  then show ?thesis by simp
qed

section \<open>Messages\<close>

record arc_result_msg =
  m_x1 :: i32
  m_y1 :: i32
  m_x2 :: i32
  m_y2 :: i32
  m_confidence :: i32
  m_class_id :: i32
  m_pts_ns :: i64
  m_stream_index :: i32
  m_intensity :: i64
  m_instant_energy :: i64
  m_smoothed_energy :: i64
  m_cumulative_energy :: i64
  m_severity_level :: i32
  m_track_id :: i32
  m_track_frame_count :: i32
  m_track_duration_ns :: i64

text \<open>A field's value: four or eight bytes.\<close>

datatype field = W32 i32 | W64 i64

fun field_bytes :: "field \<Rightarrow> u8 list" where
  "field_bytes (W32 w) = le_bytes 4 (uint w)"
| "field_bytes (W64 w) = le_bytes 8 (uint w)"

definition msg_fields :: "arc_result_msg \<Rightarrow> field list" where
  "msg_fields m = [W32 (m_x1 m), W32 (m_y1 m), W32 (m_x2 m), W32 (m_y2 m), W32 (m_confidence m),
     W32 (m_class_id m), W64 (m_pts_ns m), W32 (m_stream_index m), W64 (m_intensity m),
     W64 (m_instant_energy m), W64 (m_smoothed_energy m), W64 (m_cumulative_energy m),
     W32 (m_severity_level m), W32 (m_track_id m), W32 (m_track_frame_count m), W64 (m_track_duration_ns m)]"

text \<open>
  The object representation: each field at its offset, over bytes \<open>pad\<close> that show through in the
  padding.
\<close>

definition put_at :: "nat \<Rightarrow> 'b list \<Rightarrow> 'b list \<Rightarrow> 'b list" where
  "put_at off bs mem = take off mem @ bs @ drop (off + length bs) mem"

definition msg_bytes :: "u8 list \<Rightarrow> arc_result_msg \<Rightarrow> u8 list" where
  "msg_bytes pad m = fold (\<lambda>(off, f) mem. put_at off (field_bytes f) mem)
     (zip (field_offsets 0 arc_result_fields) (msg_fields m)) pad"

definition get32 :: "nat \<Rightarrow> u8 list \<Rightarrow> i32" where
  "get32 off mem = word_of_int (le_value (take 4 (drop off mem)))"

definition get64 :: "nat \<Rightarrow> u8 list \<Rightarrow> i64" where
  "get64 off mem = word_of_int (le_value (take 8 (drop off mem)))"

definition msg_at :: "u8 list \<Rightarrow> arc_result_msg" where
  "msg_at mem = (case field_offsets 0 arc_result_fields of
     [o0, o1, o2, o3, o4, o5, o6, o7, o8, o9, o10, o11, o12, o13, o14, o15] \<Rightarrow>
       \<lparr>m_x1 = get32 o0 mem, m_y1 = get32 o1 mem, m_x2 = get32 o2 mem, m_y2 = get32 o3 mem,
        m_confidence = get32 o4 mem, m_class_id = get32 o5 mem, m_pts_ns = get64 o6 mem,
        m_stream_index = get32 o7 mem, m_intensity = get64 o8 mem, m_instant_energy = get64 o9 mem,
        m_smoothed_energy = get64 o10 mem, m_cumulative_energy = get64 o11 mem,
        m_severity_level = get32 o12 mem, m_track_id = get32 o13 mem,
        m_track_frame_count = get32 o14 mem, m_track_duration_ns = get64 o15 mem\<rparr>)"

lemma offsets: "field_offsets 0 arc_result_fields = [0, 4, 8, 12, 16, 20, 24, 32, 40, 48, 56, 64, 72, 76, 80, 88]"
  by code_simp

section \<open>Sockets\<close>

datatype socket_kind = ZMQ_PUB | ZMQ_SUB

record zmq_publisher =
  zp_context :: "nat option"
  zp_socket :: "(socket_kind \<times> nat) option"
  zp_is_bind :: bool

definition zp_new :: zmq_publisher where
  "zp_new = \<lparr>zp_context = None, zp_socket = None, zp_is_bind = False\<rparr>"

text \<open>
  \<open>bind\<close> and \<open>connect\<close>: a context, a socket, and the endpoint, which is accepted or not; what was taken is
  given back when a later step fails.
\<close>

definition zp_open ::
    "socket_kind \<Rightarrow> bool \<Rightarrow> (string \<Rightarrow> bool) \<Rightarrow> string \<Rightarrow> zmq_publisher \<Rightarrow> gpu_env \<Rightarrow> bool \<times> zmq_publisher \<times> gpu_env" where
  "zp_open kind is_bind accepts endpoint zp env =
     (case obtain_res env of
        (None, e1) \<Rightarrow> (False, zp\<lparr>zp_context := None\<rparr>, e1)
      | (Some ctx, e1) \<Rightarrow>
          (case obtain_res e1 of
             (None, e2) \<Rightarrow> (False, zp\<lparr>zp_context := None, zp_socket := None\<rparr>, give_back ctx e2)
           | (Some sock, e2) \<Rightarrow>
               if accepts endpoint
               then (True, zp\<lparr>zp_context := Some ctx, zp_socket := Some (kind, sock), zp_is_bind := is_bind\<rparr>, e2)
               else (False, zp\<lparr>zp_context := None, zp_socket := None\<rparr>, give_back ctx (give_back sock e2))))"

definition zp_bind :: "(string \<Rightarrow> bool) \<Rightarrow> string \<Rightarrow> zmq_publisher \<Rightarrow> gpu_env \<Rightarrow> bool \<times> zmq_publisher \<times> gpu_env" where
  "zp_bind = zp_open ZMQ_PUB True"

definition zp_connect :: "(string \<Rightarrow> bool) \<Rightarrow> string \<Rightarrow> zmq_publisher \<Rightarrow> gpu_env \<Rightarrow> bool \<times> zmq_publisher \<times> gpu_env" where
  "zp_connect = zp_open ZMQ_SUB False"

definition zp_close :: "zmq_publisher \<Rightarrow> gpu_env \<Rightarrow> zmq_publisher \<times> gpu_env" where
  "zp_close zp env =
     (zp\<lparr>zp_socket := None, zp_context := None\<rparr>,
      give_back_opt (zp_context zp) (give_back_opt (map_option snd (zp_socket zp)) env))"

definition is_valid :: "zmq_publisher \<Rightarrow> bool" where
  "is_valid zp \<longleftrightarrow> zp_socket zp \<noteq> None"

section \<open>Sending\<close>

text \<open>
  The message of \<open>count\<close> results: the count, then the array. \<open>results\<close> is the memory the pointer
  refers to.
\<close>

definition frame_message :: "u8 list \<Rightarrow> int \<Rightarrow> u8 list exec" where
  "frame_message results cnt =
     (let n = unat (of_nat sizeof_msg * word_of_int cnt :: u64) in
      exec_bind (memcpy (replicate (4 + n) 0) (le_bytes 4 cnt) 4) (\<lambda>buffer.
      exec_bind (memcpy (drop 4 buffer) results n) (\<lambda>payload. Ret (take 4 buffer @ payload))))"

text \<open>\<open>send\<close>: the return code of \<open>zmq_msg_send\<close> and whether \<open>errno\<close> is \<open>EAGAIN\<close>.\<close>

type_synonym zmq_send = "u8 list \<Rightarrow> int \<times> bool"

definition publish :: "zmq_send \<Rightarrow> u8 list option \<Rightarrow> int \<Rightarrow> zmq_publisher \<Rightarrow> int exec" where
  "publish send results cnt zp =
     (if \<not> is_valid zp \<or> results = None \<or> cnt \<le> 0 then Ret (- 1)
      else exec_bind (frame_message (the results) cnt) (\<lambda>msg.
        case send msg of (rc, eagain) \<Rightarrow> Ret (if 0 < rc then 0 else - 1)))"

definition publish_nonblock :: "zmq_send \<Rightarrow> u8 list option \<Rightarrow> int \<Rightarrow> zmq_publisher \<Rightarrow> int exec" where
  "publish_nonblock send results cnt zp =
     (if \<not> is_valid zp \<or> results = None \<or> cnt \<le> 0 then Ret (- 1)
      else exec_bind (frame_message (the results) cnt) (\<lambda>msg.
        case send msg of (rc, eagain) \<Rightarrow>
          Ret (if rc < 0 \<and> eagain then 1 else if 0 < rc then 0 else - 1)))"

section \<open>Receiving\<close>

text \<open>The part after the receive: the return value and the output array.\<close>

definition parse_message :: "u8 list \<Rightarrow> i32 \<Rightarrow> u8 list \<Rightarrow> (int \<times> u8 list) exec" where
  "parse_message data max_count out =
     (if length data < 4 then Ret (- 1, out)
      else let net_count = get32 0 data;
               cnt = (if sint net_count < sint max_count then net_count else max_count);
               expected = (4 :: u64) + of_nat sizeof_msg * scast net_count
           in if expected \<le> of_nat (length data)
              then exec_bind (memcpy out (drop 4 data) (unat (of_nat sizeof_msg * scast cnt :: u64)))
                     (\<lambda>out'. Ret (sint cnt, out'))
              else Ret (0, out))"

text \<open>
  \<open>poll\<close> is the result of \<open>zmq_poll\<close>, \<open>recv\<close> the message or the failure of the receive; the flag is
  \<open>errno == EAGAIN\<close> after a failure.
\<close>

datatype zmq_recv = Received "u8 list" | Failed bool

definition receive ::
    "int \<Rightarrow> zmq_recv \<Rightarrow> u8 list option \<Rightarrow> i32 \<Rightarrow> int \<Rightarrow> zmq_publisher \<Rightarrow> (int \<times> u8 list option) exec" where
  "receive poll recv out_results max_count timeout_ms zp =
     (if \<not> is_valid zp \<or> out_results = None then Ret (- 1, out_results)
      else if 0 < timeout_ms \<and> poll \<le> 0 then Ret (if poll = 0 then 0 else - 1, out_results)
      else case recv of
             Failed _ \<Rightarrow> Ret (- 1, out_results)
           | Received data \<Rightarrow> exec_bind (parse_message data max_count (the out_results)) (\<lambda>(n, out). Ret (n, Some out)))"

definition receive_nonblock ::
    "zmq_recv \<Rightarrow> u8 list option \<Rightarrow> i32 \<Rightarrow> zmq_publisher \<Rightarrow> (int \<times> u8 list option) exec" where
  "receive_nonblock recv out_results max_count zp =
     (if \<not> is_valid zp \<or> out_results = None then Ret (- 1, out_results)
      else case recv of
             Failed eagain \<Rightarrow> Ret (if eagain then 0 else - 1, out_results)
           | Received data \<Rightarrow> exec_bind (parse_message data max_count (the out_results)) (\<lambda>(n, out). Ret (n, Some out)))"

section \<open>A message in memory and back\<close>

lemma put_at_length: "off + length bs \<le> length mem \<Longrightarrow> length (put_at off bs mem) = length mem"
  by (simp add: put_at_def)

lemma read_put_same:
  "off + length bs \<le> length mem \<Longrightarrow> n = length bs \<Longrightarrow> take n (drop off (put_at off bs mem)) = bs"
  by (simp add: put_at_def)

lemma read_put_other:
  assumes "off + length bs \<le> length mem" "off' + n \<le> off \<or> off + length bs \<le> off'"
  shows "take n (drop off' (put_at off bs mem)) = take n (drop off' mem)"
  using assms(2)
proof
  assume "off' + n \<le> off"
  then show ?thesis using assms(1) by (intro nth_equalityI) (auto simp: put_at_def nth_append)
next
  assume "off + length bs \<le> off'"
  then show ?thesis using assms(1) by (intro nth_equalityI) (auto simp: put_at_def nth_append)
qed

lemma fold_put_length:
  "list_all (\<lambda>(off, bs). off + length bs \<le> length mem) ps \<Longrightarrow>
   length (fold (\<lambda>(off, bs) mem. put_at off bs mem) ps mem) = length mem"
proof (induction ps arbitrary: mem)
  case (Cons p ps)
  obtain off bs where p: "p = (off, bs)" by (cases p)
  then have "length (put_at off bs mem) = length mem" using Cons.prems by (simp add: put_at_length)
  then show ?case using Cons p by simp
qed simp

lemma fold_put_before:
  "list_all (\<lambda>(off, bs). off + length bs \<le> length mem) ps \<Longrightarrow>
   list_all (\<lambda>(off, bs). o' + n \<le> off) ps \<Longrightarrow>
   take n (drop o' (fold (\<lambda>(off, bs) mem. put_at off bs mem) ps mem)) = take n (drop o' mem)"
proof (induction ps arbitrary: mem)
  case (Cons p ps)
  obtain off bs where p: "p = (off, bs)" by (cases p)
  then have "length (put_at off bs mem) = length mem" using Cons.prems by (simp add: put_at_length)
  moreover have "take n (drop o' (put_at off bs mem)) = take n (drop o' mem)"
    using Cons.prems p by (intro read_put_other) auto
  ultimately show ?case using Cons p by simp
qed simp

text \<open>Writing fields in ascending places: each can be read back.\<close>

lemma fold_put_read:
  "list_all (\<lambda>(off, bs). off + length bs \<le> length mem) ps \<Longrightarrow>
   sorted_wrt (\<lambda>(o1, b1) (o2, b2). o1 + length b1 \<le> o2) ps \<Longrightarrow> (off, bs) \<in> set ps \<Longrightarrow>
   take (length bs) (drop off (fold (\<lambda>(off, bs) mem. put_at off bs mem) ps mem)) = bs"
proof (induction ps arbitrary: mem)
  case (Cons p ps)
  obtain o1 b1 where p: "p = (o1, b1)" by (cases p)
  then have len: "length (put_at o1 b1 mem) = length mem" using Cons.prems by (simp add: put_at_length)
  show ?case
  proof (cases "(off, bs) \<in> set ps")
    case True
    then show ?thesis using Cons len p by simp
  next
    case False
    then have e: "off = o1" "bs = b1" using Cons.prems(3) p by auto
    have "list_all (\<lambda>(o2, b2). o1 + length b1 \<le> o2) ps"
      using Cons.prems(2) p by (auto simp: list_all_iff)
    then show ?thesis
      using fold_put_before [of "put_at o1 b1 mem" ps o1 "length b1"] Cons.prems(1) p len
      by (simp add: e read_put_same)
  qed
qed simp

definition msg_writes :: "arc_result_msg \<Rightarrow> (nat \<times> u8 list) list" where
  "msg_writes m = zip [0, 4, 8, 12, 16, 20, 24, 32, 40, 48, 56, 64, 72, 76, 80, 88] (map field_bytes (msg_fields m))"

lemma msg_bytes_writes: "msg_bytes pad m = fold (\<lambda>(off, bs) mem. put_at off bs mem) (msg_writes m) pad"
proof -
  have "fold (\<lambda>(off, f) mem. put_at off (field_bytes f) mem) (zip os fs) mem =
      fold (\<lambda>(off, bs) mem. put_at off bs mem) (zip os (map field_bytes fs)) mem" for os fs mem
    by (induction os fs arbitrary: mem rule: list_induct2') simp_all
  then show ?thesis by (simp only: msg_bytes_def offsets msg_writes_def)
qed

lemma msg_writes_ok:
  "list_all (\<lambda>(off, bs). off + length bs \<le> 96) (msg_writes m)"
  "sorted_wrt (\<lambda>(o1, b1) (o2, b2). o1 + length b1 \<le> o2) (msg_writes m)"
  by (simp_all add: msg_writes_def msg_fields_def del: le_bytes.simps)

lemma msg_bytes_length [simp]: "length pad = 96 \<Longrightarrow> length (msg_bytes pad m) = 96"
  using fold_put_length [of pad "msg_writes m"] msg_writes_ok(1) [of m] by (simp add: msg_bytes_writes)

lemma msg_read:
  assumes "length pad = 96"
  shows "(off, le_bytes 4 (uint w)) \<in> set (msg_writes m) \<Longrightarrow> get32 off (msg_bytes pad m) = w"
    and "(off, le_bytes 8 (uint v)) \<in> set (msg_writes m) \<Longrightarrow> get64 off (msg_bytes pad m) = v"
proof -
  note r = fold_put_read [of pad "msg_writes m", unfolded assms, OF msg_writes_ok, folded msg_bytes_writes]
  show "(off, le_bytes 4 (uint w)) \<in> set (msg_writes m) \<Longrightarrow> get32 off (msg_bytes pad m) = w"
    using r [of off "le_bytes 4 (uint w)"] by (simp add: get32_def le_word32)
  show "(off, le_bytes 8 (uint v)) \<in> set (msg_writes m) \<Longrightarrow> get64 off (msg_bytes pad m) = v"
    using r [of off "le_bytes 8 (uint v)"] by (simp add: get64_def le_word64)
qed

lemma msg_at_bytes:
  assumes "length pad = 96"
  shows "msg_at (msg_bytes pad m) = m"
proof -
  note w = msg_writes_def msg_fields_def
  have "get32 0 (msg_bytes pad m) = m_x1 m" "get32 4 (msg_bytes pad m) = m_y1 m"
    "get32 8 (msg_bytes pad m) = m_x2 m" "get32 12 (msg_bytes pad m) = m_y2 m"
    "get32 16 (msg_bytes pad m) = m_confidence m" "get32 20 (msg_bytes pad m) = m_class_id m"
    "get64 24 (msg_bytes pad m) = m_pts_ns m" "get32 32 (msg_bytes pad m) = m_stream_index m"
    "get64 40 (msg_bytes pad m) = m_intensity m" "get64 48 (msg_bytes pad m) = m_instant_energy m"
    "get64 56 (msg_bytes pad m) = m_smoothed_energy m" "get64 64 (msg_bytes pad m) = m_cumulative_energy m"
    "get32 72 (msg_bytes pad m) = m_severity_level m" "get32 76 (msg_bytes pad m) = m_track_id m"
    "get32 80 (msg_bytes pad m) = m_track_frame_count m" "get64 88 (msg_bytes pad m) = m_track_duration_ns m"
    by (rule msg_read [OF assms]; simp only: w zip_Cons_Cons list.map field_bytes.simps list.set insert_iff prod.inject simp_thms)+
  then show ?thesis by (simp add: msg_at_def offsets)
qed

text \<open>An array of results in memory.\<close>

definition array_bytes :: "u8 list list \<Rightarrow> arc_result_msg list \<Rightarrow> u8 list" where
  "array_bytes pads ms = concat (map2 msg_bytes pads ms)"

lemma array_bytes_parts:
  assumes "list_all (\<lambda>p. length p = 96) pads" "length pads = length ms"
  shows "length (array_bytes pads ms) = 96 * length ms"
    and "k < length ms \<Longrightarrow> take 96 (drop (96 * k) (array_bytes pads ms)) = msg_bytes (pads ! k) (ms ! k)"
proof -
  have "list_all (\<lambda>b. length b = 96) bs \<Longrightarrow> length (concat bs) = 96 * length bs \<and>
      (\<forall>k<length bs. take 96 (drop (96 * k) (concat bs)) = bs ! k)" for bs :: "u8 list list"
  proof (induction bs)
    case (Cons b bs)
    have "take 96 (drop (96 * k) (concat (b # bs))) = (b # bs) ! k" if "k < length (b # bs)" for k
      using that Cons by (cases k) simp_all
    then show ?case using Cons by simp
  qed simp
  from this [of "map2 msg_bytes pads ms"]
  have all: "list_all (\<lambda>b. length b = 96) (map2 msg_bytes pads ms) \<Longrightarrow>
      length (array_bytes pads ms) = 96 * length ms \<and>
      (\<forall>k<length ms. take 96 (drop (96 * k) (array_bytes pads ms)) = msg_bytes (pads ! k) (ms ! k))"
    using assms(2) by (simp add: array_bytes_def)
  moreover have "list_all (\<lambda>b. length b = 96) (map2 msg_bytes pads ms)"
    using assms by (auto simp: list_all_length)
  ultimately show "length (array_bytes pads ms) = 96 * length ms"
    "k < length ms \<Longrightarrow> take 96 (drop (96 * k) (array_bytes pads ms)) = msg_bytes (pads ! k) (ms ! k)" by auto
qed

section \<open>Framing\<close>

lemma size_as_int:
  "(96 * scast (k :: i32) :: u64) = word_of_int (96 * sint k)"
  "(4 + 96 * scast (k :: i32) :: u64) = word_of_int (4 + 96 * sint k)"
  unfolding scast_eq by simp_all

lemma uint_u64: "0 \<le> a \<Longrightarrow> a < 2 ^ 64 \<Longrightarrow> uint (word_of_int a :: u64) = a"
  unfolding uint_word_of_int_eq by (rule take_bit_int_eq_self) simp_all

lemma scast_i32_u64:
  assumes "0 \<le> sint (k :: i32)"
  shows "unat (96 * scast k :: u64) = 96 * nat (sint k)" "uint (4 + 96 * scast k :: u64) = 4 + 96 * sint k"
proof -
  have k: "sint k < 2 ^ 31" using sint_lt [of k] by simp
  have "uint (96 * scast k :: u64) = 96 * sint k"
    unfolding size_as_int using assms k by (intro uint_u64) simp_all
  then have "unat (96 * scast k :: u64) = nat (96 * sint k)" by (simp only: unat_eq_nat_uint)
  then show "unat (96 * scast k :: u64) = 96 * nat (sint k)" using assms by (simp only: nat_mult_distrib) simp
  show "uint (4 + 96 * scast k :: u64) = 4 + 96 * sint k"
    unfolding size_as_int(2) using assms k by (intro uint_u64) simp_all
qed

text \<open>A negative count asks for more bytes than any message has.\<close>

lemma negative_count_too_long:
  assumes "sint (k :: i32) < 0" "length data < 2 ^ 62"
  shows "\<not> (4 + 96 * scast k :: u64) \<le> of_nat (length data)"
proof -
  have k: "- (2 ^ 31) \<le> sint k" using sint_ge [of k] by simp
  have "(word_of_int (2 ^ 64) :: u64) = 0" by simp
  then have e: "(4 + 96 * scast k :: u64) = word_of_int (2 ^ 64 + (4 + 96 * sint k))"
    unfolding size_as_int(2) of_int_add [of "2 ^ 64"] by (simp only: add_0)
  have u: "uint (4 + 96 * scast k :: u64) = 2 ^ 64 + (4 + 96 * sint k)"
    unfolding e using assms(1) k by (intro uint_u64) simp_all
  have "uint (of_nat (length data) :: u64) \<le> int (length data)"
    by (simp add: unsigned_of_nat take_bit_eq_mod)
  then show ?thesis using k assms(2) unfolding word_le_def u by simp
qed

lemma message_length: "length data < 2 ^ 62 \<Longrightarrow> uint (of_nat (length data) :: u64) = int (length data)"
  by (simp add: unsigned_of_nat take_bit_nat_eq_self)

lemma parse_message_cases:
  assumes "0 \<le> sint max_count" "96 * nat (sint max_count) \<le> length out" "length data < 2 ^ 62"
  shows "parse_message data max_count out =
    (let n = sint (get32 0 data) in
     if length data < 4 then Ret (- 1, out)
     else if 0 \<le> n \<and> 4 + 96 * n \<le> int (length data)
     then Ret (min n (sint max_count), take (96 * nat (min n (sint max_count))) (drop 4 data) @
                 drop (96 * nat (min n (sint max_count))) out)
     else Ret (0, out))"
proof (cases "length data < 4 \<or> sint (get32 0 data) < 0")
  case True
  then show ?thesis
    using negative_count_too_long [OF _ assms(3), of "get32 0 data"] by (auto simp: parse_message_def Let_def)
next
  case False
  define k where "k = get32 0 data"
  define c where "c = (if sint k < sint max_count then k else max_count)"
  have c: "sint c = min (sint k) (sint max_count)" "0 \<le> sint c" using False assms(1) by (auto simp: c_def k_def)
  have le: "(4 + 96 * scast k :: u64) \<le> of_nat (length data) \<longleftrightarrow> 4 + 96 * sint k \<le> int (length data)"
    using False by (simp add: word_le_def scast_i32_u64 message_length [OF assms(3)] k_def)
  have "nat (sint c) \<le> nat (sint max_count)" using c by simp
  then have o: "96 * nat (sint c) \<le> length out" using assms(2) by linarith
  have d: "96 * nat (sint c) \<le> length data - 4" if "4 + 96 * sint k \<le> int (length data)"
    using that c False by linarith
  show ?thesis
    using False c le o d scast_i32_u64(1) [OF c(2)]
    by (simp add: parse_message_def Let_def k_def [symmetric] c_def [symmetric] memcpy_Ret)
qed

section \<open>Properties\<close>

text \<open>
  C15. What a receiver with room for \<open>max_count\<close> results makes of any bytes that arrive: fewer than four
  are reported with -1; a count that is negative or larger than the contents with 0; otherwise
  the call returns the smaller of the count and the room, and the array begins with exactly that many
  results of the message. In every case the rest of the array is untouched, and nothing is
  read or written out of bounds.
\<close>

theorem receive_any_message:
  assumes "is_valid zp" "0 \<le> sint max_count" "96 * nat (sint max_count) \<le> length out" "length data < 2 ^ 62"
  shows "receive_nonblock (Received data) (Some out) max_count zp =
    (let k = sint (get32 0 data); n = min k (sint max_count) in
     if length data < 4 then Ret (- 1, Some out)
     else if 0 \<le> k \<and> 4 + 96 * k \<le> int (length data)
     then Ret (n, Some (take (96 * nat n) (drop 4 data) @ drop (96 * nat n) out))
     else Ret (0, Some out))"
  using parse_message_cases [OF assms(2-4)] assms(1) by (simp add: receive_nonblock_def Let_def)

definition sub_socket :: zmq_publisher where
  "sub_socket = \<lparr>zp_context = Some 0, zp_socket = Some (ZMQ_SUB, 1), zp_is_bind = False\<rparr>"

definition pub_socket :: zmq_publisher where
  "pub_socket = \<lparr>zp_context = Some 0, zp_socket = Some (ZMQ_PUB, 1), zp_is_bind = True\<rparr>"

lemma sockets_open:
  "zp_connect (\<lambda>_. True) e zp_new \<lparr>ge_next = 0, ge_live = [], ge_outcomes = []\<rparr> =
     (True, sub_socket, \<lparr>ge_next = 2, ge_live = [1, 0], ge_outcomes = []\<rparr>)"
  "zp_bind (\<lambda>_. True) e zp_new \<lparr>ge_next = 0, ge_live = [], ge_outcomes = []\<rparr> =
     (True, pub_socket, \<lparr>ge_next = 2, ge_live = [1, 0], ge_outcomes = []\<rparr>)"
  by (simp_all add: zp_connect_def zp_bind_def zp_open_def obtain_res_def take_outcome_def zp_new_def sub_socket_def pub_socket_def)

lemma sockets_valid [simp]: "is_valid sub_socket" "is_valid pub_socket"
  by (simp_all add: sub_socket_def pub_socket_def is_valid_def)

text \<open>A negative count, and one result and a half where one was announced.\<close>

theorem receive_any_message_witness:
  "receive_nonblock (Received [255, 255, 255, 255, 7, 7]) (Some (replicate 96 0)) 1 sub_socket = Ret (0, Some (replicate 96 0)) \<and>
   receive_nonblock (Received (le_bytes 4 1 @ replicate 144 7)) (Some (replicate 192 0)) 2 sub_socket =
     Ret (1, Some (replicate 96 7 @ replicate 96 0))"
proof
  show "receive_nonblock (Received [255, 255, 255, 255, 7, 7]) (Some (replicate 96 0)) 1 sub_socket = Ret (0, Some (replicate 96 0))"
    using receive_any_message [of sub_socket 1 "replicate 96 0" "[255, 255, 255, 255, 7, 7]"] by (simp add: get32_def)
  have "sint (get32 0 (le_bytes 4 1 @ replicate 144 7)) = 1" by code_simp
  then show "receive_nonblock (Received (le_bytes 4 1 @ replicate 144 7)) (Some (replicate 192 0)) 2 sub_socket =
     Ret (1, Some (replicate 96 7 @ replicate 96 0))"
    using receive_any_message [of sub_socket 2 "replicate 192 0" "le_bytes 4 1 @ replicate 144 7"] by simp
qed

lemma frame_message_Ret:
  assumes "0 \<le> c" "c < 2 ^ 31" "96 * nat c \<le> length results"
  shows "frame_message results c = Ret (le_bytes 4 c @ take (96 * nat c) results)"
proof -
  have "unat (of_nat sizeof_msg * word_of_int c :: u64) = nat (96 * c)"
  proof -
    have "(of_nat sizeof_msg * word_of_int c :: u64) = word_of_int (96 * c)" by simp
    moreover have "uint (word_of_int (96 * c) :: u64) = 96 * c" using assms by (intro uint_u64) simp_all
    ultimately show ?thesis by (simp only: unat_eq_nat_uint)
  qed
  then have n: "unat (of_nat sizeof_msg * word_of_int c :: u64) = 96 * nat c" using assms(1) by (simp add: nat_mult_distrib)
  show ?thesis
    unfolding frame_message_def Let_def n using assms(3) by (simp add: memcpy_Ret del: le_bytes.simps)
qed

lemma get32_count: "0 \<le> c \<Longrightarrow> c < 2 ^ 31 \<Longrightarrow> sint (get32 0 (le_bytes 4 c @ rest)) = c"
  by (simp add: get32_def le_roundtrip sint_of_int_i32 mod_pos_pos_trivial del: le_bytes.simps)

lemma receive_published:
  assumes "is_valid zp" "ms \<noteq> []" "list_all (\<lambda>p. length p = 96) pads" "length pads = length ms"
    "int (length ms) \<le> sint max_count" "96 * nat (sint max_count) \<le> length out"
  shows "\<exists>msg out'. frame_message (array_bytes pads ms) (int (length ms)) = Ret msg \<and>
    receive_nonblock (Received msg) (Some out) max_count zp = Ret (int (length ms), Some out') \<and>
    map (\<lambda>k. msg_at (take 96 (drop (96 * k) out'))) [0..<length ms] = ms"
proof -
  have c: "int (length ms) < 2 ^ 31" using assms(5) sint_lt [of max_count] by simp
  note len = array_bytes_parts(1) [OF assms(3,4)]
  define msg where "msg = le_bytes 4 (int (length ms)) @ array_bytes pads ms"
  have f: "frame_message (array_bytes pads ms) (int (length ms)) = Ret msg"
    using frame_message_Ret [of "int (length ms)" "array_bytes pads ms"] c len by (simp add: msg_def del: le_bytes.simps)
  have l: "length msg = 4 + 96 * length ms" by (simp add: msg_def len)
  then have l62: "length msg < 2 ^ 62" using c by simp
  have n: "sint (get32 0 msg) = int (length ms)" using get32_count [OF _ c] by (simp add: msg_def)
  have m: "0 \<le> sint max_count" using assms(5) by linarith
  have d: "drop 4 msg = array_bytes pads ms" by (simp add: msg_def del: le_bytes.simps)
  have r: "receive_nonblock (Received msg) (Some out) max_count zp =
      Ret (int (length ms), Some (array_bytes pads ms @ drop (96 * length ms) out))"
    using parse_message_cases [OF m assms(6) l62] assms(1,5)
    by (simp add: receive_nonblock_def n l d len min_absorb1)
  have "map (\<lambda>k. msg_at (take 96 (drop (96 * k) (array_bytes pads ms @ drop (96 * length ms) out)))) [0..<length ms] = ms"
  proof (rule nth_equalityI)
    fix k assume "k < length (map (\<lambda>k. msg_at (take 96 (drop (96 * k) (array_bytes pads ms @ drop (96 * length ms) out)))) [0..<length ms])"
    then have k: "k < length ms" by simp
    then have "take 96 (drop (96 * k) (array_bytes pads ms @ drop (96 * length ms) out)) = msg_bytes (pads ! k) (ms ! k)"
      using array_bytes_parts(2) [OF assms(3,4) k] len by simp
    then show "map (\<lambda>k. msg_at (take 96 (drop (96 * k) (array_bytes pads ms @ drop (96 * length ms) out)))) [0..<length ms] ! k = ms ! k"
      using k assms(3,4) by (simp add: msg_at_bytes list_all_length)
  qed simp
  then show ?thesis using f r by blast
qed

text \<open>
  C14. What is published is what is received: the message framed for an array of results, received
  with enough room, is accepted, reports their number, and puts the same results in the array,
  field for field, whatever the padding bytes are.
\<close>

theorem publish_receive_roundtrip:
  assumes "is_valid zp" "ms \<noteq> []" "list_all (\<lambda>p. length p = 96) pads" "length pads = length ms"
    "int (length ms) \<le> sint max_count" "96 * nat (sint max_count) \<le> length out"
  shows "\<exists>msg out'. frame_message (array_bytes pads ms) (int (length ms)) = Ret msg \<and>
    receive_nonblock (Received msg) (Some out) max_count zp = Ret (int (length ms), Some out') \<and>
    map (\<lambda>k. msg_at (take 96 (drop (96 * k) out'))) [0..<length ms] = ms"
  using assms by (rule receive_published)

definition demo_msg :: arc_result_msg where
  "demo_msg = \<lparr>m_x1 = 0, m_y1 = 0, m_x2 = 1, m_y2 = 1, m_confidence = 1065353216, m_class_id = 1, m_pts_ns = 33000000,
     m_stream_index = 2, m_intensity = 3, m_instant_energy = 4, m_smoothed_energy = 5, m_cumulative_energy = 6,
     m_severity_level = 1, m_track_id = 7, m_track_frame_count = 1, m_track_duration_ns = - 1\<rparr>"

theorem publish_receive_roundtrip_witness:
  "\<exists>msg out'. frame_message (array_bytes [replicate 96 170] [demo_msg]) 1 = Ret msg \<and>
     receive_nonblock (Received msg) (Some (replicate 192 0)) 2 sub_socket = Ret (1, Some out') \<and>
     [msg_at (take 96 out')] = [demo_msg]"
proof -
  from publish_receive_roundtrip [OF sockets_valid(1), of "[demo_msg]" "[replicate 96 170]" 2 "replicate 192 0"]
  show ?thesis by simp
qed

lemma publish_nonblock_Ret:
  assumes "\<And>r. results = Some r \<Longrightarrow> cnt < 2 ^ 31 \<and> 96 * nat cnt \<le> length r"
  shows "publish_nonblock send results cnt zp =
    (case results of
       Some r \<Rightarrow>
         if is_valid zp \<and> 0 < cnt
         then Ret (case send (le_bytes 4 cnt @ take (96 * nat cnt) r) of (rc, eagain) \<Rightarrow>
                     if 0 < rc then 0 else if rc < 0 \<and> eagain then 1 else - 1)
         else Ret (- 1)
     | None \<Rightarrow> Ret (- 1))"
proof (cases results)
  case (Some r)
  then show ?thesis
    using assms frame_message_Ret [of cnt r]
    by (auto simp: publish_nonblock_def split: prod.splits simp del: le_bytes.simps)
qed (simp add: publish_nonblock_def)

text \<open>
  Publishing without waiting reports 0 exactly when the library accepted the message, 1 when it
  would have had to wait, and -1 otherwise; without a socket, results or a positive count nothing
  is sent.
\<close>

theorem publish_nonblock_codes:
  assumes "\<And>r. results = Some r \<Longrightarrow> cnt < 2 ^ 31 \<and> 96 * nat cnt \<le> length r"
  shows "publish_nonblock send results cnt zp =
    (case results of
       Some r \<Rightarrow>
         if is_valid zp \<and> 0 < cnt
         then Ret (case send (le_bytes 4 cnt @ take (96 * nat cnt) r) of (rc, eagain) \<Rightarrow>
                     if 0 < rc then 0 else if rc < 0 \<and> eagain then 1 else - 1)
         else Ret (- 1)
     | None \<Rightarrow> Ret (- 1))"
  using assms by (rule publish_nonblock_Ret)

theorem publish_nonblock_codes_witness:
  "publish_nonblock (\<lambda>msg. (- 1, length msg = 100)) (Some (replicate 96 0)) 1 pub_socket = Ret 1"
  using publish_nonblock_codes [of "Some (replicate 96 0)" 1 "\<lambda>msg. (- 1, length msg = 100)" pub_socket]
  by (simp del: le_bytes.simps)

section \<open>Resources of the channel\<close>

definition zp_owned :: "zmq_publisher \<Rightarrow> nat list" where
  "zp_owned zp = (case zp_context zp of Some c \<Rightarrow> [c] | None \<Rightarrow> []) @
     (case zp_socket zp of Some (_, s) \<Rightarrow> [s] | None \<Rightarrow> [])"

lemma zp_close_grown:
  assumes "grown a env (zp_owned zp @ xs)"
  shows "grown a (snd (zp_close zp env)) xs"
proof -
  let ?o = "\<lambda>h. case h of Some k \<Rightarrow> [k] | None \<Rightarrow> []"
  have "grown a env (?o (map_option snd (zp_socket zp)) @ ?o (zp_context zp) @ xs)"
    by (rule grown_cong [OF assms]) (auto simp: zp_owned_def split: option.split)
  then show ?thesis unfolding zp_close_def snd_conv by (intro grown_give_back_opt)
qed

lemma zp_open_grown:
  assumes "zp_open kind is_bind accepts endpoint zp_new env = (ok, zp, env')" "grown a env xs"
  shows "grown a env' (zp_owned zp @ xs) \<and> (is_valid zp \<longleftrightarrow> ok)"
proof -
  obtain r1 e1 where o1: "obtain_res env = (r1, e1)" by (cases "obtain_res env")
  note g1 = grown_obtain [OF o1 assms(2)]
  show ?thesis
  proof (cases r1)
    case None
    then show ?thesis using assms(1) g1 by (auto simp: zp_open_def o1 zp_owned_def zp_new_def is_valid_def)
  next
    case (Some c)
    obtain r2 e2 where o2: "obtain_res e1 = (r2, e2)" by (cases "obtain_res e1")
    note g2 = grown_obtain [OF o2 g1]
    show ?thesis
    proof (cases r2)
      case None
      then show ?thesis
        using assms(1) g2 Some grown_give_back [of a e2 c xs]
        by (auto simp: zp_open_def o1 o2 zp_owned_def zp_new_def is_valid_def)
    next
      case s: (Some s)
      have "grown a e2 (s # c # xs)" using g2 Some s by simp
      then have "grown a (give_back c (give_back s e2)) xs" "grown a e2 (c # s # xs)"
        using grown_give_back grown_cong [of a e2 "s # c # xs" "c # s # xs"] by (blast, simp)
      then show ?thesis
        using assms(1) Some s by (auto simp: zp_open_def o1 o2 zp_owned_def zp_new_def is_valid_def split: if_splits)
    qed
  qed
qed

end
