(* ===== verification/Float_Bits.thy ===== *)
theory Float_Bits
  imports Fp
begin

text \<open>
  Bit patterns of \<open>float\<close> and \<open>double\<close> values: sign, biased exponent and fraction of IEEE 754, and
  their reading back. The result messages and the detector's byte view of a float array use them.
\<close>

section \<open>Patterns\<close>

text \<open>Exponent and fraction as one number; a zero exponent field is the subnormal range.\<close>

definition float_code :: "int \<Rightarrow> int \<Rightarrow> rat \<Rightarrow> int" where
  "float_code p emin x = (if x = 0 then 0
     else let e = ulp_exp p emin x in (e - emin) * 2 ^ nat (p - 1) + rne (\<bar>x\<bar> / two_pow e))"

definition float_decode :: "int \<Rightarrow> int \<Rightarrow> int \<Rightarrow> rat" where
  "float_decode p emin c = (let f = c div 2 ^ nat (p - 1); m = c mod 2 ^ nat (p - 1) in
     if f = 0 then of_int m * two_pow emin else of_int (2 ^ nat (p - 1) + m) * two_pow (emin + f - 1))"

definition f32_bits :: "rat \<Rightarrow> int" where
  "f32_bits x = float_code 24 (- 149) x + (if x < 0 then 2 ^ 31 else 0)"

definition f64_bits :: "rat \<Rightarrow> int" where
  "f64_bits x = float_code 53 (- 1074) x + (if x < 0 then 2 ^ 63 else 0)"

definition f32_value :: "i32 \<Rightarrow> rat" where
  "f32_value w = (if uint w < 2 ^ 31 then float_decode 24 (- 149) (uint w)
     else - float_decode 24 (- 149) (uint w - 2 ^ 31))"

definition f64_value :: "i64 \<Rightarrow> rat" where
  "f64_value w = (if uint w < 2 ^ 63 then float_decode 53 (- 1074) (uint w)
     else - float_decode 53 (- 1074) (uint w - 2 ^ 63))"

section \<open>Reading back\<close>

lemma float_decode_normal:
  assumes "emin \<le> e" "2 ^ nat (p - 1) \<le> m" "m < 2 * 2 ^ nat (p - 1)"
  shows "float_decode p emin ((e - emin) * 2 ^ nat (p - 1) + m) = of_int m * two_pow e"
proof -
  let ?P = "2 ^ nat (p - 1) :: int"
  have c: "(e - emin) * ?P + m = (m - ?P) + ?P * (e - emin + 1)" by (simp add: algebra_simps)
  have r: "(m - ?P) div ?P = 0" "(m - ?P) mod ?P = m - ?P"
    using assms(2,3) by (intro div_pos_pos_trivial mod_pos_pos_trivial; simp)+
  have d: "((e - emin) * ?P + m) div ?P = e - emin + 1" "((e - emin) * ?P + m) mod ?P = m - ?P"
    unfolding c div_mult_self2 mod_mult_self2 using assms(2,3) r by simp_all
  show ?thesis using assms(1) unfolding float_decode_def Let_def d by simp
qed

lemma float_decode_subnormal: "0 \<le> m \<Longrightarrow> m < 2 ^ nat (p - 1) \<Longrightarrow> float_decode p emin m = of_int m * two_pow emin"
  by (simp add: float_decode_def Let_def)

text \<open>The parts of a value of the format.\<close>

lemma fixed_parts:
  assumes "1 \<le> p" "fl_round p emin x = x" "x \<noteq> 0"
  obtains m where "\<bar>x\<bar> = of_int m * two_pow (ulp_exp p emin x)" "float_code p emin x = (ulp_exp p emin x - emin) * 2 ^ nat (p - 1) + m"
    "0 \<le> m" "m < 2 * 2 ^ nat (p - 1)" "emin < ulp_exp p emin x \<Longrightarrow> 2 ^ nat (p - 1) \<le> m" "emin \<le> ulp_exp p emin x"
proof -
  define e where "e = ulp_exp p emin x"
  have ea: "ulp_exp p emin \<bar>x\<bar> = e" by (simp add: e_def ulp_exp_def)
  define m where "m = rne (\<bar>x\<bar> / two_pow e)"
  have "fl_round p emin \<bar>x\<bar> = \<bar>x\<bar>" using assms(2) by (simp add: abs_if fl_round_minus)
  then have x: "\<bar>x\<bar> = of_int m * two_pow e" using fl_round_eq [of p emin "\<bar>x\<bar>"] by (simp add: ea m_def)
  have pos: "0 < \<bar>x\<bar>" using assms(3) by simp
  then have m0: "0 < m" using x zero_less_mult_pos2 [of "of_int m" "two_pow e"] by simp
  have "of_int m < two_pow p"
    using signif_bound [OF pos, of p emin, unfolded ea] unfolding x by simp
  also have "\<dots> = of_int (2 ^ nat p)" using assms(1) by (intro two_pow_nat) simp
  finally have "m < 2 ^ nat p" by (simp only: of_int_less_iff)
  moreover have "nat p = Suc (nat (p - 1))" using assms(1) by simp
  ultimately have hi: "m < 2 * 2 ^ nat (p - 1)" by simp
  have lo: "2 ^ nat (p - 1) \<le> m" if "emin < e"
  proof -
    have e: "e = flog2 \<bar>x\<bar> - (p - 1)" using that by (auto simp: e_def ulp_exp_def)
    have "two_pow (p - 1) * two_pow e = two_pow (flog2 \<bar>x\<bar>)"
      unfolding e two_pow_add [symmetric] by simp
    then have "two_pow (p - 1) * two_pow e \<le> of_int m * two_pow e"
      using flog2_bounds(1) [OF pos] unfolding x by (simp only:)
    then have "two_pow (p - 1) \<le> of_int m" by simp
    then have "of_int (2 ^ nat (p - 1)) \<le> (of_int m :: rat)" using assms(1) two_pow_nat [of "p - 1"] by simp
    then show ?thesis by (simp only: of_int_le_iff)
  qed
  show ?thesis
  proof (rule that [of m])
    show "\<bar>x\<bar> = of_int m * two_pow (ulp_exp p emin x)" using x unfolding e_def .
    show "float_code p emin x = (ulp_exp p emin x - emin) * 2 ^ nat (p - 1) + m"
      using assms(3) unfolding float_code_def Let_def m_def e_def by simp
    show "emin \<le> ulp_exp p emin x" by (simp add: ulp_exp_def)
  qed (use hi m0 lo in \<open>simp_all add: e_def\<close>)
qed

lemma float_decode_code:
  assumes "1 \<le> p" "fl_round p emin x = x"
  shows "float_decode p emin (float_code p emin x) = \<bar>x\<bar>"
proof (cases "x = 0")
  case True
  then show ?thesis by (simp add: float_code_def float_decode_def)
next
  case False
  obtain m where
    m: "\<bar>x\<bar> = of_int m * two_pow (ulp_exp p emin x)" "float_code p emin x = (ulp_exp p emin x - emin) * 2 ^ nat (p - 1) + m"
    "0 \<le> m" "m < 2 * 2 ^ nat (p - 1)" "emin < ulp_exp p emin x \<Longrightarrow> 2 ^ nat (p - 1) \<le> m" "emin \<le> ulp_exp p emin x"
    using fixed_parts [OF assms False] by blast
  show ?thesis
  proof (cases "2 ^ nat (p - 1) \<le> m")
    case True
    then show ?thesis using m float_decode_normal [OF m(6) True m(4)] by simp
  next
    case False
    then have "ulp_exp p emin x = emin" using m(5,6) by linarith
    then show ?thesis using m(1-3) False by (simp add: float_decode_subnormal)
  qed
qed

lemma float_code_bounds:
  assumes "1 \<le> p" "fl_round p emin x = x" "\<bar>x\<bar> < two_pow E" "emin + p \<le> E"
  shows "0 \<le> float_code p emin x \<and> float_code p emin x < (E - p - emin + 2) * 2 ^ nat (p - 1)"
proof (cases "x = 0")
  case True
  then show ?thesis using assms(4) by (simp add: float_code_def)
next
  case False
  let ?P = "2 ^ nat (p - 1) :: int"
  obtain m where
    m: "float_code p emin x = (ulp_exp p emin x - emin) * ?P + m" "0 \<le> m" "m < 2 * ?P" "emin \<le> ulp_exp p emin x"
    using fixed_parts [OF assms(1,2) False] by blast
  have "0 < \<bar>x\<bar>" using False by simp
  from order_le_less_trans [OF flog2_bounds(1) [OF this] assms(3)]
  have "flog2 \<bar>x\<bar> < E" unfolding two_pow_less_iff .
  then have "ulp_exp p emin x \<le> E - p" using assms(4) by (simp add: ulp_exp_def)
  define a where "a = (ulp_exp p emin x - emin) * ?P"
  have "a \<le> (E - p - emin) * ?P" unfolding a_def using \<open>ulp_exp p emin x \<le> E - p\<close> by (intro mult_right_mono) simp_all
  moreover have "0 \<le> a" using m(4) by (simp add: a_def)
  moreover have "(E - p - emin + 2) * ?P = (E - p - emin) * ?P + 2 * ?P" by (rule distrib_right)
  ultimately show ?thesis using m(1-3) unfolding a_def [symmetric] by linarith
qed

text \<open>A finite value survives the trip through its pattern.\<close>

lemma f32_roundtrip:
  assumes "rnd32 x = x" "\<bar>x\<bar> < 2 ^ 128"
  shows "f32_value (word_of_int (f32_bits x)) = x"
proof -
  have x: "fl_round 24 (- 149) x = x" "\<bar>x\<bar> < two_pow 128" using assms by (simp_all add: rnd32_def)
  have c: "0 \<le> float_code 24 (- 149) x" "float_code 24 (- 149) x < 2 ^ 31"
    using float_code_bounds [OF _ x] by simp_all
  have "uint (word_of_int (f32_bits x) :: i32) = f32_bits x"
    unfolding uint_word_of_int_eq using c by (intro take_bit_int_eq_self) (simp_all add: f32_bits_def)
  then show ?thesis using c float_decode_code [OF _ x(1)] by (simp add: f32_value_def f32_bits_def)
qed

lemma f64_roundtrip:
  assumes "rnd64 x = x" "\<bar>x\<bar> < 2 ^ 1024"
  shows "f64_value (word_of_int (f64_bits x)) = x"
proof -
  have x: "fl_round 53 (- 1074) x = x" using assms by (simp add: rnd64_def)
  have e: "\<bar>x\<bar> < two_pow 1024" using assms(2) by (simp only: power_int_numeral)
  have c: "0 \<le> float_code 53 (- 1074) x" "float_code 53 (- 1074) x < 2 ^ 63"
    using float_code_bounds [OF _ x e] by simp_all
  have "uint (word_of_int (f64_bits x) :: i64) = f64_bits x"
    unfolding uint_word_of_int_eq using c by (intro take_bit_int_eq_self) (simp_all add: f64_bits_def)
  then show ?thesis using c float_decode_code [OF _ x] by (simp add: f64_value_def f64_bits_def)
qed

end
