(* ===== verification/Arc_Detector.thy ===== *)
theory Arc_Detector
  imports Trt_Engine Tracker_Inv Energy Zmq_Publisher Float_Bits
begin

text \<open>
  The detector of \<open>arc_detector.h\<close> and \<open>arc_detector.cpp\<close>: the inference contexts of the streams,
  and the detection of one frame pair, from the regions found on the visible frame through the
  ultraviolet network, suppression, energies and the tracker to the events it reports.

  Everything outside the program is in the record \<open>runtime\<close>. Pixel coordinates and confidences are
  \<open>float\<close>, energies and track data \<open>double\<close>; a \<open>float\<close> converts to \<open>double\<close> unchanged.
\<close>

section \<open>Data\<close>

record arc_flash_event =
  ev_box :: rect
  ev_confidence :: rat
  ev_pts_ns :: i64
  ev_stream_index :: i32
  ev_intensity :: rat
  ev_instant_energy :: rat
  ev_smoothed_energy :: rat
  ev_cumulative_energy :: rat
  ev_severity :: severity
  ev_track_id :: i32
  ev_track_frame_count :: i32
  ev_track_duration_ns :: i64

record pantograph_roi =
  roi_box :: rect
  roi_confidence :: rat

record arc_detector_config =
  ac_visible_engine_path :: string
  ac_uv_engine_path :: string
  ac_tensorrt_device :: int
  ac_visible_score_thresh :: rat
  ac_uv_score_thresh :: rat
  ac_nms_thresh :: rat
  ac_uv_gain :: rat
  ac_uv_blend_weight :: rat
  ac_roi_padding :: int
  ac_model_input_h :: int
  ac_model_input_w :: int
  ac_context_pool_size :: int
  ac_severity_thresholds :: severity_thresholds

record stream_context =
  sc_visible_engine :: trt_engine
  sc_uv_engine :: trt_engine
  sc_tracker :: tracker
  sc_stream_index :: int
  sc_initialized :: bool

text \<open>The hash map of contexts is an association list, in the order in which it iterates.\<close>

record arc_detector =
  ad_config :: arc_detector_config
  ad_contexts :: "(int \<times> stream_context) list"
  ad_base_initialized :: bool

definition ad_new :: "arc_detector_config \<Rightarrow> arc_detector" where
  "ad_new config = \<lparr>ad_config = config, ad_contexts = [], ad_base_initialized = False\<rparr>"

text \<open>
  The surroundings: thread order and copies of CUDA, the two networks, the sorting routine of the
  standard library at its two types, what the input buffers and the first host buffers of pooled
  contexts hold before an inference, and the contents of a fresh device buffer of floats.
\<close>

record runtime =
  rt_sched :: schedule
  rt_d2h :: d2h_copy
  rt_net_visible :: network
  rt_net_uv :: network
  rt_sort_det :: "detection list \<Rightarrow> detection list"
  rt_sort_event :: "arc_flash_event list \<Rightarrow> arc_flash_event list"
  rt_buf :: "nat \<Rightarrow> rat list"
  rt_host :: "nat \<Rightarrow> rat list"
  rt_fresh :: "nat \<Rightarrow> rat list"
  rt_read_file :: "string \<Rightarrow> u8 list option"
  rt_deserialize :: "u8 list \<Rightarrow> binding list option"

section \<open>Contexts of streams\<close>

definition ad_init :: "arc_detector \<Rightarrow> bool \<times> arc_detector" where
  "ad_init ad = (if ad_base_initialized ad then (True, ad) else (True, ad\<lparr>ad_base_initialized := True\<rparr>))"

definition visible_infer_config :: "arc_detector_config \<Rightarrow> infer_config" where
  "visible_infer_config c = infer_config_default\<lparr>ic_engine_path := ac_visible_engine_path c,
     ic_device_id := ac_tensorrt_device c, ic_score_threshold := ac_visible_score_thresh c,
     ic_nms_threshold := ac_nms_thresh c, ic_input_h := ac_model_input_h c,
     ic_input_w := ac_model_input_w c, ic_fp16 := True, ic_context_pool_size := 1\<rparr>"

definition uv_infer_config :: "arc_detector_config \<Rightarrow> infer_config" where
  "uv_infer_config c = infer_config_default\<lparr>ic_engine_path := ac_uv_engine_path c,
     ic_device_id := ac_tensorrt_device c, ic_score_threshold := ac_uv_score_thresh c,
     ic_nms_threshold := ac_nms_thresh c, ic_input_h := ac_model_input_h c,
     ic_input_w := ac_model_input_w c, ic_fp16 := True, ic_context_pool_size := 1\<rparr>"

text \<open>The lookup the operations share: an entry, if it is initialised.\<close>

definition get_stream_context :: "int \<Rightarrow> arc_detector \<Rightarrow> stream_context option" where
  "get_stream_context stream_index ad =
     (case map_of (ad_contexts ad) stream_index of
        Some sc \<Rightarrow> if sc_initialized sc then Some sc else None
      | None \<Rightarrow> None)"

text \<open>Destroying a context unloads its engines.\<close>

definition destroy_context :: "stream_context \<Rightarrow> gpu_env \<Rightarrow> gpu_env" where
  "destroy_context sc env = snd (te_unload (sc_uv_engine sc) (snd (te_unload (sc_visible_engine sc) env)))"

text \<open>
  \<open>init_stream\<close> up to the assignment to the map (\<open>stored\<close> tells whether it got there). The engines of
  a failed attempt are destroyed on return, and so is an entry that is replaced.
\<close>

definition init_stream_store ::
    "runtime \<Rightarrow> int \<Rightarrow> arc_detector \<Rightarrow> gpu_env \<Rightarrow> bool \<times> arc_detector \<times> gpu_env" where
  "init_stream_store rt stream_index ad env =
     (let cfg = ad_config ad in
      case te_load (rt_read_file rt) (rt_deserialize rt) (visible_infer_config cfg) te_new env of
        (False, te, e1) \<Rightarrow> (False, ad, snd (te_unload te e1))
      | (True, visible, e1) \<Rightarrow>
          (case te_load (rt_read_file rt) (rt_deserialize rt) (uv_infer_config cfg) te_new e1 of
             (False, te, e2) \<Rightarrow> (False, ad, snd (te_unload visible (snd (te_unload te e2))))
           | (True, uv, e2) \<Rightarrow>
               let ctx = \<lparr>sc_visible_engine = visible, sc_uv_engine = uv,
                      sc_tracker = lt_new (ac_severity_thresholds cfg) (rnd64 (3/10)) 100000000 64,
                      sc_stream_index = stream_index, sc_initialized = True\<rparr>;
                   e3 = (case map_of (ad_contexts ad) stream_index of
                           Some old \<Rightarrow> destroy_context old e2 | None \<Rightarrow> e2)
               in (True, ad\<lparr>ad_contexts := (stream_index, ctx) # filter (\<lambda>p. fst p \<noteq> stream_index) (ad_contexts ad)\<rparr>, e3)))"

text \<open>
  The whole of \<open>init_stream\<close>. The log line after the assignment reads \<open>ctx->visible_engine\<close> and
  \<open>ctx->uv_engine\<close>, but \<open>ctx\<close> was moved from and is null: undefined.
\<close>

definition init_stream ::
    "runtime \<Rightarrow> int \<Rightarrow> arc_detector \<Rightarrow> gpu_env \<Rightarrow> (bool \<times> arc_detector \<times> gpu_env) exec" where
  "init_stream rt stream_index ad env =
     (if get_stream_context stream_index ad \<noteq> None then Ret (True, ad, env)
      else case init_stream_store rt stream_index ad env of
             (False, ad1, e1) \<Rightarrow> Ret (False, ad1, e1)
           | (True, ad1, e1) \<Rightarrow> UB)"

definition shutdown_stream :: "int \<Rightarrow> arc_detector \<Rightarrow> gpu_env \<Rightarrow> arc_detector \<times> gpu_env" where
  "shutdown_stream stream_index ad env =
     (case map_of (ad_contexts ad) stream_index of
        Some sc \<Rightarrow> (ad\<lparr>ad_contexts := filter (\<lambda>p. fst p \<noteq> stream_index) (ad_contexts ad)\<rparr>, destroy_context sc env)
      | None \<Rightarrow> (ad, env))"

definition ad_shutdown :: "arc_detector \<Rightarrow> gpu_env \<Rightarrow> arc_detector \<times> gpu_env" where
  "ad_shutdown ad env =
     (ad\<lparr>ad_contexts := [], ad_base_initialized := False\<rparr>,
      fold (\<lambda>(i, sc). destroy_context sc) (ad_contexts ad) env)"

section \<open>Regions of the visible frame\<close>

definition padded_roi :: "int \<Rightarrow> int \<Rightarrow> int \<Rightarrow> detection \<Rightarrow> pantograph_roi" where
  "padded_roi pad width height det = (let p = rnd32 (of_int pad); b = det_box det in
     \<lparr>roi_box = \<lparr>rx1 = max 0 (rnd32 (rx1 b - p)), ry1 = max 0 (rnd32 (ry1 b - p)),
        rx2 = min (rnd32 (of_int width)) (rnd32 (rx2 b + p)), ry2 = min (rnd32 (of_int height)) (rnd32 (ry2 b + p))\<rparr>,
      roi_confidence = det_confidence det\<rparr>)"

definition extract_pantograph_rois ::
    "runtime \<Rightarrow> arc_detector_config \<Rightarrow> u8 list \<Rightarrow> int \<Rightarrow> int \<Rightarrow> trt_engine \<Rightarrow>
     (pantograph_roi list \<times> trt_engine) exec" where
  "extract_pantograph_rois rt cfg visible width height engine =
     exec_bind (infer (rt_sched rt) (rt_net_visible rt) (rt_sort_det rt) (rt_buf rt) (rt_host rt) visible width height 3 engine)
       (\<lambda>(dets, engine1). Ret (map (padded_roi (ac_roi_padding cfg) width height) dets, engine1))"

section \<open>Events in the regions\<close>

text \<open>The bytes of an array of floats.\<close>

definition float_bytes :: "rat list \<Rightarrow> u8 list" where
  "float_bytes xs = concat (map (\<lambda>x. le_bytes 4 (f32_bits x)) xs)"

definition roi_event :: "rect \<Rightarrow> int \<Rightarrow> int \<Rightarrow> int \<Rightarrow> int \<Rightarrow> i64 \<Rightarrow> i32 \<Rightarrow> detection \<Rightarrow> arc_flash_event" where
  "roi_event roi roi_w roi_h dst_w dst_h pts_ns stream_index det =
     (let scale = (\<lambda>v dst len org. rnd32 (rnd32 (rnd32 (v / rnd32 (of_int dst)) * rnd32 (of_int len)) + org));
          b = det_box det;
          box = \<lparr>rx1 = scale (rx1 b) dst_w roi_w (rx1 roi), ry1 = scale (ry1 b) dst_h roi_h (ry1 roi),
                 rx2 = scale (rx2 b) dst_w roi_w (rx1 roi), ry2 = scale (ry2 b) dst_h roi_h (ry1 roi)\<rparr>;
          box_area = rect_area rnd32 box
      in \<lparr>ev_box = box, ev_confidence = det_confidence det, ev_pts_ns = pts_ns, ev_stream_index = stream_index,
          ev_intensity = (if 0 < box_area then rnd32 (det_confidence det / box_area) else 0),
          ev_instant_energy = 0, ev_smoothed_energy = 0, ev_cumulative_energy = 0,
          ev_severity = LEVEL_1_MINOR_SPARK, ev_track_id = 0, ev_track_frame_count = 0, ev_track_duration_ns = 0\<rparr>)"

text \<open>
  One region: the crop of the blended image, the ultraviolet network on the crop, the events. The
  blended and the cropped image are \<open>float\<close> arrays that the code passes on as bytes. The return
  codes of the launches are ignored.
\<close>

definition detect_in_roi ::
    "runtime \<Rightarrow> arc_detector_config \<Rightarrow> u8 list \<Rightarrow> int \<Rightarrow> int \<Rightarrow> i64 \<Rightarrow> i32 \<Rightarrow> pantograph_roi \<Rightarrow>
     arc_flash_event list \<times> trt_engine \<Rightarrow> (arc_flash_event list \<times> trt_engine) exec" where
  "detect_in_roi rt cfg blended width height pts_ns stream_index roi acc =
     (case acc of (all_events, engine) \<Rightarrow> let b = roi_box roi in
        exec_bind (to_int (rnd32 (rx2 b - rx1 b))) (\<lambda>roi_w.
        exec_bind (to_int (rnd32 (ry2 b - ry1 b))) (\<lambda>roi_h.
        if roi_w < 32 \<or> roi_h < 32 then Ret (all_events, engine)
        else let dst_w = ac_model_input_w cfg; dst_h = ac_model_input_h cfg in
          exec_bind (to_int (rx1 b)) (\<lambda>x1. exec_bind (to_int (ry1 b)) (\<lambda>y1.
          exec_bind (to_int (rx2 b)) (\<lambda>x2. exec_bind (to_int (ry2 b)) (\<lambda>y2.
          exec_bind (cuda_preprocess_roi_crop (rt_sched rt) blended width height x1 y1 x2 y2
              (rt_fresh rt (nat (dst_w * dst_h * 3))) dst_w dst_h (Some (0, 0, 0)) (Some (255, 255, 255)) False)
            (\<lambda>(rc, roi_input).
          exec_bind (infer (rt_sched rt) (rt_net_uv rt) (rt_sort_det rt) (rt_buf rt) (rt_host rt)
              (float_bytes roi_input) dst_w dst_h 3 engine)
            (\<lambda>(dets, engine1).
              Ret (all_events @ map (roi_event b roi_w roi_h dst_w dst_h pts_ns stream_index) dets, engine1))))))))))"

definition detect_arc_in_rois ::
    "runtime \<Rightarrow> arc_detector_config \<Rightarrow> u8 list \<Rightarrow> u8 list \<Rightarrow> int \<Rightarrow> int \<Rightarrow> pantograph_roi list \<Rightarrow> i64 \<Rightarrow> i32 \<Rightarrow>
     trt_engine \<Rightarrow> (arc_flash_event list \<times> trt_engine) exec" where
  "detect_arc_in_rois rt cfg uv visible width height rois pts_ns stream_index engine =
     exec_bind (cuda_blend_uv_visible (rt_sched rt) visible uv (rt_fresh rt (nat (width * height * 3)))
         width height (ac_uv_blend_weight cfg)) (\<lambda>(rc, blended).
       exec_fold (detect_in_roi rt cfg (float_bytes blended) width height pts_ns stream_index) rois ([], engine))"

section \<open>Suppression and tracking\<close>

definition ev_overlap :: "rat \<Rightarrow> arc_flash_event \<Rightarrow> arc_flash_event \<Rightarrow> bool" where
  "ev_overlap thresh a b = nms_overlap rnd32 thresh (ev_box a) (ev_box b)"

definition nms_events ::
    "(arc_flash_event list \<Rightarrow> arc_flash_event list) \<Rightarrow> arc_flash_event list \<Rightarrow> rat \<Rightarrow> arc_flash_event list" where
  "nms_events srt events nms_thresh =
     (if events = [] then [] else nms_suppress (ev_overlap nms_thresh) (srt events))"

text \<open>The overlap of an event with an update: \<open>double\<close>, except the area of the event.\<close>

definition event_iou :: "arc_flash_event \<Rightarrow> track_update \<Rightarrow> rat" where
  "event_iou ev upd =
     (let inter = rect_inter rnd64 (ev_box ev) (up_box upd);
          union_a = rnd64 (rnd64 (rect_area rnd32 (ev_box ev) + rect_area rnd64 (up_box upd)) - inter)
      in if 0 < union_a then rnd64 (inter / union_a) else 0)"

definition attach_update :: "track_update \<Rightarrow> arc_flash_event \<Rightarrow> arc_flash_event" where
  "attach_update upd ev = ev\<lparr>ev_track_id := up_id upd, ev_smoothed_energy := up_smoothed upd,
     ev_cumulative_energy := up_cumulative upd, ev_severity := up_severity upd,
     ev_track_frame_count := up_frame_count upd, ev_track_duration_ns := up_duration upd\<rparr>"

definition untracked :: "arc_flash_event \<Rightarrow> arc_flash_event" where
  "untracked ev = ev\<lparr>ev_severity := LEVEL_1_MINOR_SPARK, ev_track_id := 0, ev_track_frame_count := 1,
     ev_track_duration_ns := 0, ev_smoothed_energy := ev_instant_energy ev,
     ev_cumulative_energy := ev_instant_energy ev\<rparr>"

definition annotate :: "track_update list \<Rightarrow> arc_flash_event \<Rightarrow> arc_flash_event" where
  "annotate upds ev =
     (let ev1 = (case find (\<lambda>u. 1/2 < event_iou ev u) upds of Some u \<Rightarrow> attach_update u ev | None \<Rightarrow> ev)
      in if sint (ev_track_id ev1) \<le> 0 then untracked ev1 else ev1)"

definition with_energy :: "runtime \<Rightarrow> u8 list \<Rightarrow> int \<Rightarrow> int \<Rightarrow> arc_flash_event \<Rightarrow> arc_flash_event exec" where
  "with_energy rt uv width height ev =
     exec_bind (compute_instant_energy_gpu (rt_d2h rt) (ev_box ev) uv width height) (\<lambda>e. Ret (ev\<lparr>ev_instant_energy := e\<rparr>))"

section \<open>One frame\<close>

text \<open>\<open>detect\<close> on the context of the stream: the events, and the context afterwards.\<close>

definition detect_in_context ::
    "runtime \<Rightarrow> arc_detector_config \<Rightarrow> u8 list \<Rightarrow> u8 list \<Rightarrow> int \<Rightarrow> int \<Rightarrow> i64 \<Rightarrow> i32 \<Rightarrow> stream_context \<Rightarrow>
     (arc_flash_event list \<times> stream_context) exec" where
  "detect_in_context rt cfg visible uv width height pts_ns stream_index sc =
     exec_bind (extract_pantograph_rois rt cfg visible width height (sc_visible_engine sc)) (\<lambda>(rois, vis1).
     let sc1 = sc\<lparr>sc_visible_engine := vis1\<rparr> in
     if rois = [] then exec_bind (lt_expire pts_ns (sc_tracker sc1)) (\<lambda>lt1. Ret ([], sc1\<lparr>sc_tracker := lt1\<rparr>))
     else exec_bind (detect_arc_in_rois rt cfg uv visible width height rois pts_ns stream_index (sc_uv_engine sc1))
       (\<lambda>(raw, uv1).
       let filtered0 = nms_events (rt_sort_event rt) raw (ac_nms_thresh cfg) in
       exec_bind (exec_fold (\<lambda>ev acc. exec_bind (with_energy rt uv width height ev) (\<lambda>ev1. Ret (acc @ [ev1]))) filtered0 [])
         (\<lambda>filtered.
       exec_bind (lt_update pts_ns (map ev_box filtered) (map ev_instant_energy filtered) (sc_tracker sc1))
         (\<lambda>(lt1, upds).
       exec_bind (lt_expire pts_ns lt1) (\<lambda>lt2.
           Ret (map (annotate upds) filtered, sc1\<lparr>sc_uv_engine := uv1, sc_tracker := lt2\<rparr>))))))"

definition detect ::
    "runtime \<Rightarrow> u8 list \<Rightarrow> u8 list \<Rightarrow> int \<Rightarrow> int \<Rightarrow> i64 \<Rightarrow> i32 \<Rightarrow> arc_detector \<Rightarrow>
     (arc_flash_event list \<times> arc_detector) exec" where
  "detect rt visible uv width height pts_ns stream_index ad =
     (if \<not> ad_base_initialized ad then Ret ([], ad)
      else case get_stream_context (sint stream_index) ad of
             None \<Rightarrow> Ret ([], ad)
           | Some sc \<Rightarrow>
               exec_bind (detect_in_context rt (ad_config ad) visible uv width height pts_ns stream_index sc)
                 (\<lambda>(events, sc1).
                   Ret (events, ad\<lparr>ad_contexts :=
                     map (\<lambda>(i, c). if i = sint stream_index then (i, sc1) else (i, c)) (ad_contexts ad)\<rparr>)))"

end
