(* ===== verification/Detector_Inv.thy ===== *)
theory Detector_Inv
  imports Arc_Detector
begin

text \<open>
  The resources of the detector: every operation keeps them accounted for, whatever calls fail, and
  shutting down gives back exactly what the detector holds; setting up a new stream gives everything
  back and fails, or runs into a null dereference.
\<close>

section \<open>Resources of the detector\<close>

definition sc_owned :: "stream_context \<Rightarrow> nat list" where
  "sc_owned sc = te_owned (sc_visible_engine sc) @ te_owned (sc_uv_engine sc)"

definition ad_owned :: "arc_detector \<Rightarrow> nat list" where
  "ad_owned ad = concat (map (\<lambda>p. sc_owned (snd p)) (ad_contexts ad))"

lemma destroy_context_grown:
  assumes "grown a env (sc_owned sc @ xs)"
  shows "grown a (destroy_context sc env) xs"
proof -
  have "grown a env (te_owned (sc_visible_engine sc) @ te_owned (sc_uv_engine sc) @ xs)"
    using assms by (simp add: sc_owned_def)
  from te_unload_grown(1) [OF te_unload_grown(1) [OF this]] show ?thesis
    by (simp add: destroy_context_def)
qed

lemma destroy_contexts_grown:
  "grown a env (concat (map (\<lambda>p. sc_owned (snd p)) cs) @ xs) \<Longrightarrow>
   grown a (fold (\<lambda>(i, sc). destroy_context sc) cs env) xs"
proof (induction cs arbitrary: env)
  case (Cons c cs)
  obtain i sc where c: "c = (i, sc)" by (cases c)
  show ?case
    using Cons.IH [OF destroy_context_grown [of a env sc "concat (map (\<lambda>p. sc_owned (snd p)) cs @ [xs])", simplified]]
      Cons.prems by (simp add: c)
qed simp

lemma owned_split:
  "distinct (map fst cs) \<Longrightarrow> map_of cs k = Some sc \<Longrightarrow>
   mset (concat (map (\<lambda>p. sc_owned (snd p)) cs)) =
     mset (sc_owned sc) + mset (concat (map (\<lambda>p. sc_owned (snd p)) (filter (\<lambda>p. fst p \<noteq> k) cs)))"
proof (induction cs)
  case (Cons c cs)
  show ?case
  proof (cases "fst c = k")
    case True
    then have "k \<notin> fst ` set cs" using Cons.prems(1) by simp
    then have "filter (\<lambda>p. fst p \<noteq> k) cs = cs" by (intro filter_True) blast
    then show ?thesis using Cons.prems True by (cases c) simp
  qed (use Cons in \<open>cases c; simp add: ac_simps\<close>)
qed simp

lemma filter_absent: "map_of cs k = None \<Longrightarrow> filter (\<lambda>p. fst p \<noteq> k) cs = cs"
  by (auto simp: map_of_eq_None_iff filter_id_conv)

lemma distinct_filter_keys: "distinct (map fst cs) \<Longrightarrow> distinct (map fst (filter P cs))"
  by (induction cs) auto

lemma fresh_load_grown:
  assumes "te_load rf de cfg te_new env = (ok, te, env')" "grown a env xs"
  shows "grown a env' (te_owned te @ xs)"
  by (rule te_load_grown [OF assms(1)]) (use assms(2) in \<open>simp_all add: te_new_def te_owned_def\<close>)

lemma init_stream_store_grown:
  assumes "init_stream_store rt i ad env = (ok, ad', env')" "grown a env (ad_owned ad @ xs)"
    "distinct (map fst (ad_contexts ad))"
  shows "grown a env' (ad_owned ad' @ xs) \<and> distinct (map fst (ad_contexts ad'))"
proof -
  let ?load = "te_load (rt_read_file rt) (rt_deserialize rt)"
  obtain ok1 vis e1 where v: "?load (visible_infer_config (ad_config ad)) te_new env = (ok1, vis, e1)"
    by (metis prod.exhaust)
  note g1 = fresh_load_grown [OF v assms(2)]
  obtain ok2 uv e2 where u: "?load (uv_infer_config (ad_config ad)) te_new e1 = (ok2, uv, e2)"
    by (metis prod.exhaust)
  note g2 = fresh_load_grown [OF u g1]
  consider "\<not> ok1" | "ok1" "\<not> ok2" | "ok1" "ok2" by blast
  then show ?thesis
  proof cases
    case 1
    then show ?thesis using assms(1,3) v te_unload_grown(1) [OF g1] by (simp add: init_stream_store_def Let_def)
  next
    case 2
    then show ?thesis
      using assms(1,3) v u te_unload_grown(1) [OF te_unload_grown(1) [OF g2]]
      by (simp add: init_stream_store_def Let_def)
  next
    case 3
    define ctx where "ctx = \<lparr>sc_visible_engine = vis, sc_uv_engine = uv,
      sc_tracker = lt_new (ac_severity_thresholds (ad_config ad)) (rnd64 (3/10)) 100000000 64,
      sc_stream_index = i, sc_initialized = True\<rparr>"
    let ?rest = "filter (\<lambda>p. fst p \<noteq> i) (ad_contexts ad)"
    have ad': "ad' = ad\<lparr>ad_contexts := (i, ctx) # ?rest\<rparr>"
      and env': "env' = (case map_of (ad_contexts ad) i of Some old \<Rightarrow> destroy_context old e2 | None \<Rightarrow> e2)"
      using assms(1) v u 3 by (auto simp: init_stream_store_def Let_def ctx_def)
    have d: "distinct (map fst (ad_contexts ad'))"
      using distinct_filter_keys [OF assms(3)] by (auto simp: ad')
    show ?thesis
    proof (cases "map_of (ad_contexts ad) i")
      case None
      have "grown a e2 (ad_owned ad' @ xs)"
        by (rule grown_cong [OF g2]) (simp add: ad' ad_owned_def filter_absent [OF None] sc_owned_def ctx_def)
      then show ?thesis using d env' None by simp
    next
      case (Some old)
      have "grown a e2 (sc_owned old @ ad_owned ad' @ xs)"
        using owned_split [OF assms(3) Some]
        by (intro grown_cong [OF g2]) (simp add: ad' ad_owned_def sc_owned_def ctx_def ac_simps)
      then show ?thesis using d env' Some destroy_context_grown by simp
    qed
  qed
qed

lemma shutdown_stream_grown:
  assumes "grown a env (ad_owned ad @ xs)" "distinct (map fst (ad_contexts ad))"
  shows "grown a (snd (shutdown_stream i ad env)) (ad_owned (fst (shutdown_stream i ad env)) @ xs) \<and>
    distinct (map fst (ad_contexts (fst (shutdown_stream i ad env))))"
proof (cases "map_of (ad_contexts ad) i")
  case (Some sc)
  have "grown a env (sc_owned sc @ ad_owned (fst (shutdown_stream i ad env)) @ xs)"
    using owned_split [OF assms(2) Some] Some
    by (intro grown_cong [OF assms(1)]) (simp add: shutdown_stream_def ad_owned_def)
  then show ?thesis
    using Some distinct_filter_keys [OF assms(2)] destroy_context_grown by (simp add: shutdown_stream_def)
qed (use assms in \<open>simp add: shutdown_stream_def\<close>)

lemma ad_shutdown_grown:
  assumes "grown a env (ad_owned ad @ xs)"
  shows "grown a (snd (ad_shutdown ad env)) xs"
  unfolding ad_shutdown_def snd_conv by (rule destroy_contexts_grown) (use assms in \<open>simp add: ad_owned_def\<close>)

text \<open>A detector all of whose resources are accounted for, besides those of \<open>base\<close> and \<open>xs\<close>.\<close>

definition accounted :: "gpu_env \<Rightarrow> nat list \<Rightarrow> arc_detector \<Rightarrow> gpu_env \<Rightarrow> bool" where
  "accounted base xs ad env \<longleftrightarrow> grown base env (ad_owned ad @ xs) \<and> distinct (map fst (ad_contexts ad))"

lemma ad_new_accounted: "env_ok env \<Longrightarrow> accounted env [] (ad_new cfg) env"
  by (simp add: accounted_def ad_owned_def ad_new_def)

lemma accounted_store:
  "accounted base xs ad env \<Longrightarrow> init_stream_store rt i ad env = (ok, ad', env') \<Longrightarrow> accounted base xs ad' env'"
  using init_stream_store_grown [of rt i ad env ok ad' env' base xs] by (simp add: accounted_def)

lemma accounted_shutdown_stream:
  "accounted base xs ad env \<Longrightarrow> shutdown_stream i ad env = (ad', env') \<Longrightarrow> accounted base xs ad' env'"
  using shutdown_stream_grown [of base env ad xs i] by (simp add: accounted_def)

text \<open>A runtime with the small network, and a detector for it.\<close>

definition demo_runtime :: runtime where
  "demo_runtime = \<lparr>rt_sched = row_order, rt_d2h = d2h_model, rt_net_visible = small_net, rt_net_uv = small_net,
     rt_sort_det = desc_sort det_confidence, rt_sort_event = desc_sort ev_confidence,
     rt_buf = (\<lambda>_. replicate 12 0), rt_host = (\<lambda>_. []), rt_fresh = (\<lambda>n. replicate n 0),
     rt_read_file = demo_file, rt_deserialize = small_network\<rparr>"

definition demo_detector_config :: arc_detector_config where
  "demo_detector_config = \<lparr>ac_visible_engine_path = [], ac_uv_engine_path = [], ac_tensorrt_device = 0,
     ac_visible_score_thresh = 1/2, ac_uv_score_thresh = rnd32 (2/5), ac_nms_thresh = rnd32 (45/100), ac_uv_gain = 3,
     ac_uv_blend_weight = rnd32 (3/5), ac_roi_padding = 20, ac_model_input_h = 2, ac_model_input_w = 2,
     ac_context_pool_size = 1, ac_severity_thresholds = default_thresholds\<rparr>"

text \<open>A detector that holds the engines of two streams, and the resources it holds.\<close>

definition two_streams :: "gpu_env \<Rightarrow> arc_detector \<times> gpu_env" where
  "two_streams env = snd (init_stream_store demo_runtime 1 (fst (snd (init_stream_store demo_runtime 0 (ad_new demo_detector_config) env)))
     (snd (snd (init_stream_store demo_runtime 0 (ad_new demo_detector_config) env))))"

lemma two_streams_accounted:
  assumes "accounted base xs (ad_new demo_detector_config) env"
  shows "accounted base xs (fst (two_streams env)) (snd (two_streams env))"
  using accounted_store [OF accounted_store [OF assms]] unfolding two_streams_def by (metis prod.collapse)

lemma init_stream_outcome:
  assumes "get_stream_context i ad = None" "env_ok env"
  shows "case init_stream rt i ad env of
      UB \<Rightarrow> fst (init_stream_store rt i ad env)
    | Ret (ok, ad', env') \<Rightarrow> \<not> ok \<and> ad' = ad \<and> mset (ge_live env') = mset (ge_live env)"
proof -
  obtain ok ad' env' where s: "init_stream_store rt i ad env = (ok, ad', env')" by (metis prod.exhaust)
  show ?thesis
  proof (cases ok)
    case False
    let ?load = "te_load (rt_read_file rt) (rt_deserialize rt)"
    obtain ok1 vis e1 where v: "?load (visible_infer_config (ad_config ad)) te_new env = (ok1, vis, e1)"
      by (metis prod.exhaust)
    have g0: "grown env env []" using assms(2) by simp
    note g1 = fresh_load_grown [OF v g0]
    obtain ok2 uv e2 where u: "?load (uv_infer_config (ad_config ad)) te_new e1 = (ok2, uv, e2)"
      by (metis prod.exhaust)
    note g2 = fresh_load_grown [OF u g1]
    have "ad' = ad \<and> (env' = snd (te_unload vis e1) \<or> env' = snd (te_unload vis (snd (te_unload uv e2))))"
      using s False v u by (auto simp: init_stream_store_def Let_def split: bool.splits)
    moreover have "grown env (snd (te_unload vis e1)) []"
      using te_unload_grown(1) [of env e1 vis "[]"] g1 by simp
    moreover have "grown env (snd (te_unload vis (snd (te_unload uv e2)))) []"
      using te_unload_grown(1) [of env "snd (te_unload uv e2)" vis "[]"] te_unload_grown(1) [OF g2] by simp
    ultimately show ?thesis using s False assms(1) by (auto simp: init_stream_def grown_def)
  qed (use s assms(1) in \<open>simp add: init_stream_def\<close>)
qed



text \<open>
  Setting up a stream that is not set up never succeeds within defined behaviour: either an
  engine fails to load, and the call returns false with the detector unchanged and every resource
  given back, or both load and the call runs into the null dereference of its log line.
\<close>

theorem init_stream_fails_cleanly_or_crashes:
  assumes "get_stream_context i ad = None" "env_ok env"
  shows "case init_stream rt i ad env of
      UB \<Rightarrow> fst (init_stream_store rt i ad env)
    | Ret (ok, ad', env') \<Rightarrow> \<not> ok \<and> ad' = ad \<and> mset (ge_live env') = mset (ge_live env)"
  using assms by (rule init_stream_outcome)

theorem init_stream_fails_cleanly_or_crashes_witness:
  "init_stream demo_runtime 0 (ad_new demo_detector_config) demo_env = UB \<and>
   (\<exists>env'. init_stream demo_runtime 0 (ad_new demo_detector_config) (demo_env\<lparr>ge_outcomes := replicate 9 True @ [False]\<rparr>) =
      Ret (False, ad_new demo_detector_config, env') \<and> ge_live env' = [])"
proof
  show "init_stream demo_runtime 0 (ad_new demo_detector_config) demo_env = UB" by code_simp
  let ?env = "demo_env\<lparr>ge_outcomes := replicate 9 True @ [False]\<rparr>"
  have "get_stream_context 0 (ad_new demo_detector_config) = None" "env_ok ?env"
    by (simp_all add: get_stream_context_def ad_new_def env_ok_def demo_env_def)
  note r = init_stream_fails_cleanly_or_crashes [OF this, of demo_runtime]
  have "\<not> fst (init_stream_store demo_runtime 0 (ad_new demo_detector_config) ?env)" by code_simp
  then show "\<exists>env'. init_stream demo_runtime 0 (ad_new demo_detector_config) ?env =
      Ret (False, ad_new demo_detector_config, env') \<and> ge_live env' = []"
    using r by (auto simp: demo_env_def split: exec.splits prod.splits)
qed

end
