(* ===== verification/Detect_Frame.thy ===== *)
theory Detect_Frame
  imports Detector_Inv
begin

text \<open>
  One frame pair through the detector. With networks that report coordinates of moderate size and
  frames of the announced size, \<open>detect\<close> is free of undefined behaviour for every content of the
  frames; what it reports is suppressed, ordered and attached to tracks; it changes the context of
  its own stream only and keeps that context's invariants.
\<close>

section \<open>Coordinates\<close>

definition coords_ok :: "rat \<Rightarrow> rect \<Rightarrow> bool" where
  "coords_ok B b \<longleftrightarrow> \<bar>rx1 b\<bar> \<le> B \<and> \<bar>ry1 b\<bar> \<le> B \<and> \<bar>rx2 b\<bar> \<le> B \<and> \<bar>ry2 b\<bar> \<le> B"

lemma rnd32_powers:
  "rnd32 (2 ^ 15) = 2 ^ 15" "rnd32 (2 ^ 16) = 2 ^ 16" "rnd32 (2 ^ 17) = 2 ^ 17" "rnd32 (2 ^ 30) = 2 ^ 30"
  "rnd32 (3 * 2 ^ 29) = 3 * 2 ^ 29"
  by code_simp+

lemma rnd32_small_int: "\<bar>k\<bar> \<le> 2 ^ 15 \<Longrightarrow> rnd32 (of_int k) = of_int k"
  by (rule rnd32_of_int) simp

lemma of_int_le_pow: "k \<le> 2 ^ n \<Longrightarrow> (of_int k :: rat) \<le> 2 ^ n"
  by (metis of_int_le_iff of_int_numeral of_int_power)

lemma rtrunc_range:
  assumes "\<bar>x\<bar> \<le> of_int k"
  shows "- k \<le> rtrunc x \<and> rtrunc x \<le> k"
proof -
  have "- of_int k \<le> x" "x \<le> of_int k" using assms by (simp_all add: abs_le_iff minus_le_iff)
  then have "rtrunc (of_int (- k)) \<le> rtrunc x" "rtrunc x \<le> rtrunc (of_int k)"
    by (intro rtrunc_mono; simp)+
  then show ?thesis unfolding rtrunc_of_int by simp
qed

lemma to_int_small:
  assumes "\<bar>x\<bar> \<le> 3 * 2 ^ 29"
  shows "to_int x = Ret (rtrunc x)"
proof -
  have "\<bar>x\<bar> \<le> of_int (3 * 2 ^ 29)" using assms by simp
  from rtrunc_range [OF this] show ?thesis by (simp add: to_int_def)
qed

lemma coords_box_in_range: "coords_ok (3 * 2 ^ 29) b \<Longrightarrow> box_in_range b"
proof -
  have "- (2 ^ 31) \<le> rtrunc x \<and> rtrunc x < 2 ^ 31" if "\<bar>x\<bar> \<le> 3 * 2 ^ 29" for x
    using rtrunc_range [of x "3 * 2 ^ 29"] that by simp
  then show "coords_ok (3 * 2 ^ 29) b \<Longrightarrow> box_in_range b" by (simp add: coords_ok_def box_in_range_def)
qed

section \<open>Engines that are ready\<close>

text \<open>
  A network, and host buffers it writes to, that give \<open>n\<close> rows with coordinates of at most 32768,
  whether the inference and its copy succeed or not.
\<close>

definition net_ok :: "network \<Rightarrow> (nat \<Rightarrow> rat list) \<Rightarrow> nat \<Rightarrow> bool" where
  "net_ok net host n \<longleftrightarrow> (\<forall>c x. output_ok (net_output net (host c) x) n \<and>
     (\<forall>i<n. coords_ok (2 ^ 15) (det_box (row_det (net_output net (host c) x) i))))"

text \<open>An engine loaded for such a network, with at least one free context.\<close>

definition engine_ready :: "(nat \<Rightarrow> rat list) \<Rightarrow> trt_engine \<Rightarrow> nat \<Rightarrow> nat \<Rightarrow> nat \<Rightarrow> bool" where
  "engine_ready buf te W H n \<longleftrightarrow> is_loaded te \<and> 0 \<le> te_input_index te \<and> te_free te \<noteq> [] \<and>
     te_output_sizes te \<noteq> [] \<and> unat (hd (te_output_sizes te)) = 24 * n \<and> 6 * n < 2 ^ 31 \<and>
     ic_input_w (te_config te) = int W \<and> ic_input_h (te_config te) = int H \<and>
     1 \<le> W \<and> int W \<le> 2 ^ 15 \<and> 1 \<le> H \<and> int H \<le> 2 ^ 15 \<and> 3 * (W * H) < 2 ^ 31 \<and>
     (\<forall>c \<in> set (te_free te). length (buf c) = 3 * (W * H))"

lemma nms_spec_length: "length (nms_spec ov xs) \<le> length xs"
proof (induction ov xs rule: nms_spec.induct)
  case (2 ov x xs)
  then show ?case using length_filter_le [of "\<lambda>y. \<not> ov x y" xs] by (simp add: le_trans)
qed simp

lemma candidates_length: "length (candidates thresh output n) \<le> n"
  using length_filter_le [of _ "map (row_det output) [0..<n]"] by (simp add: candidates_def)

lemma infer_ready:
  assumes "engine_ready buf te W H n" "net_ok net host n" "std_sort srt det_confidence"
    "image_in frame w h ch" "3 \<le> ch" "w \<le> 2 ^ 15" "h \<le> 2 ^ 15" "sched_ok sched"
  obtains dets te' where "infer sched net srt buf host frame w h ch te = Ret (dets, te')" "engine_ready buf te' W H n"
    "\<forall>d \<in> set dets. coords_ok (2 ^ 15) (det_box d) \<and> rnd32 (det_confidence d) = det_confidence d" "length dets \<le> n"
proof -
  note r = assms(1) [unfolded engine_ready_def]
  obtain c cs where f: "te_free te = c # cs" using r by (cases "te_free te") auto
  obtain sz szs where o: "te_output_sizes te = sz # szs" using r by (cases "te_output_sizes te") auto
  have "\<exists>input. infer sched net srt buf host frame w h ch te =
      Ret (if n = 0 then [] else nms_spec (det_overlap (ic_nms_threshold (te_config te)))
              (srt (candidates (ic_score_threshold (te_config te)) (net_output net (host c) input) n)), te\<lparr>te_free := cs @ [c]\<rparr>)"
    using infer_Ret [of te c cs sz szs n W H buf frame w h ch sched net host srt] r f o assms(2,4-8)
    by (auto simp: net_ok_def)
  then obtain rows where out: "\<forall>i<n. coords_ok (2 ^ 15) (det_box (row_det rows i))"
    and i: "infer sched net srt buf host frame w h ch te =
      Ret (if n = 0 then [] else nms_spec (det_overlap (ic_nms_threshold (te_config te)))
              (srt (candidates (ic_score_threshold (te_config te)) rows n)), te\<lparr>te_free := cs @ [c]\<rparr>)"
    using assms(2) unfolding net_ok_def by metis
  have "coords_ok (2 ^ 15) (det_box d) \<and> rnd32 (det_confidence d) = det_confidence d"
    if "d \<in> set (if n = 0 then [] else nms_spec (det_overlap (ic_nms_threshold (te_config te)))
              (srt (candidates (ic_score_threshold (te_config te)) rows n)))" for d
  proof -
    have "d \<in> set (candidates (ic_score_threshold (te_config te)) rows n)"
      using that std_sort.nms_selects(1) [OF assms(3)] by (auto split: if_splits)
    then show ?thesis using out by (auto simp: candidates_def) (simp add: row_det_def)
  qed
  moreover have "length (if n = 0 then [] else nms_spec (det_overlap (ic_nms_threshold (te_config te)))
              (srt (candidates (ic_score_threshold (te_config te)) rows n))) \<le> n"
    using nms_spec_length [of "det_overlap (ic_nms_threshold (te_config te))"
        "srt (candidates (ic_score_threshold (te_config te)) rows n)"]
      candidates_length [of "ic_score_threshold (te_config te)" rows n] by (simp add: std_sort.sort_length [OF assms(3)])
  moreover have "engine_ready buf (te\<lparr>te_free := cs @ [c]\<rparr>) W H n"
    using r f by (auto simp: engine_ready_def is_loaded_def)
  ultimately show ?thesis using that i by blast
qed

section \<open>Regions\<close>

definition roi_ok :: "int \<Rightarrow> int \<Rightarrow> pantograph_roi \<Rightarrow> bool" where
  "roi_ok width height roi \<longleftrightarrow> (let b = roi_box roi in
     0 \<le> rx1 b \<and> rx1 b \<le> 2 ^ 16 \<and> 0 \<le> ry1 b \<and> ry1 b \<le> 2 ^ 16 \<and>
     - (2 ^ 16) \<le> rx2 b \<and> rx2 b \<le> of_int width \<and> - (2 ^ 16) \<le> ry2 b \<and> ry2 b \<le> of_int height)"

lemma padded_roi_ok:
  assumes "coords_ok (2 ^ 15) (det_box det)" "0 \<le> pad" "pad \<le> 2 ^ 15"
    "0 \<le> width" "width \<le> 2 ^ 15" "0 \<le> height" "height \<le> 2 ^ 15"
  shows "roi_ok width height (padded_roi pad width height det)"
proof -
  let ?p = "of_int pad :: rat"
  have p: "rnd32 ?p = ?p" "rnd32 (of_int width) = of_int width" "rnd32 (of_int height) = of_int height"
    using assms by (auto intro: rnd32_small_int)
  have pb: "0 \<le> ?p" "?p \<le> 2 ^ 15" using assms(2,3) of_int_le_pow [of pad 15] by simp_all
  have s: "\<bar>rnd32 (v - ?p)\<bar> \<le> 2 ^ 16 \<and> \<bar>rnd32 (v + ?p)\<bar> \<le> 2 ^ 16" if "\<bar>v\<bar> \<le> 2 ^ 15" for v
    using that pb by (intro conjI f32.abs_le_repr rnd32_powers; simp add: abs_le_iff)
  note b = assms(1) [unfolded coords_ok_def]
  have w: "- (2 ^ 16) \<le> (of_int width :: rat)" "- (2 ^ 16) \<le> (of_int height :: rat)"
    using assms(4,6) by (auto intro: order_trans [of _ 0])
  show ?thesis
    using s [of "rx1 (det_box det)"] s [of "ry1 (det_box det)"] s [of "rx2 (det_box det)"] s [of "ry2 (det_box det)"] b w
    by (auto simp: roi_ok_def padded_roi_def Let_def p abs_le_iff min_def max_def)
qed

section \<open>Events of a region\<close>

text \<open>A box of \<open>float\<close> values.\<close>

definition float_box :: "rect \<Rightarrow> bool" where
  "float_box b \<longleftrightarrow> rnd32 (rx1 b) = rx1 b \<and> rnd32 (ry1 b) = ry1 b \<and> rnd32 (rx2 b) = rx2 b \<and> rnd32 (ry2 b) = ry2 b"

definition raw_event :: "i64 \<Rightarrow> i32 \<Rightarrow> arc_flash_event \<Rightarrow> bool" where
  "raw_event pts_ns stream_index ev \<longleftrightarrow> coords_ok (3 * 2 ^ 29) (ev_box ev) \<and> float_box (ev_box ev) \<and> ev_pts_ns ev = pts_ns \<and>
     ev_stream_index ev = stream_index \<and> ev_track_id ev = 0 \<and> rnd32 (ev_confidence ev) = ev_confidence ev \<and>
     rnd32 (ev_intensity ev) = ev_intensity ev"

lemma scaled_coord:
  assumes "\<bar>v\<bar> \<le> 2 ^ 15" "1 \<le> dst" "dst \<le> 2 ^ 15" "0 \<le> len" "len \<le> 2 ^ 15" "\<bar>org\<bar> \<le> 2 ^ 16"
  shows "\<bar>rnd32 (rnd32 (rnd32 (v / rnd32 (of_int dst)) * rnd32 (of_int len)) + org)\<bar> \<le> 3 * 2 ^ 29"
proof -
  have e: "rnd32 (of_int dst) = of_int dst" "rnd32 (of_int len) = of_int len"
    using assms by (auto intro: rnd32_small_int)
  have "\<bar>v\<bar> / of_int dst \<le> \<bar>v\<bar> / 1" using assms(2) by (intro divide_left_mono) auto
  then have "\<bar>v / of_int dst\<bar> \<le> 2 ^ 15" using assms(1,2) by (simp add: abs_divide)
  from f32.abs_le_repr [OF rnd32_powers(1) this]
  have q: "\<bar>rnd32 (v / of_int dst)\<bar> \<le> 2 ^ 15" .
  have "\<bar>rnd32 (v / of_int dst)\<bar> * of_int len \<le> 2 ^ 15 * 2 ^ 15"
    using q assms(4) of_int_le_pow [OF assms(5)] by (intro mult_mono) simp_all
  then have "\<bar>rnd32 (v / of_int dst) * of_int len\<bar> \<le> 2 ^ 30" using assms(4) by (simp add: abs_mult)
  from f32.abs_le_repr [OF rnd32_powers(4) this]
  have "\<bar>rnd32 (rnd32 (v / of_int dst) * of_int len) + org\<bar> \<le> 3 * 2 ^ 29"
    using assms(6) by (simp add: abs_le_iff)
  from f32.abs_le_repr [OF rnd32_powers(5) this] show ?thesis by (simp only: e)
qed

lemma roi_event_raw:
  assumes "coords_ok (2 ^ 15) (det_box det)" "1 \<le> dw" "dw \<le> 2 ^ 15" "1 \<le> dh" "dh \<le> 2 ^ 15"
    "0 \<le> rw" "rw \<le> 2 ^ 15" "0 \<le> rh" "rh \<le> 2 ^ 15" "\<bar>rx1 roi\<bar> \<le> 2 ^ 16" "\<bar>ry1 roi\<bar> \<le> 2 ^ 16"
    "rnd32 (det_confidence det) = det_confidence det"
  shows "raw_event pts stream (roi_event roi rw rh dw dh pts stream det)"
  using assms(1,12) scaled_coord [OF _ assms(2,3,6,7,10)] scaled_coord [OF _ assms(4,5,8,9,11)]
  by (simp add: raw_event_def roi_event_def Let_def coords_ok_def float_box_def)

lemma float_bytes_length [simp]: "length (float_bytes xs) = 4 * length xs"
  by (induction xs) (simp_all add: float_bytes_def)

lemma float_image_in:
  assumes "length xs = 3 * (W * H)" "1 \<le> W" "1 \<le> H" "3 * (W * H) < 2 ^ 31"
  shows "image_in (float_bytes xs) (int W) (int H) 3"
proof -
  have "int (3 * (W * H)) < int (2 ^ 31)" using assms(4) by (simp only: of_nat_less_iff)
  then show ?thesis using assms(1-3) by (simp add: image_in_def)
qed

text \<open>The launches of the detector, refused or not.\<close>

lemma roi_crop_total:
  assumes "image_in src sw sh 3" "0 \<le> x1" "x1 \<le> 2 ^ 24" "0 \<le> y1" "y1 \<le> 2 ^ 24"
    "int W \<le> 2 ^ 15" "int H \<le> 2 ^ 15" "length dst = 3 * (W * H)" "3 * (W * H) < 2 ^ 31" "sched_ok sched"
  obtains rc d where "cuda_preprocess_roi_crop sched src sw sh x1 y1 x2 y2 dst (int W) (int H) mean std_dev swap_rb = Ret (rc, d)"
    "length d = 3 * (W * H)"
proof (cases "sched (grid_dim (int W)) (grid_dim (int H))")
  case None
  then show ?thesis using that assms(8) by (simp add: cuda_preprocess_roi_crop_def launch_def)
next
  case (Some ts)
  then show ?thesis
    using roi_crop_Ret [OF assms(1-7) _ assms(9,10), of dst x2 y2 mean std_dev swap_rb] assms(8) that by simp
qed

lemma blend_total:
  assumes "image_in visible (int W) (int H) 3" "image_in uv (int W) (int H) 1" "length dst = 3 * (W * H)" "sched_ok sched"
  obtains rc d where "cuda_blend_uv_visible sched visible uv dst (int W) (int H) wt = Ret (rc, d)" "length d = 3 * (W * H)"
proof (cases "sched (grid_dim (int W)) (grid_dim (int H))")
  case None
  then show ?thesis using that assms(3) by (simp add: cuda_blend_uv_visible_def launch_def)
next
  case (Some ts)
  then show ?thesis using blend_Ret [OF assms(1,2) _ assms(4), of dst wt] assms(3) that by auto
qed

text \<open>The surroundings as the detector needs them.\<close>

definition runtime_ok :: "runtime \<Rightarrow> bool" where
  "runtime_ok rt \<longleftrightarrow> sched_ok (rt_sched rt) \<and> d2h_ok (rt_d2h rt) \<and> std_sort (rt_sort_det rt) det_confidence \<and>
     std_sort (rt_sort_event rt) ev_confidence \<and> (\<forall>n. length (rt_fresh rt n) = n)"

lemma roi_sides:
  assumes "roi_ok width height roi" "width \<le> 2 ^ 15" "height \<le> 2 ^ 15"
  defines "b \<equiv> roi_box roi"
  shows "to_int (rnd32 (rx2 b - rx1 b)) = Ret (rtrunc (rnd32 (rx2 b - rx1 b)))"
    "to_int (rnd32 (ry2 b - ry1 b)) = Ret (rtrunc (rnd32 (ry2 b - ry1 b)))"
    "rtrunc (rnd32 (rx2 b - rx1 b)) \<le> 2 ^ 15" "rtrunc (rnd32 (ry2 b - ry1 b)) \<le> 2 ^ 15"
    "to_int (rx1 b) = Ret (rtrunc (rx1 b))" "to_int (ry1 b) = Ret (rtrunc (ry1 b))"
    "to_int (rx2 b) = Ret (rtrunc (rx2 b))" "to_int (ry2 b) = Ret (rtrunc (ry2 b))"
    "0 \<le> rtrunc (rx1 b)" "rtrunc (rx1 b) \<le> 2 ^ 24" "0 \<le> rtrunc (ry1 b)" "rtrunc (ry1 b) \<le> 2 ^ 24"
    "\<bar>rx1 b\<bar> \<le> 2 ^ 16" "\<bar>ry1 b\<bar> \<le> 2 ^ 16"
proof -
  note r = assms(1) [unfolded roi_ok_def Let_def, folded b_def]
  have x2: "rx2 b \<le> 2 ^ 15" "ry2 b \<le> 2 ^ 15"
    using r of_int_le_pow [OF assms(2)] of_int_le_pow [OF assms(3)] by auto
  have side: "to_int (rnd32 (v - u)) = Ret (rtrunc (rnd32 (v - u))) \<and> rtrunc (rnd32 (v - u)) \<le> 2 ^ 15"
    if "0 \<le> u" "u \<le> 2 ^ 16" "- (2 ^ 16) \<le> v" "v \<le> 2 ^ 15" for u v
  proof
    have "\<bar>v - u\<bar> \<le> 2 ^ 17" using that by (simp add: abs_le_iff)
    from f32.abs_le_repr [OF rnd32_powers(3) this]
    show "to_int (rnd32 (v - u)) = Ret (rtrunc (rnd32 (v - u)))" by (intro to_int_small) simp
    have "rnd32 (v - u) \<le> of_int (2 ^ 15)" using that rnd32_powers(1) by (auto intro!: f32.le_repr)
    from rtrunc_mono [OF this] show "rtrunc (rnd32 (v - u)) \<le> 2 ^ 15" unfolding rtrunc_of_int .
  qed
  show "to_int (rnd32 (rx2 b - rx1 b)) = Ret (rtrunc (rnd32 (rx2 b - rx1 b)))"
    "to_int (rnd32 (ry2 b - ry1 b)) = Ret (rtrunc (rnd32 (ry2 b - ry1 b)))"
    "rtrunc (rnd32 (rx2 b - rx1 b)) \<le> 2 ^ 15" "rtrunc (rnd32 (ry2 b - ry1 b)) \<le> 2 ^ 15"
    using side [of "rx1 b" "rx2 b"] side [of "ry1 b" "ry2 b"] r x2 by blast+
  show "to_int (rx1 b) = Ret (rtrunc (rx1 b))" "to_int (ry1 b) = Ret (rtrunc (ry1 b))"
    "to_int (rx2 b) = Ret (rtrunc (rx2 b))" "to_int (ry2 b) = Ret (rtrunc (ry2 b))"
    using r x2 by (intro to_int_small; auto simp: abs_le_iff)+
  show "0 \<le> rtrunc (rx1 b)" "0 \<le> rtrunc (ry1 b)" using r by (auto intro: rtrunc_nonneg)
  show "\<bar>rx1 b\<bar> \<le> 2 ^ 16" "\<bar>ry1 b\<bar> \<le> 2 ^ 16" using r by auto
  then have "\<bar>rx1 b\<bar> \<le> of_int (2 ^ 24)" "\<bar>ry1 b\<bar> \<le> of_int (2 ^ 24)" by auto
  then show "rtrunc (rx1 b) \<le> 2 ^ 24" "rtrunc (ry1 b) \<le> 2 ^ 24" using rtrunc_range by blast+
qed

text \<open>One region, and all of them.\<close>

definition rois_inv ::
    "runtime \<Rightarrow> nat \<Rightarrow> nat \<Rightarrow> nat \<Rightarrow> i64 \<Rightarrow> i32 \<Rightarrow> arc_flash_event list \<times> trt_engine \<Rightarrow> bool" where
  "rois_inv rt W H n pts stream s \<longleftrightarrow>
     engine_ready (rt_buf rt) (snd s) W H n \<and> list_all (raw_event pts stream) (fst s)"

lemma detect_in_roi_total:
  assumes "runtime_ok rt" "net_ok (rt_net_uv rt) (rt_host rt) n" "roi_ok width height roi" "width \<le> 2 ^ 15" "height \<le> 2 ^ 15"
    "image_in blended width height 3" "ac_model_input_w cfg = int W" "ac_model_input_h cfg = int H"
    "rois_inv rt W H n pts stream s"
  shows "\<exists>s'. detect_in_roi rt cfg blended width height pts stream roi s = Ret s' \<and> rois_inv rt W H n pts stream s' \<and>
    length (fst s') \<le> length (fst s) + n"
proof -
  obtain evs engine where s: "s = (evs, engine)" by (cases s)
  have er: "engine_ready (rt_buf rt) engine W H n" "list_all (raw_event pts stream) evs"
    using assms(9) by (simp_all add: rois_inv_def s)
  let ?b = "roi_box roi"
  define rw where "rw = rtrunc (rnd32 (rx2 ?b - rx1 ?b))"
  define rh where "rh = rtrunc (rnd32 (ry2 ?b - ry1 ?b))"
  note sides = roi_sides [OF assms(3-5), folded rw_def rh_def]
  note rto = assms(1) [unfolded runtime_ok_def]
  have d: "1 \<le> int W" "int W \<le> 2 ^ 15" "1 \<le> int H" "int H \<le> 2 ^ 15" "3 * (W * H) < 2 ^ 31"
    using er(1) by (simp_all add: engine_ready_def)
  have n: "nat (int W * int H * 3) = 3 * (W * H)"
    by (simp add: nat_mult_distrib mult.commute)
  show ?thesis
  proof (cases "rw < 32 \<or> rh < 32")
    case True
    then show ?thesis using assms(9) sides by (simp add: detect_in_roi_def s Let_def)
  next
    case False
    obtain rc input where c: "cuda_preprocess_roi_crop (rt_sched rt) blended width height (rtrunc (rx1 ?b)) (rtrunc (ry1 ?b))
        (rtrunc (rx2 ?b)) (rtrunc (ry2 ?b)) (rt_fresh rt (3 * (W * H))) (int W) (int H) (Some (0, 0, 0))
        (Some (255, 255, 255)) False = Ret (rc, input)" "length input = 3 * (W * H)"
      using roi_crop_total [OF assms(6) sides(9-12) d(2,4) _ d(5)] rto by metis
    have "image_in (float_bytes input) (int W) (int H) 3"
      using float_image_in [OF c(2)] d by simp
    from infer_ready [OF er(1) assms(2) _ this _ d(2,4)] rto
    obtain dets engine1 where i: "infer (rt_sched rt) (rt_net_uv rt) (rt_sort_det rt) (rt_buf rt) (rt_host rt) (float_bytes input)
        (int W) (int H) 3 engine = Ret (dets, engine1)" "engine_ready (rt_buf rt) engine1 W H n"
      "\<forall>d \<in> set dets. coords_ok (2 ^ 15) (det_box d) \<and> rnd32 (det_confidence d) = det_confidence d" "length dets \<le> n"
      by (metis order_refl)
    have "list_all (raw_event pts stream) (map (roi_event ?b rw rh (int W) (int H) pts stream) dets)"
      using i(3) roi_event_raw [OF _ d(1-4), of _ rw rh ?b pts stream] sides False by (auto simp: list_all_iff)
    then show ?thesis
      using c(1) i(1,2,4) er(2) sides False assms(7,8)
      by (simp add: detect_in_roi_def s Let_def n rw_def [symmetric] rh_def [symmetric] rois_inv_def)
  qed
qed

lemma detect_arc_in_rois_total:
  assumes "runtime_ok rt" "net_ok (rt_net_uv rt) (rt_host rt) n" "list_all (roi_ok (int w) (int h)) rois"
    "image_in visible (int w) (int h) 3" "image_in uv (int w) (int h) 1" "int w \<le> 2 ^ 15" "int h \<le> 2 ^ 15"
    "ac_model_input_w cfg = int W" "ac_model_input_h cfg = int H" "engine_ready (rt_buf rt) engine W H n"
  shows "\<exists>evs engine1. detect_arc_in_rois rt cfg uv visible (int w) (int h) rois pts stream engine = Ret (evs, engine1) \<and>
    engine_ready (rt_buf rt) engine1 W H n \<and> list_all (raw_event pts stream) evs \<and> length evs \<le> n * length rois"
proof -
  have n: "nat (int w * int h * 3) = 3 * (w * h)" by (simp add: nat_mult_distrib mult.commute)
  have "length (rt_fresh rt (3 * (w * h))) = 3 * (w * h)" "sched_ok (rt_sched rt)"
    using assms(1) by (simp_all add: runtime_ok_def)
  then obtain rc blended where bl: "cuda_blend_uv_visible (rt_sched rt) visible uv (rt_fresh rt (3 * (w * h))) (int w) (int h)
      (ac_uv_blend_weight cfg) = Ret (rc, blended)" "length blended = 3 * (w * h)"
    using blend_total [OF assms(4,5)] by metis
  have "image_in (float_bytes blended) (int w) (int h) 3"
  proof (rule float_image_in [OF bl(2)])
    have "int (3 * (w * h)) < int (2 ^ 31)" using assms(4) by (simp add: image_in_def)
    then show "3 * (w * h) < 2 ^ 31" by (simp only: of_nat_less_iff)
  qed (use assms(4) in \<open>simp_all add: image_in_def\<close>)
  note step = detect_in_roi_total [OF assms(1,2) _ assms(6,7) this assms(8,9)]
  have "\<exists>s'. exec_fold (detect_in_roi rt cfg (float_bytes blended) (int w) (int h) pts stream) rois ([], engine) = Ret s' \<and>
      rois_inv rt W H n pts stream s' \<and> length (fst s') \<le> length (fst (([], engine) :: arc_flash_event list \<times> trt_engine)) + n * length rois"
    by (rule exec_fold_count [where m = "\<lambda>s. length (fst s)"]) (use step assms(3,10) in \<open>auto simp: list_all_iff rois_inv_def\<close>)
  then show ?thesis using bl(1) by (auto simp: detect_arc_in_rois_def n rois_inv_def)
qed

section \<open>Energies\<close>

lemma energies_total:
  assumes "d2h_ok (rt_d2h rt)" "frame_holds uv w h 1" "list_all (raw_event pts stream) evs"
  shows "exec_fold (\<lambda>ev acc. exec_bind (with_energy rt uv w h ev) (\<lambda>ev1. Ret (acc @ [ev1]))) evs acc =
    Ret (acc @ map (\<lambda>ev. ev\<lparr>ev_instant_energy := energy_spec (ev_box ev) uv w h 1\<rparr>) evs)"
  using assms(3)
proof (induction evs arbitrary: acc)
  case (Cons ev evs)
  then have "box_in_range (ev_box ev)" by (auto simp: raw_event_def intro: coords_box_in_range)
  from gpu_energy_spec [OF assms(2) this assms(1)] show ?case
    using Cons by (simp add: with_energy_def)
qed simp

lemma image_frame_holds: "image_in uv w h 1 \<Longrightarrow> frame_holds uv w h 1"
  by (simp add: image_in_def frame_holds_def)

lemma nms_events_subset:
  "std_sort srt ev_confidence \<Longrightarrow> set (nms_events srt evs t) \<subseteq> set evs"
  using std_sort.nms_selects(1) by (fastforce simp: nms_events_def nms_suppress_spec split: if_splits)

lemma nms_events_length:
  "std_sort srt ev_confidence \<Longrightarrow> length (nms_events srt evs t) \<le> length evs"
  using nms_spec_length [of "ev_overlap t" "srt evs"]
  by (simp add: nms_events_def nms_suppress_spec std_sort.sort_length)

section \<open>A frame on a context\<close>

text \<open>A context that is ready: both engines, and a sound tracker with tracks of bounded size.\<close>

definition context_ready :: "runtime \<Rightarrow> arc_detector_config \<Rightarrow> nat \<Rightarrow> nat \<Rightarrow> stream_context \<Rightarrow> bool" where
  "context_ready rt cfg nv nu sc \<longleftrightarrow> (\<exists>W H. ac_model_input_w cfg = int W \<and> ac_model_input_h cfg = int H \<and>
     engine_ready (rt_buf rt) (sc_visible_engine sc) W H nv \<and> engine_ready (rt_buf rt) (sc_uv_engine sc) W H nu) \<and>
     tracker_inv (sc_tracker sc) \<and> list_all track_bounded (lt_active (sc_tracker sc))"

text \<open>What the events of a frame are made of.\<close>

definition frame_events ::
    "runtime \<Rightarrow> arc_detector_config \<Rightarrow> u8 list \<Rightarrow> int \<Rightarrow> int \<Rightarrow> i64 \<Rightarrow> i32 \<Rightarrow> stream_context \<Rightarrow> arc_flash_event list \<Rightarrow>
     stream_context \<Rightarrow> bool" where
  "frame_events rt cfg uv w h pts stream sc events sc' \<longleftrightarrow>
     (events = [] \<and> lt_expire pts (sc_tracker sc) = Ret (sc_tracker sc')) \<or>
     (\<exists>raw filtered lt1 upds. list_all (raw_event pts stream) raw \<and>
        filtered = map (\<lambda>ev. ev\<lparr>ev_instant_energy := energy_spec (ev_box ev) uv w h 1\<rparr>)
          (nms_events (rt_sort_event rt) raw (ac_nms_thresh cfg)) \<and>
        lt_update pts (map ev_box filtered) (map ev_instant_energy filtered) (sc_tracker sc) = Ret (lt1, upds) \<and>
        events = map (annotate upds) filtered \<and> lt_expire pts lt1 = Ret (sc_tracker sc'))"

text \<open>The energies of a frame are doubles of moderate size.\<close>

lemma energies_ok:
  assumes "image_in uv w h 1"
  shows "list_all (\<lambda>e. energy_ok e \<and> e \<le> 2 ^ 31)
    (map ev_instant_energy (map (\<lambda>ev. ev\<lparr>ev_instant_energy := energy_spec (ev_box ev) uv w h 1\<rparr>) evs))"
proof -
  have "w * h < 2 ^ 31" using assms by (simp add: image_in_def)
  then have "(of_int (w * h) :: rat) \<le> of_int (2 ^ 31)" by (simp only: of_int_le_iff)
  then have "energy_spec b uv w h 1 \<le> 2 ^ 31" for b
    using energy_spec_bounds [OF image_frame_holds [OF assms], of b] by simp
  then show ?thesis
    using energy_spec_bounds [OF image_frame_holds [OF assms]] by (simp add: energy_ok_def list_all_iff)
qed

text \<open>The tracker over a frame: sound and bounded again, with less room by the events.\<close>

lemma frame_events_tracker:
  assumes "frame_events rt cfg uv w h pts i sc events sc'" "image_in uv w h 1" "tracker_inv (sc_tracker sc)"
    "list_all track_bounded (lt_active (sc_tracker sc))" "time_ok pts"
  shows "tracker_inv (sc_tracker sc')" "list_all track_bounded (lt_active (sc_tracker sc'))"
    "tracker_room (length events + k) (sc_tracker sc) \<Longrightarrow> tracker_room k (sc_tracker sc')"
proof -
  have "tracker_inv (sc_tracker sc') \<and> list_all track_bounded (lt_active (sc_tracker sc')) \<and>
    (tracker_room (length events + k) (sc_tracker sc) \<longrightarrow> tracker_room k (sc_tracker sc'))"
    using assms(1) unfolding frame_events_def
  proof (elim disjE exE conjE)
    fix raw filtered lt1 upds
    assume f: "filtered = map (\<lambda>ev. ev\<lparr>ev_instant_energy := energy_spec (ev_box ev) uv w h 1\<rparr>)
        (nms_events (rt_sort_event rt) raw (ac_nms_thresh cfg))"
      and u: "lt_update pts (map ev_box filtered) (map ev_instant_energy filtered) (sc_tracker sc) = Ret (lt1, upds)"
      and e: "events = map (annotate upds) filtered" "lt_expire pts lt1 = Ret (sc_tracker sc')"
    have en: "list_all (\<lambda>e. energy_ok e \<and> e \<le> 2 ^ 31) (map ev_instant_energy filtered)"
      unfolding f by (rule energies_ok [OF assms(2)])
    have inv: "tracker_inv lt1" using lt_update_inv [OF u assms(3)] en by (simp add: list_all_iff)
    have pos: "0 < sint (lt_next_id (sc_tracker sc))" using assms(3) by (simp add: tracker_inv_def)
    show ?thesis
      using lt_expire_inv [OF e(2) inv] lt_expire_bounded [OF e(2) inv] lt_update_bounded [OF u assms(3,4) en assms(5)]
        lt_update_room [OF u pos, of k] e(1) by simp
  next
    assume e: "events = []" "lt_expire pts (sc_tracker sc) = Ret (sc_tracker sc')"
    then show ?thesis
      using lt_expire_inv [OF e(2) assms(3)] lt_expire_bounded [OF e(2) assms(3)] assms(4) by simp
  qed
  then show "tracker_inv (sc_tracker sc')" "list_all track_bounded (lt_active (sc_tracker sc'))"
    "tracker_room (length events + k) (sc_tracker sc) \<Longrightarrow> tracker_room k (sc_tracker sc')" by blast+
qed

lemma detect_in_context_total:
  assumes "runtime_ok rt" "net_ok (rt_net_visible rt) (rt_host rt) nv" "net_ok (rt_net_uv rt) (rt_host rt) nu"
    "image_in visible (int w) (int h) 3" "image_in uv (int w) (int h) 1" "int w \<le> 2 ^ 15" "int h \<le> 2 ^ 15"
    "0 \<le> ac_roi_padding cfg" "ac_roi_padding cfg \<le> 2 ^ 15" "context_ready rt cfg nv nu sc"
    "time_ok pts" "tracker_room (nu * nv) (sc_tracker sc)"
  shows "\<exists>events sc'. detect_in_context rt cfg visible uv (int w) (int h) pts stream sc = Ret (events, sc') \<and>
    frame_events rt cfg uv (int w) (int h) pts stream sc events sc' \<and>
    sc_initialized sc' = sc_initialized sc \<and> length events \<le> nu * nv \<and> context_ready rt cfg nv nu sc'"
proof -
  obtain W H where cfg: "ac_model_input_w cfg = int W" "ac_model_input_h cfg = int H"
    and vis: "engine_ready (rt_buf rt) (sc_visible_engine sc) W H nv"
    and uve: "engine_ready (rt_buf rt) (sc_uv_engine sc) W H nu"
    and inv: "tracker_inv (sc_tracker sc)" and bd: "list_all track_bounded (lt_active (sc_tracker sc))"
    using assms(10) by (auto simp: context_ready_def)
  note rto = assms(1) [unfolded runtime_ok_def]
  obtain dets vis1 where v: "infer (rt_sched rt) (rt_net_visible rt) (rt_sort_det rt) (rt_buf rt) (rt_host rt) visible (int w) (int h) 3
      (sc_visible_engine sc) = Ret (dets, vis1)" "engine_ready (rt_buf rt) vis1 W H nv"
    "\<forall>d \<in> set dets. coords_ok (2 ^ 15) (det_box d) \<and> rnd32 (det_confidence d) = det_confidence d" "length dets \<le> nv"
    using infer_ready [OF vis assms(2) _ assms(4) _ assms(6,7), of "rt_sort_det rt" "rt_sched rt"] rto by auto
  define rois where "rois = map (padded_roi (ac_roi_padding cfg) (int w) (int h)) dets"
  have ex: "extract_pantograph_rois rt cfg visible (int w) (int h) (sc_visible_engine sc) = Ret (rois, vis1)"
    using v(1) by (simp add: extract_pantograph_rois_def rois_def)
  show ?thesis
  proof (cases "rois = []")
    case True
    obtain lt1 where lt1: "lt_expire pts (sc_tracker sc) = Ret lt1" by (rule lt_expire_total [OF bd assms(11)])
    have "tracker_inv lt1" "list_all track_bounded (lt_active lt1)"
      using lt_expire_inv [OF lt1 inv] lt_expire_bounded(1) [OF lt1 inv bd] by simp_all
    then show ?thesis
      using True ex v(2) cfg uve lt1 by (auto simp: detect_in_context_def Let_def frame_events_def context_ready_def)
  next
    case False
    have "list_all (roi_ok (int w) (int h)) rois"
      using v(3) padded_roi_ok [OF _ assms(8,9) _ assms(6) _ assms(7)] by (auto simp: rois_def list_all_iff)
    from detect_arc_in_rois_total [OF assms(1,3) this assms(4-7) cfg uve]
    obtain raw uv1 where r: "detect_arc_in_rois rt cfg uv visible (int w) (int h) rois pts stream (sc_uv_engine sc) = Ret (raw, uv1)"
      "engine_ready (rt_buf rt) uv1 W H nu" "list_all (raw_event pts stream) raw" "length raw \<le> nu * length rois" by blast
    define f0 where "f0 = nms_events (rt_sort_event rt) raw (ac_nms_thresh cfg)"
    define f1 where "f1 = map (\<lambda>ev. ev\<lparr>ev_instant_energy := energy_spec (ev_box ev) uv (int w) (int h) 1\<rparr>) f0"
    have "list_all (raw_event pts stream) f0"
      using r(3) nms_events_subset [of "rt_sort_event rt" raw "ac_nms_thresh cfg"] rto by (auto simp: f0_def list_all_iff)
    from energies_total [OF _ image_frame_holds [OF assms(5)] this, of rt "[]"] rto
    have en: "exec_fold (\<lambda>ev acc. exec_bind (with_energy rt uv (int w) (int h) ev) (\<lambda>ev1. Ret (acc @ [ev1]))) f0 [] = Ret f1"
      by (simp add: f1_def)
    have len: "length f1 \<le> nu * nv"
    proof -
      have "length f1 \<le> length raw"
        using nms_events_length [of "rt_sort_event rt" raw "ac_nms_thresh cfg"] rto by (simp add: f1_def f0_def)
      also have "\<dots> \<le> nu * nv"
        using r(4) v(4) mult_le_mono2 [of "length rois" nv nu] unfolding rois_def length_map by linarith
      finally show ?thesis .
    qed
    have im: "image_in uv (int w) (int h) 1" by (rule assms(5))
    obtain lt1 upds where u: "lt_update pts (map ev_box f1) (map ev_instant_energy f1) (sc_tracker sc) = Ret (lt1, upds)"
      using lt_update_total [of "map ev_box f1" "map ev_instant_energy f1" "sc_tracker sc" pts] bd assms(11)
        tracker_room_less [OF assms(12) len] by auto
    have en1: "list_all (\<lambda>e. energy_ok e \<and> e \<le> 2 ^ 31) (map ev_instant_energy f1)"
      unfolding f1_def by (rule energies_ok [OF im])
    obtain lt2 where e: "lt_expire pts lt1 = Ret lt2"
      by (rule lt_expire_total [OF lt_update_bounded [OF u inv bd en1 assms(11)] assms(11)])
    let ?sc = "sc\<lparr>sc_visible_engine := vis1, sc_uv_engine := uv1, sc_tracker := lt2\<rparr>"
    have "detect_in_context rt cfg visible uv (int w) (int h) pts stream sc = Ret (map (annotate upds) f1, ?sc)"
      using False ex r(1) en u e by (simp add: detect_in_context_def Let_def f0_def)
    moreover have fe: "frame_events rt cfg uv (int w) (int h) pts stream sc (map (annotate upds) f1) ?sc"
      unfolding frame_events_def using r(3) u e f0_def f1_def by fastforce
    moreover have "context_ready rt cfg nv nu ?sc"
      using v(2) r(2) cfg frame_events_tracker(1,2) [OF fe im inv bd assms(11)] by (auto simp: context_ready_def)
    moreover have "sc_initialized ?sc = sc_initialized sc" by simp
    ultimately show ?thesis using len by (metis length_map)
  qed
qed

section \<open>The frame on the detector\<close>

text \<open>A detector whose set-up streams are all ready.\<close>

definition detector_ready :: "runtime \<Rightarrow> nat \<Rightarrow> nat \<Rightarrow> arc_detector \<Rightarrow> bool" where
  "detector_ready rt nv nu ad \<longleftrightarrow> ad_base_initialized ad \<and> distinct (map fst (ad_contexts ad)) \<and>
     0 \<le> ac_roi_padding (ad_config ad) \<and> ac_roi_padding (ad_config ad) \<le> 2 ^ 15 \<and>
     (\<forall>(i, sc) \<in> set (ad_contexts ad). sc_initialized sc \<and> context_ready rt (ad_config ad) nv nu sc)"

definition replace_context :: "int \<Rightarrow> stream_context \<Rightarrow> arc_detector \<Rightarrow> arc_detector" where
  "replace_context i sc ad =
     ad\<lparr>ad_contexts := map (\<lambda>(j, c). if j = i then (j, sc) else (j, c)) (ad_contexts ad)\<rparr>"

lemma replace_context_keys [simp]:
  "map fst (ad_contexts (replace_context i sc ad)) = map fst (ad_contexts ad)"
  "ad_config (replace_context i sc ad) = ad_config ad"
  "ad_base_initialized (replace_context i sc ad) = ad_base_initialized ad"
  by (auto simp: replace_context_def)

lemma map_of_replace:
  "map_of (map (\<lambda>(j, c). if j = i then (j, x) else (j, c)) xs) k =
   (if k = i then map_option (\<lambda>_. x) (map_of xs k) else map_of xs k)"
  by (induction xs) auto

lemma replace_context_other:
  "j \<noteq> i \<Longrightarrow> map_of (ad_contexts (replace_context i sc ad)) j = map_of (ad_contexts ad) j"
  by (simp add: replace_context_def map_of_replace)

lemma replace_context_same:
  "map_of (ad_contexts ad) i = Some sc0 \<Longrightarrow> map_of (ad_contexts (replace_context i sc ad)) i = Some sc"
  by (simp add: replace_context_def map_of_replace)

lemma detector_ready_stream:
  assumes "detector_ready rt nv nu ad" "map_of (ad_contexts ad) i = Some sc"
  shows "get_stream_context i ad = Some sc" "context_ready rt (ad_config ad) nv nu sc" "sc_initialized sc"
  using assms by (auto simp: detector_ready_def get_stream_context_def dest!: map_of_SomeD)

lemma replace_context_ready:
  assumes "detector_ready rt nv nu ad" "sc_initialized sc" "context_ready rt (ad_config ad) nv nu sc"
  shows "detector_ready rt nv nu (replace_context i sc ad)"
proof -
  have "\<forall>(j, c) \<in> set (ad_contexts (replace_context i sc ad)).
      sc_initialized c \<and> context_ready rt (ad_config ad) nv nu c"
    using assms unfolding detector_ready_def replace_context_def
    by (auto split: if_splits prod.splits)
  then show ?thesis using assms(1) unfolding detector_ready_def replace_context_keys by blast
qed

text \<open>Two frames of the announced size, no larger than 32768 in either direction.\<close>

definition frame_pair :: "u8 list \<Rightarrow> u8 list \<Rightarrow> nat \<Rightarrow> nat \<Rightarrow> bool" where
  "frame_pair visible uv w h \<longleftrightarrow> image_in visible (int w) (int h) 3 \<and> image_in uv (int w) (int h) 1 \<and>
     int w \<le> 2 ^ 15 \<and> int h \<le> 2 ^ 15"

definition nets_ok :: "runtime \<Rightarrow> nat \<Rightarrow> nat \<Rightarrow> bool" where
  "nets_ok rt nv nu \<longleftrightarrow> runtime_ok rt \<and> net_ok (rt_net_visible rt) (rt_host rt) nv \<and> net_ok (rt_net_uv rt) (rt_host rt) nu"

lemma detect_on_stream:
  assumes "nets_ok rt nv nu" "frame_pair visible uv w h" "time_ok pts" "detector_ready rt nv nu ad"
    "map_of (ad_contexts ad) (sint i) = Some sc" "tracker_room (nu * nv) (sc_tracker sc)"
  obtains events sc' where "detect rt visible uv (int w) (int h) pts i ad = Ret (events, replace_context (sint i) sc' ad)"
    "frame_events rt (ad_config ad) uv (int w) (int h) pts i sc events sc'" "sc_initialized sc'"
    "length events \<le> nu * nv" "context_ready rt (ad_config ad) nv nu sc'"
proof -
  note st = detector_ready_stream [OF assms(4,5)]
  note dr = assms(4) [unfolded detector_ready_def]
  obtain events sc' where c: "detect_in_context rt (ad_config ad) visible uv (int w) (int h) pts i sc = Ret (events, sc')"
    "frame_events rt (ad_config ad) uv (int w) (int h) pts i sc events sc'" "sc_initialized sc' = sc_initialized sc"
    "length events \<le> nu * nv" "context_ready rt (ad_config ad) nv nu sc'"
    using detect_in_context_total [of rt nv nu visible w h uv "ad_config ad" sc pts i] st(2) assms(1-3,6) dr
    by (auto simp: nets_ok_def frame_pair_def)
  have "detect rt visible uv (int w) (int h) pts i ad = Ret (events, replace_context (sint i) sc' ad)"
    using dr st(1) c(1) by (simp add: detect_def replace_context_def)
  then show ?thesis using that c(2-5) st(3) by blast
qed

text \<open>What the tracker says of an event.\<close>

lemma update_id_positive:
  assumes "lt_update pts dets energies lt = Ret (lt', upds)" "tracker_inv lt" "list_all energy_ok energies" "u \<in> set upds"
  shows "0 < sint (up_id u)"
proof -
  have "tracker_inv lt'" using assms(1-3) by (rule lt_update_inv)
  moreover obtain t where "t \<in> set (lt_active lt')" "reported_track pts t u" using lt_update_reports [OF assms(1,4)] by blast
  ultimately have "0 < sint (tr_id t)" by (auto simp: tracker_inv_def)
  then show ?thesis using \<open>reported_track pts t u\<close> by (simp add: reported_track_def)
qed

text \<open>The energies an update reports are doubles that a \<open>double\<close> of the machine can hold.\<close>

definition sized_energy :: "rat \<Rightarrow> bool" where
  "sized_energy e \<longleftrightarrow> 0 \<le> e \<and> e < 2 ^ 1024 \<and> rnd64 e = e"

lemma less_pow_1024: "e \<le> 2 ^ k \<Longrightarrow> k < 1024 \<Longrightarrow> e < (2 :: rat) ^ 1024"
  by (rule le_less_trans, assumption) (rule power_strict_increasing; simp)

lemma track_energies_sized:
  assumes "track_ok t" "track_bounded t"
  shows "sized_energy (tr_smoothed t)" "sized_energy (tr_cumulative t)"
proof -
  define n where "n = sint (tr_frame_count t)"
  have "n \<le> 2 ^ 31" unfolding n_def using sint_lt [of "tr_frame_count t"] by simp
  then have "(of_int n :: rat) \<le> of_int (2 ^ 31)" by (simp only: of_int_le_iff)
  then have n: "2 ^ 31 * of_int n \<le> (2 ^ 62 :: rat)" "2 ^ 62 * of_int n \<le> (2 ^ 93 :: rat)" by simp_all
  have s: "tr_smoothed t \<le> 2 ^ 62" "tr_cumulative t \<le> 2 ^ 93"
    using assms(2) n unfolding track_bounded_def n_def by linarith+
  have "rnd64 (tr_smoothed t) = tr_smoothed t"
    using assms(1) by (auto simp: track_ok_def kf_ok_def kf_predict_def Let_def)
  then show "sized_energy (tr_smoothed t)" "sized_energy (tr_cumulative t)"
    using assms(1) less_pow_1024 [OF s(1)] less_pow_1024 [OF s(2)] by (simp_all add: sized_energy_def track_ok_def)
qed

lemma update_energies_sized:
  assumes "lt_update pts dets energies lt = Ret (lt', upds)" "tracker_inv lt'" "list_all track_bounded (lt_active lt')" "u \<in> set upds"
  shows "sized_energy (up_smoothed u)" "sized_energy (up_cumulative u)"
proof -
  obtain t where t: "t \<in> set (lt_active lt')" "reported_track pts t u" using lt_update_reports [OF assms(1,4)] by blast
  then have "track_ok t" "track_bounded t" using assms(2,3) by (auto simp: tracker_inv_def list_all_iff)
  from track_energies_sized [OF this] show "sized_energy (up_smoothed u)" "sized_energy (up_cumulative u)"
    using t(2) by (simp_all add: reported_track_def)
qed

end
