(* ===== verification/Detect_Demo.thy ===== *)
theory Detect_Demo
  imports Detect_Frame
begin

text \<open>
  A detector to run: the instance that the statements on frames are applied to. On its gray frames it
  reports exactly one event, so those statements are not about empty reports.
\<close>

section \<open>A detector to run\<close>

text \<open>
  The network answers with one box at the corner, whose width follows the first value of its input;
  one stream is set up.
\<close>

definition box_net :: network where
  "box_net x = Some [0, 0, max 0 (min 2 (x ! 0)), 2, 3/4, 1]"

lemma box_output: "net_output box_net host x = [0, 0, max 0 (min 2 (x ! 0)), 2, 3/4, 1]"
  by (simp add: net_output_def box_net_def)

definition box_runtime :: runtime where
  "box_runtime = demo_runtime\<lparr>rt_net_visible := box_net, rt_net_uv := box_net\<rparr>"

definition box_context :: stream_context where
  "box_context = \<lparr>sc_visible_engine = small_engine, sc_uv_engine = small_engine,
     sc_tracker = lt_new default_thresholds (rnd64 (3/10)) 100000000 64, sc_stream_index = 0, sc_initialized = True\<rparr>"

definition box_detector :: arc_detector where
  "box_detector = \<lparr>ad_config = demo_detector_config\<lparr>ac_roi_padding := 40\<rparr>, ad_contexts = [(0, box_context), (1, box_context)],
     ad_base_initialized = True\<rparr>"

abbreviation gray_frame :: "nat \<Rightarrow> u8 list" where
  "gray_frame ch \<equiv> replicate (64 * 48 * ch) 130"

lemma box_runtime_ok: "nets_ok box_runtime 1 1"
proof -
  have "rtrunc 1 = 1" by code_simp
  then have "net_ok box_net (rt_host box_runtime) 1"
    by (auto simp: net_ok_def output_ok_def box_output coords_ok_def row_det_def)
  moreover have "runtime_ok box_runtime"
    by (simp add: runtime_ok_def box_runtime_def demo_runtime_def row_order_ok d2h_model_ok ds.std_sort_axioms)
  ultimately show ?thesis by (simp add: nets_ok_def) (simp add: box_runtime_def)
qed

lemma box_context_ready: "context_ready box_runtime (ad_config box_detector) 1 1 box_context"
proof -
  have "engine_ready (rt_buf box_runtime) small_engine 2 2 1"
    by (simp add: engine_ready_def small_engine_parts small_config_def box_runtime_def demo_runtime_def)
  moreover have "tracker_inv (sc_tracker box_context)" "lt_active (sc_tracker box_context) = []"
    by (simp_all add: tracker_inv_def box_context_def lt_new_def)
  ultimately show ?thesis
    unfolding context_ready_def box_detector_def demo_detector_config_def
    by (intro conjI exI [of _ 2]) (simp_all add: box_context_def)
qed

lemma box_context_room: "k < 2 ^ 31 - 1 \<Longrightarrow> tracker_room k (sc_tracker box_context)"
  by (simp add: tracker_room_def box_context_def lt_new_def)

lemma box_detector_ready: "detector_ready box_runtime 1 1 box_detector"
proof -
  have "ad_contexts box_detector = [(0, box_context), (1, box_context)]" "ad_base_initialized box_detector"
    "ac_roi_padding (ad_config box_detector) = 40" "sc_initialized box_context"
    by (simp_all add: box_detector_def box_context_def)
  then show ?thesis using box_context_ready by (simp add: detector_ready_def)
qed

lemma gray_frame_pair: "frame_pair (gray_frame 3) (gray_frame 1) 64 48"
  by (simp add: frame_pair_def image_in_def)

section \<open>It detects\<close>

lemma sort_single: "std_sort srt key \<Longrightarrow> srt [x] = [x]"
proof -
  assume "std_sort srt key"
  then have "mset (srt [x]) = {#x#}" by (simp add: std_sort.perm)
  then show "srt [x] = [x]" by (metis mset_single_iff_right)
qed

text \<open>The network always answers with one box, of a confidence above every threshold in use.\<close>

lemma box_infer:
  assumes "engine_ready buf te W H 1" "ic_score_threshold (te_config te) \<le> 3/4" "std_sort srt det_confidence"
    "image_in frame w h ch" "3 \<le> ch" "w \<le> 2 ^ 15" "h \<le> 2 ^ 15" "sched_ok sched"
  obtains d te' where "infer sched box_net srt buf host frame w h ch te = Ret ([d], te')" "rx1 (det_box d) = 0" "ry1 (det_box d) = 0"
    "0 \<le> rx2 (det_box d)" "rx2 (det_box d) \<le> 2" "ry2 (det_box d) = 2" "engine_ready buf te' W H 1"
proof -
  have net: "output_ok (net_output box_net (host c) x) 1" for c x
    using rtrunc_of_int [of 1] by (simp add: output_ok_def box_output)
  note r = assms(1) [unfolded engine_ready_def]
  obtain c cs where f: "te_free te = c # cs" using r by (cases "te_free te") auto
  obtain sz szs where o: "te_output_sizes te = sz # szs" using r by (cases "te_output_sizes te") auto
  have "\<exists>input. infer sched box_net srt buf host frame w h ch te =
      Ret (nms_spec (det_overlap (ic_nms_threshold (te_config te)))
              (srt (candidates (ic_score_threshold (te_config te)) (net_output box_net (host c) input) 1)), te\<lparr>te_free := cs @ [c]\<rparr>)"
    using infer_Ret [of te c cs sz szs 1 W H buf frame w h ch sched box_net host srt] r f o assms(4-8) net by auto
  then obtain input where i: "infer sched box_net srt buf host frame w h ch te =
      Ret (nms_spec (det_overlap (ic_nms_threshold (te_config te)))
              (srt (candidates (ic_score_threshold (te_config te)) (net_output box_net (host c) input) 1)), te\<lparr>te_free := cs @ [c]\<rparr>)" ..
  define d where "d = row_det (net_output box_net (host c) input) 0"
  have "rnd32 (3 / 4) = 3 / 4" by code_simp
  then have d: "det_confidence d = 3/4" "rx1 (det_box d) = 0" "ry1 (det_box d) = 0" "0 \<le> rx2 (det_box d)" "rx2 (det_box d) \<le> 2"
    "ry2 (det_box d) = 2"
    by (simp_all add: d_def row_det_def box_output)
  have "candidates (ic_score_threshold (te_config te)) (net_output box_net (host c) input) 1 = [d]"
    using d(1) assms(2) by (simp add: candidates_def d_def)
  then have "infer sched box_net srt buf host frame w h ch te = Ret ([d], te\<lparr>te_free := cs @ [c]\<rparr>)"
    using i sort_single [OF assms(3)] by simp
  moreover have "engine_ready buf (te\<lparr>te_free := cs @ [c]\<rparr>) W H 1"
    using r f by (auto simp: engine_ready_def is_loaded_def)
  ultimately show ?thesis using that d by blast
qed


lemma corner_roi:
  assumes "rx1 (det_box d) = 0" "ry1 (det_box d) = 0" "0 \<le> rx2 (det_box d)" "rx2 (det_box d) \<le> 2" "ry2 (det_box d) = 2"
  defines "b \<equiv> roi_box (padded_roi 40 64 48 d)"
  shows "32 \<le> rtrunc (rnd32 (rx2 b - rx1 b))" "32 \<le> rtrunc (rnd32 (ry2 b - ry1 b))"
proof -
  have r: "rnd32 (- 40) = - 40" "rnd32 40 = 40" "rnd32 42 = 42" "rnd32 64 = 64" "rnd32 48 = 48" by code_simp+
  have b0: "rx1 b = 0" "ry1 b = 0" "ry2 b = 42" using assms(1,2,5) by (simp_all add: b_def padded_roi_def Let_def r)
  have "40 \<le> rnd32 (rx2 (det_box d) + 40)" using assms(3) r(2) by (intro f32.ge_repr) auto
  then have b2: "40 \<le> rx2 b" by (simp add: b_def padded_roi_def Let_def r)
  have "of_int 40 \<le> rnd32 (rx2 b - rx1 b)" "of_int 40 \<le> rnd32 (ry2 b - ry1 b)"
    using b0 b2 r(2,3) f32.ge_repr [of 40 "rx2 b"] by simp_all
  from this [THEN rtrunc_mono] show "32 \<le> rtrunc (rnd32 (rx2 b - rx1 b))" "32 \<le> rtrunc (rnd32 (ry2 b - ry1 b))"
    unfolding rtrunc_of_int by linarith+
qed


lemma box_detect_in_roi:
  assumes "engine_ready (rt_buf box_runtime) engine 2 2 1" "ic_score_threshold (te_config engine) \<le> 3/4"
    "roi_ok 64 48 roi" "image_in blended 64 48 3" "ac_model_input_w cfg = 2" "ac_model_input_h cfg = 2"
    "32 \<le> rtrunc (rnd32 (rx2 (roi_box roi) - rx1 (roi_box roi)))"
    "32 \<le> rtrunc (rnd32 (ry2 (roi_box roi) - ry1 (roi_box roi)))"
  obtains ev engine1 where "detect_in_roi box_runtime cfg blended 64 48 pts i roi ([], engine) = Ret ([ev], engine1)"
proof -
  have rto: "runtime_ok box_runtime" using box_runtime_ok by (simp add: nets_ok_def)
  note rt = rto [unfolded runtime_ok_def]
  have lim: "(64 :: int) \<le> 2 ^ 15" "(48 :: int) \<le> 2 ^ 15" by simp_all
  note sides = roi_sides [OF assms(3) lim]
  have so: "sched_ok (rt_sched box_runtime)" "length (rt_fresh box_runtime 12) = 3 * (2 * 2)" using rt by simp_all
  obtain rc input where c: "cuda_preprocess_roi_crop (rt_sched box_runtime) blended 64 48 (rtrunc (rx1 (roi_box roi)))
      (rtrunc (ry1 (roi_box roi))) (rtrunc (rx2 (roi_box roi))) (rtrunc (ry2 (roi_box roi))) (rt_fresh box_runtime 12)
      (int 2) (int 2) (Some (0, 0, 0)) (Some (255, 255, 255)) False = Ret (rc, input)" "length input = 3 * (2 * 2)"
    by (rule roi_crop_total [OF assms(4) sides(9-12), of 2 2 "rt_fresh box_runtime 12" "rt_sched box_runtime"
          "rtrunc (rx2 (roi_box roi))" "rtrunc (ry2 (roi_box roi))" "Some (0, 0, 0)" "Some (255, 255, 255)" False, OF _ _ so(2) _ so(1)]) simp_all
  have im: "image_in (float_bytes input) 2 2 3" using float_image_in [OF c(2)] by simp
  have srt: "std_sort (rt_sort_det box_runtime) det_confidence" "sched_ok (rt_sched box_runtime)" using rt by simp_all
  have net: "rt_net_uv box_runtime = box_net" by (simp add: box_runtime_def)
  obtain d engine1 where "infer (rt_sched box_runtime) box_net (rt_sort_det box_runtime) (rt_buf box_runtime) (rt_host box_runtime)
      (float_bytes input) 2 2 3 engine = Ret ([d], engine1)"
    by (rule box_infer [OF assms(1,2) srt(1) im _ _ _ srt(2)]) auto
  then show ?thesis
    using that c(1) sides(1,2,5-8) assms(5-8) by (simp add: detect_in_roi_def Let_def net)
qed


lemma box_context_fields [simp]:
  "sc_visible_engine box_context = small_engine" "sc_uv_engine box_context = small_engine" "sc_initialized box_context"
  by (simp_all add: box_context_def)

lemma box_rois_events:
  assumes "ac_model_input_w cfg = 2" "ac_model_input_h cfg = 2" "roi_ok 64 48 roi"
    "32 \<le> rtrunc (rnd32 (rx2 (roi_box roi) - rx1 (roi_box roi)))"
    "32 \<le> rtrunc (rnd32 (ry2 (roi_box roi) - ry1 (roi_box roi)))"
    "image_in visible 64 48 3" "image_in uv 64 48 1" "engine_ready (rt_buf box_runtime) engine 2 2 1"
    "ic_score_threshold (te_config engine) \<le> 3/4"
  obtains ev engine1 where "detect_arc_in_rois box_runtime cfg uv visible 64 48 [roi] pts i engine = Ret ([ev], engine1)"
proof -
  have so: "sched_ok (rt_sched box_runtime)" "length (rt_fresh box_runtime 9216) = 3 * (64 * 48)"
    using box_runtime_ok by (simp_all add: nets_ok_def runtime_ok_def)
  obtain rc blended where b: "cuda_blend_uv_visible (rt_sched box_runtime) visible uv (rt_fresh box_runtime 9216) 64 48
      (ac_uv_blend_weight cfg) = Ret (rc, blended)" "length blended = 3 * (64 * 48)"
    by (rule blend_total [of visible 64 48 uv, OF _ _ so(2,1)]) (use assms(6,7) in simp_all)
  have "image_in (float_bytes blended) 64 48 3" using float_image_in [OF b(2)] by simp
  from box_detect_in_roi [OF assms(8,9,3) this assms(1,2,4,5), of pts i] obtain ev engine1 where
    "detect_in_roi box_runtime cfg (float_bytes blended) 64 48 pts i roi ([], engine) = Ret ([ev], engine1)" .
  then show ?thesis using that b(1) by (simp add: detect_arc_in_rois_def)
qed

lemma nms_events_single: "std_sort srt ev_confidence \<Longrightarrow> nms_events srt [ev] t = [ev]"
  using sort_single [of srt ev_confidence ev] by (simp add: nms_events_def nms_suppress_spec)

text \<open>One event on the gray frames, at any time and on either stream, as long as the stream has seen no frame.\<close>

lemma box_detects_on:
  assumes "get_stream_context (sint i) ad = Some box_context" "ad_base_initialized ad" "ad_config ad = ad_config box_detector"
    "time_ok pts"
  obtains ev ad' where "detect box_runtime (gray_frame 3) (gray_frame 1) (int 64) (int 48) pts i ad = Ret ([ev], ad')"
proof -
  let ?cfg = "ad_config box_detector"
  have rto: "runtime_ok box_runtime" using box_runtime_ok by (simp add: nets_ok_def)
  note rt = rto [unfolded runtime_ok_def]
  have cfg: "ac_model_input_w ?cfg = 2" "ac_model_input_h ?cfg = 2" "ac_roi_padding ?cfg = 40"
    by (simp_all add: box_detector_def demo_detector_config_def)
  have net: "rt_net_visible box_runtime = box_net" by (simp add: box_runtime_def)
  have eng: "engine_ready (rt_buf box_runtime) small_engine 2 2 1"
    by (simp add: engine_ready_def small_engine_parts small_config_def box_runtime_def demo_runtime_def)
  have thr: "ic_score_threshold (te_config small_engine) \<le> 3/4" unfolding small_engine_parts by code_simp
  have im: "image_in (gray_frame 3) 64 48 3" "image_in (gray_frame 1) 64 48 1"
    using gray_frame_pair by (simp_all add: frame_pair_def)
  have srt: "std_sort (rt_sort_det box_runtime) det_confidence" "sched_ok (rt_sched box_runtime)"
    "std_sort (rt_sort_event box_runtime) ev_confidence" "d2h_ok (rt_d2h box_runtime)" using rt by simp_all
  obtain d vis1 where v: "infer (rt_sched box_runtime) box_net (rt_sort_det box_runtime) (rt_buf box_runtime) (rt_host box_runtime)
      (gray_frame 3) 64 48 3 small_engine = Ret ([d], vis1)"
    "rx1 (det_box d) = 0" "ry1 (det_box d) = 0" "0 \<le> rx2 (det_box d)" "rx2 (det_box d) \<le> 2" "ry2 (det_box d) = 2"
    by (rule box_infer [OF eng thr srt(1) im(1) _ _ _ srt(2)]) auto
  let ?roi = "padded_roi 40 64 48 d"
  have "coords_ok (2 ^ 15) (det_box d)" using v(2-6) by (simp add: coords_ok_def)
  then have ok: "roi_ok 64 48 ?roi" by (rule padded_roi_ok) simp_all
  obtain ev0 uv1 where r: "detect_arc_in_rois box_runtime ?cfg (gray_frame 1) (gray_frame 3) 64 48 [?roi] pts i small_engine
      = Ret ([ev0], uv1)"
    by (rule box_rois_events [OF cfg(1,2) ok corner_roi [OF v(2-6)] im eng thr])
  have "\<exists>evs engine1. detect_arc_in_rois box_runtime ?cfg (gray_frame 1) (gray_frame 3) (int 64) (int 48) [?roi] pts i small_engine =
      Ret (evs, engine1) \<and> engine_ready (rt_buf box_runtime) engine1 2 2 1 \<and> list_all (raw_event pts i) evs \<and> length evs \<le> 1 * length [?roi]"
    by (rule detect_arc_in_rois_total [OF rto]) (use box_runtime_ok ok im cfg eng in \<open>simp_all add: nets_ok_def\<close>)
  then have raw: "list_all (raw_event pts i) [ev0]" using r by auto
  note en = energies_total [OF srt(4) image_frame_holds [OF im(2)] raw, of "[]"]
  obtain events sc' where t: "detect_in_context box_runtime ?cfg (gray_frame 3) (gray_frame 1) (int 64) (int 48) pts i box_context
      = Ret (events, sc')"
    using detect_in_context_total [OF rto, of 1 1 "gray_frame 3" 64 48 "gray_frame 1" ?cfg box_context pts i]
      box_runtime_ok im cfg(3) box_context_ready box_context_room [of 1] assms(4) by (auto simp: nets_ok_def)
  obtain ev sc' where "detect_in_context box_runtime ?cfg (gray_frame 3) (gray_frame 1) 64 48 pts i box_context = Ret ([ev], sc')"
    using t v(1) r en nms_events_single [OF srt(3)] cfg(3) net
    by (auto simp: detect_in_context_def extract_pantograph_rois_def Let_def exec_bind_Ret_iff)
  then show ?thesis using that assms(1-3) by (simp add: detect_def)
qed

lemma box_detects:
  assumes "sint i \<in> {0, 1}" "time_ok pts"
  obtains ev ad' where "detect box_runtime (gray_frame 3) (gray_frame 1) (int 64) (int 48) pts i box_detector = Ret ([ev], ad')"
proof (rule box_detects_on [of i box_detector pts])
  show "get_stream_context (sint i) box_detector = Some box_context" "ad_base_initialized box_detector"
    using assms(1) by (auto simp: get_stream_context_def box_detector_def)
qed (use assms(2) that in simp_all)

end
