(* ===== verification/Detect_History.thy ===== *)
theory Detect_History
  imports Detect_Demo
begin

text \<open>
  The detector over frames: isolation of the streams, what the reported events are and that their
  energies fit in a \<open>double\<close>, and any history of frames over all streams, for as long as the 32-bit
  counters of the trackers have room.
\<close>

section \<open>Room\<close>

text \<open>Room for \<open>k\<close> more detections in the counters of every stream.\<close>

definition detector_room :: "nat \<Rightarrow> arc_detector \<Rightarrow> bool" where
  "detector_room k ad \<longleftrightarrow> (\<forall>sc \<in> snd ` set (ad_contexts ad). tracker_room k (sc_tracker sc))"

lemma detector_room_stream: "detector_room k ad \<Longrightarrow> map_of (ad_contexts ad) i = Some sc \<Longrightarrow> tracker_room k (sc_tracker sc)"
  unfolding detector_room_def by (metis imageI map_of_SomeD snd_conv)

lemma detector_room_less: "detector_room k ad \<Longrightarrow> j \<le> k \<Longrightarrow> detector_room j ad"
  unfolding detector_room_def by (blast intro: tracker_room_less)

lemma replace_context_room:
  assumes "detector_room k ad" "tracker_room k (sc_tracker sc)"
  shows "detector_room k (replace_context i sc ad)"
  using assms unfolding detector_room_def replace_context_def by (auto split: if_splits)

lemma box_room: "k < 2 ^ 31 - 1 \<Longrightarrow> detector_room k box_detector"
  using box_context_room by (simp add: detector_room_def box_detector_def)

section \<open>Isolation\<close>

text \<open>
  A frame pair on a stream never runs into undefined behaviour, whatever its pixels (given
  networks with moderate coordinates, frames of the announced size, a time below \<open>2 ^ 62\<close> and room in the
  counters of the tracker), and it touches that stream only: the configuration, the set of streams and the context of every other stream are as before.
  A stream that is not set up reports nothing and changes nothing.
\<close>

theorem detect_isolates_streams:
  assumes "nets_ok rt nv nu" "frame_pair visible uv w h" "time_ok pts" "detector_ready rt nv nu ad" "detector_room (nu * nv) ad"
  shows "\<exists>events ad'. detect rt visible uv (int w) (int h) pts i ad = Ret (events, ad') \<and>
     ad_config ad' = ad_config ad \<and> map fst (ad_contexts ad') = map fst (ad_contexts ad) \<and>
     (\<forall>j. j \<noteq> sint i \<longrightarrow> map_of (ad_contexts ad') j = map_of (ad_contexts ad) j) \<and>
     (map_of (ad_contexts ad) (sint i) = None \<longrightarrow> events = [] \<and> ad' = ad)"
proof (cases "map_of (ad_contexts ad) (sint i)")
  case None
  then show ?thesis using assms(4) by (simp add: detect_def get_stream_context_def detector_ready_def)
next
  case (Some sc)
  from detect_on_stream [OF assms(1-4) Some detector_room_stream [OF assms(5) Some]] obtain events sc' where
    "detect rt visible uv (int w) (int h) pts i ad = Ret (events, replace_context (sint i) sc' ad)" by metis
  then show ?thesis using Some replace_context_other by auto
qed

theorem detect_isolates_streams_witness:
  "\<exists>events ad'. detect box_runtime (gray_frame 3) (gray_frame 1) (int 64) (int 48) 1000 0 box_detector = Ret (events, ad') \<and>
     map fst (ad_contexts ad') = [0, 1] \<and> map_of (ad_contexts ad') 1 = Some box_context"
  using detect_isolates_streams [OF box_runtime_ok gray_frame_pair _ box_detector_ready box_room, of 1000 0]
  by (fastforce simp: box_detector_def time_ok_def)

section \<open>What is reported\<close>

lemma annotate_fields [simp]:
  "ev_box (annotate upds ev) = ev_box ev" "ev_confidence (annotate upds ev) = ev_confidence ev"
  "ev_pts_ns (annotate upds ev) = ev_pts_ns ev" "ev_stream_index (annotate upds ev) = ev_stream_index ev"
  "ev_instant_energy (annotate upds ev) = ev_instant_energy ev" "ev_intensity (annotate upds ev) = ev_intensity ev"
  by (simp_all add: annotate_def attach_update_def untracked_def Let_def split: option.split)

lemma untracked_energies: "ev_smoothed_energy (untracked ev) = ev_instant_energy ev" "ev_cumulative_energy (untracked ev) = ev_instant_energy ev"
  by (simp_all add: untracked_def)

lemma event_iou_cong: "ev_box a = ev_box b \<Longrightarrow> event_iou a u = event_iou b u"
  by (simp add: event_iou_def)

text \<open>An event that carries the data of an update that covers it, or none of which any does.\<close>

definition tracked_by :: "track_update list \<Rightarrow> arc_flash_event \<Rightarrow> bool" where
  "tracked_by upds ev \<longleftrightarrow>
     (if \<exists>u \<in> set upds. 1/2 < event_iou ev u
      then 0 < sint (ev_track_id ev) \<and> (\<exists>u \<in> set upds. 1/2 < event_iou ev u \<and> ev = attach_update u ev)
      else ev = untracked ev)"

lemma annotate_tracked_by:
  assumes "\<forall>u \<in> set upds. 0 < sint (up_id u)" "ev_track_id ev = 0"
  shows "tracked_by upds (annotate upds ev)"
proof (cases "find (\<lambda>u. 1/2 < event_iou ev u) upds")
  case None
  then have a: "annotate upds ev = untracked ev" using assms(2) by (simp add: annotate_def)
  have "\<not> (\<exists>u \<in> set upds. 1/2 < event_iou (untracked ev) u)"
    using None event_iou_cong [of "untracked ev" ev] by (auto simp: find_None_iff untracked_def)
  then show ?thesis by (simp add: a tracked_by_def) (simp add: untracked_def)
next
  case (Some u)
  then have u: "u \<in> set upds" "1/2 < event_iou ev u" by (auto simp: find_Some_iff)
  then have "annotate upds ev = attach_update u ev"
    using assms(1) Some by (auto simp: annotate_def attach_update_def)
  moreover have "1/2 < event_iou (attach_update u ev) u"
    using u(2) event_iou_cong [of "attach_update u ev" ev u] by (simp add: attach_update_def)
  ultimately show ?thesis
    using u(1) assms(1) by (auto simp: tracked_by_def) (auto simp: attach_update_def)
qed

text \<open>
  The events of a frame, seen from the outside: in order of confidence, pairwise overlapping no more
  than the threshold, stamped with the frame and its stream, with the exact energy of their box, and made of
  \<open>float\<close> values.
\<close>

definition well_reported :: "rat \<Rightarrow> u8 list \<Rightarrow> int \<Rightarrow> int \<Rightarrow> i64 \<Rightarrow> i32 \<Rightarrow> arc_flash_event list \<Rightarrow> bool" where
  "well_reported thresh uv w h pts i events \<longleftrightarrow>
     sorted_wrt (\<lambda>a b. ev_confidence b \<le> ev_confidence a) events \<and>
     sorted_wrt (\<lambda>a b. \<not> ev_overlap thresh a b) events \<and>
     (\<forall>ev \<in> set events. ev_pts_ns ev = pts \<and> ev_stream_index ev = i \<and>
        ev_instant_energy ev = energy_spec (ev_box ev) uv w h 1 \<and> coords_ok (3 * 2 ^ 29) (ev_box ev) \<and> float_box (ev_box ev) \<and>
        rnd32 (ev_confidence ev) = ev_confidence ev \<and> rnd32 (ev_intensity ev) = ev_intensity ev)"

lemma well_reported_annotate [simp]:
  "well_reported thresh uv w h pts i (map (annotate upds) evs) = well_reported thresh uv w h pts i evs"
  by (simp add: well_reported_def sorted_wrt_map ev_overlap_def)

lemma well_reported_nms:
  assumes "list_all (raw_event pts i) raw" "std_sort srt ev_confidence"
  shows "well_reported thresh uv w h pts i
    (map (\<lambda>ev. ev\<lparr>ev_instant_energy := energy_spec (ev_box ev) uv w h 1\<rparr>) (nms_events srt raw thresh))"
proof -
  have "sorted_wrt (\<lambda>a b. ev_confidence b \<le> ev_confidence a) (nms_events srt raw thresh)"
    "sorted_wrt (\<lambda>a b. \<not> ev_overlap thresh a b) (nms_events srt raw thresh)"
    using std_sort.nms_selects(2,3) [OF assms(2)] by (simp_all add: nms_events_def nms_suppress_spec)
  moreover have "\<forall>ev \<in> set (nms_events srt raw thresh). raw_event pts i ev"
    using assms(1) nms_events_subset [OF assms(2)] by (auto simp: list_all_iff)
  ultimately show ?thesis by (simp add: well_reported_def sorted_wrt_map ev_overlap_def raw_event_def)
qed

text \<open>What a frame did to the tracker, and how the events are attached to it.\<close>

definition tracked_frame :: "i64 \<Rightarrow> tracker \<Rightarrow> arc_flash_event list \<Rightarrow> tracker \<Rightarrow> bool" where
  "tracked_frame pts lt events lt' \<longleftrightarrow>
     (\<exists>lt1 upds. lt_update pts (map ev_box events) (map ev_instant_energy events) lt = Ret (lt1, upds) \<and>
        lt_expire pts lt1 = Ret lt' \<and> list_all (tracked_by upds) events)"

lemma frame_events_well_reported:
  assumes "frame_events rt cfg uv w h pts i sc events sc'" "std_sort (rt_sort_event rt) ev_confidence"
  shows "well_reported (ac_nms_thresh cfg) uv w h pts i events"
  using assms(1) unfolding frame_events_def
proof (elim disjE exE conjE)
  fix raw filtered upds
  assume "list_all (raw_event pts i) raw" "events = map (annotate upds) filtered"
    "filtered = map (\<lambda>ev. ev\<lparr>ev_instant_energy := energy_spec (ev_box ev) uv w h 1\<rparr>)
      (nms_events (rt_sort_event rt) raw (ac_nms_thresh cfg))"
  then show ?thesis using well_reported_nms [OF _ assms(2)] by (simp only: well_reported_annotate)
qed (simp add: well_reported_def)

lemma frame_events_tracked:
  assumes "frame_events rt cfg uv w h pts i sc events sc'" "std_sort (rt_sort_event rt) ev_confidence"
    "tracker_inv (sc_tracker sc)" "image_in uv w h 1"
  shows "tracked_frame pts (sc_tracker sc) events (sc_tracker sc')"
  using assms(1) unfolding frame_events_def
proof (elim disjE exE conjE)
  fix raw filtered lt1 upds
  assume raw: "list_all (raw_event pts i) raw"
    and f: "filtered = map (\<lambda>ev. ev\<lparr>ev_instant_energy := energy_spec (ev_box ev) uv w h 1\<rparr>)
      (nms_events (rt_sort_event rt) raw (ac_nms_thresh cfg))"
    and u: "lt_update pts (map ev_box filtered) (map ev_instant_energy filtered) (sc_tracker sc) = Ret (lt1, upds)"
    and e: "events = map (annotate upds) filtered" "lt_expire pts lt1 = Ret (sc_tracker sc')"
  have "\<forall>ev \<in> set filtered. ev_track_id ev = 0"
    using raw nms_events_subset [OF assms(2)] by (fastforce simp: f list_all_iff raw_event_def)
  moreover have "list_all (\<lambda>e. energy_ok e \<and> e \<le> 2 ^ 31) (map ev_instant_energy filtered)"
    unfolding f by (rule energies_ok [OF assms(4)])
  then have "list_all energy_ok (map ev_instant_energy filtered)" by (simp add: list_all_iff)
  then have "\<forall>v \<in> set upds. 0 < sint (up_id v)"
    using update_id_positive [OF u assms(3)] by blast
  ultimately have "list_all (tracked_by upds) events"
    by (simp add: e(1) list_all_iff annotate_tracked_by)
  moreover have "map ev_box events = map ev_box filtered" "map ev_instant_energy events = map ev_instant_energy filtered"
    by (simp_all add: e(1))
  ultimately show ?thesis using u e(2) by (auto simp: tracked_frame_def)
qed (simp add: tracked_frame_def lt_update_none)

text \<open>The energies of the events, however they are attached, fit in a \<open>double\<close>.\<close>

definition sized_event :: "arc_flash_event \<Rightarrow> bool" where
  "sized_event ev \<longleftrightarrow> sized_energy (ev_instant_energy ev) \<and> sized_energy (ev_smoothed_energy ev) \<and>
     sized_energy (ev_cumulative_energy ev)"

lemma tracked_by_sized:
  assumes "tracked_by upds ev" "sized_energy (ev_instant_energy ev)"
    "\<And>u. u \<in> set upds \<Longrightarrow> sized_energy (up_smoothed u) \<and> sized_energy (up_cumulative u)"
  shows "sized_event ev"
proof (cases "\<exists>u \<in> set upds. 1/2 < event_iou ev u")
  case True
  then obtain u where u: "u \<in> set upds" "ev = attach_update u ev" using assms(1) by (auto simp: tracked_by_def)
  have "ev_smoothed_energy ev = up_smoothed u" "ev_cumulative_energy ev = up_cumulative u"
    by (subst u(2), simp add: attach_update_def)+
  then show ?thesis using u(1) assms(2,3) by (simp add: sized_event_def)
next
  case False
  then have "ev = untracked ev" using assms(1) by (auto simp: tracked_by_def)
  then have "ev_smoothed_energy ev = ev_instant_energy ev" "ev_cumulative_energy ev = ev_instant_energy ev"
    by (metis (no_types) untracked_energies)+
  then show ?thesis using assms(2) by (simp add: sized_event_def)
qed

lemma frame_events_sized:
  assumes "tracked_frame pts lt events lt'" "well_reported thresh uv w h pts i events" "image_in uv w h 1"
    "tracker_inv lt" "list_all track_bounded (lt_active lt)" "time_ok pts"
  shows "list_all sized_event events"
proof -
  obtain lt1 upds where u: "lt_update pts (map ev_box events) (map ev_instant_energy events) lt = Ret (lt1, upds)"
    "list_all (tracked_by upds) events"
    using assms(1) by (auto simp: tracked_frame_def)
  have "map ev_instant_energy events = map ev_instant_energy
      (map (\<lambda>ev. ev\<lparr>ev_instant_energy := energy_spec (ev_box ev) uv w h 1\<rparr>) events)"
    using assms(2) by (simp add: well_reported_def)
  then have en: "list_all (\<lambda>e. energy_ok e \<and> e \<le> 2 ^ 31) (map ev_instant_energy events)"
    by (rule ssubst [where P = "list_all (\<lambda>e. energy_ok e \<and> e \<le> 2 ^ 31)"]) (rule energies_ok [OF assms(3)])
  have inv: "tracker_inv lt1" using lt_update_inv [OF u(1) assms(4)] en by (simp add: list_all_iff)
  note s = update_energies_sized [OF u(1) inv lt_update_bounded [OF u(1) assms(4,5) en assms(6)]]
  have "sized_energy e" if "energy_ok e \<and> e \<le> 2 ^ 31" for e
    using that less_pow_1024 [of e 31] by (simp add: sized_energy_def energy_ok_def)
  then have "\<forall>ev \<in> set events. sized_energy (ev_instant_energy ev)"
    using en by (auto simp: list_all_iff)
  then show ?thesis using u(2) s tracked_by_sized unfolding list_all_iff by metis
qed

lemma detect_well_reported:
  assumes "nets_ok rt nv nu" "frame_pair visible uv w h" "time_ok pts" "detector_ready rt nv nu ad" "detector_room (nu * nv) ad"
  obtains events ad' where "detect rt visible uv (int w) (int h) pts i ad = Ret (events, ad')" "length events \<le> nu * nv"
    "well_reported (ac_nms_thresh (ad_config ad)) uv (int w) (int h) pts i events" "list_all sized_event events"
proof (cases "map_of (ad_contexts ad) (sint i)")
  case None
  then show ?thesis
    using that [of "[]" ad] assms(4)
    by (simp add: detect_def get_stream_context_def detector_ready_def well_reported_def)
next
  case (Some sc)
  from detect_on_stream [OF assms(1-4) Some detector_room_stream [OF assms(5) Some]] obtain events sc' where
    r: "detect rt visible uv (int w) (int h) pts i ad = Ret (events, replace_context (sint i) sc' ad)"
    "frame_events rt (ad_config ad) uv (int w) (int h) pts i sc events sc'" "length events \<le> nu * nv" by metis
  have srt: "std_sort (rt_sort_event rt) ev_confidence" using assms(1) by (simp add: nets_ok_def runtime_ok_def)
  have im: "image_in uv (int w) (int h) 1" using assms(2) by (simp add: frame_pair_def)
  have sc: "tracker_inv (sc_tracker sc)" "list_all track_bounded (lt_active (sc_tracker sc))"
    using detector_ready_stream(2) [OF assms(4) Some] by (simp_all add: context_ready_def)
  note w = frame_events_well_reported [OF r(2) srt]
  show ?thesis
    using that r(1,3) w frame_events_sized [OF frame_events_tracked [OF r(2) srt sc(1) im] w im sc assms(3)] by blast
qed

text \<open>
  C17. What a frame reports: the events come in decreasing confidence, overlap pairwise no more than
  the suppression threshold, carry the time and the stream of the frame, and their energy is the
  exact specification of the energy of their box on the ultraviolet frame.
\<close>

theorem detect_reports_events:
  assumes "nets_ok rt nv nu" "frame_pair visible uv w h" "time_ok pts" "detector_ready rt nv nu ad" "detector_room (nu * nv) ad"
  shows "\<exists>events ad'. detect rt visible uv (int w) (int h) pts i ad = Ret (events, ad') \<and> length events \<le> nu * nv \<and>
     sorted_wrt (\<lambda>a b. ev_confidence b \<le> ev_confidence a) events \<and>
     sorted_wrt (\<lambda>a b. \<not> ev_overlap (ac_nms_thresh (ad_config ad)) a b) events \<and>
     (\<forall>ev \<in> set events. ev_pts_ns ev = pts \<and> ev_stream_index ev = i \<and>
        ev_instant_energy ev = energy_spec (ev_box ev) uv (int w) (int h) 1)"
  by (rule detect_well_reported [OF assms, of i]) (auto simp: well_reported_def)

theorem detect_reports_events_witness:
  "\<exists>ev ad'. detect box_runtime (gray_frame 3) (gray_frame 1) (int 64) (int 48) 1000 1 box_detector = Ret ([ev], ad') \<and>
     ev_pts_ns ev = 1000 \<and> ev_stream_index ev = 1 \<and> ev_instant_energy ev = energy_spec (ev_box ev) (gray_frame 1) 64 48 1"
proof -
  have t: "time_ok 1000" by (simp add: time_ok_def)
  obtain ev ad' where "detect box_runtime (gray_frame 3) (gray_frame 1) (int 64) (int 48) 1000 1 box_detector = Ret ([ev], ad')"
    by (rule box_detects [of 1 1000]) (simp_all add: t)
  then show ?thesis
    using detect_reports_events [OF box_runtime_ok gray_frame_pair t box_detector_ready box_room, of 1] by auto
qed

text \<open>
  C9. The tracker of the stream sees exactly what is reported: its state after the frame is the
  update with the reported boxes and energies followed by the expiry. An event overlapped by more than one
  half by some update carries that update's track, energies, severity and age; any other event has
  no track, and carries one frame, no duration and the lowest severity.
\<close>

theorem detect_tracks_events:
  assumes "nets_ok rt nv nu" "frame_pair visible uv w h" "time_ok pts" "detector_ready rt nv nu ad"
    "map_of (ad_contexts ad) (sint i) = Some sc" "tracker_room (nu * nv) (sc_tracker sc)"
  shows "\<exists>events ad' sc' lt1 upds. detect rt visible uv (int w) (int h) pts i ad = Ret (events, ad') \<and>
     map_of (ad_contexts ad') (sint i) = Some sc' \<and>
     lt_update pts (map ev_box events) (map ev_instant_energy events) (sc_tracker sc) = Ret (lt1, upds) \<and>
     lt_expire pts lt1 = Ret (sc_tracker sc') \<and>
     (\<forall>ev \<in> set events.
        if \<exists>u \<in> set upds. 1/2 < event_iou ev u
        then 0 < sint (ev_track_id ev) \<and> (\<exists>u \<in> set upds. 1/2 < event_iou ev u \<and> ev = attach_update u ev)
        else ev = untracked ev)"
proof -
  from detect_on_stream [OF assms] obtain events sc' where
    r: "detect rt visible uv (int w) (int h) pts i ad = Ret (events, replace_context (sint i) sc' ad)"
    "frame_events rt (ad_config ad) uv (int w) (int h) pts i sc events sc'" by metis
  have "tracker_inv (sc_tracker sc)"
    using detector_ready_stream(2) [OF assms(4,5)] by (simp add: context_ready_def)
  moreover have "std_sort (rt_sort_event rt) ev_confidence" using assms(1) by (simp add: nets_ok_def runtime_ok_def)
  moreover have "image_in uv (int w) (int h) 1" using assms(2) by (simp add: frame_pair_def)
  ultimately have "tracked_frame pts (sc_tracker sc) events (sc_tracker sc')"
    using frame_events_tracked [OF r(2)] by blast
  then show ?thesis
    using r(1) replace_context_same [OF assms(5)] unfolding tracked_frame_def list_all_iff tracked_by_def by blast
qed

theorem detect_tracks_events_witness:
  "\<exists>ev ad' sc' lt1 upds. detect box_runtime (gray_frame 3) (gray_frame 1) (int 64) (int 48) 1000 0 box_detector = Ret ([ev], ad') \<and>
     map_of (ad_contexts ad') 0 = Some sc' \<and>
     lt_update 1000 [ev_box ev] [ev_instant_energy ev] (sc_tracker box_context) = Ret (lt1, upds) \<and>
     lt_expire 1000 lt1 = Ret (sc_tracker sc')"
proof -
  have t: "time_ok 1000" by (simp add: time_ok_def)
  have m: "map_of (ad_contexts box_detector) (sint (0 :: i32)) = Some box_context" by (simp add: box_detector_def)
  have room: "tracker_room (1 * 1) (sc_tracker box_context)" by (rule box_context_room) simp
  obtain ev ad' where
    "detect box_runtime (gray_frame 3) (gray_frame 1) (int 64) (int 48) 1000 0 box_detector = Ret ([ev], ad')"
    by (rule box_detects [of 0 1000]) (simp_all add: t)
  then show ?thesis
    using detect_tracks_events [OF box_runtime_ok gray_frame_pair t box_detector_ready m room] by fastforce
qed

section \<open>Histories\<close>

type_synonym frame_in = "u8 list \<times> u8 list \<times> nat \<times> nat \<times> i64 \<times> i32"

definition detect_next :: "runtime \<Rightarrow> frame_in \<Rightarrow> arc_flash_event list list \<times> arc_detector \<Rightarrow>
    (arc_flash_event list list \<times> arc_detector) exec" where
  "detect_next rt f s = (case f of (visible, uv, w, h, pts, i) \<Rightarrow>
     exec_bind (detect rt visible uv (int w) (int h) pts i (snd s)) (\<lambda>(events, ad). Ret (fst s @ [events], ad)))"

definition frame_in_ok :: "frame_in \<Rightarrow> bool" where
  "frame_in_ok f = (case f of (visible, uv, w, h, pts, i) \<Rightarrow> frame_pair visible uv w h \<and> time_ok pts)"

lemma detect_ready_frame:
  assumes "nets_ok rt nv nu" "frame_pair visible uv w h" "time_ok pts" "detector_ready rt nv nu ad" "detector_room (nu * nv + k) ad"
  obtains events ad' where "detect rt visible uv (int w) (int h) pts i ad = Ret (events, ad')" "length events \<le> nu * nv"
    "detector_ready rt nv nu ad'" "detector_room k ad'" "map fst (ad_contexts ad') = map fst (ad_contexts ad)"
proof (cases "map_of (ad_contexts ad) (sint i)")
  case None
  then show ?thesis
    using that [of "[]" ad] assms(4) detector_room_less [OF assms(5), of k]
    by (simp add: detect_def get_stream_context_def detector_ready_def)
next
  case (Some sc)
  note room = detector_room_stream [OF assms(5) Some]
  have "tracker_room (nu * nv) (sc_tracker sc)" by (rule tracker_room_less [OF room]) simp
  from detect_on_stream [OF assms(1-4) Some this] obtain events sc' where
    r: "detect rt visible uv (int w) (int h) pts i ad = Ret (events, replace_context (sint i) sc' ad)"
    "frame_events rt (ad_config ad) uv (int w) (int h) pts i sc events sc'" "sc_initialized sc'" "length events \<le> nu * nv"
    "context_ready rt (ad_config ad) nv nu sc'" by metis
  have inv: "tracker_inv (sc_tracker sc)" "list_all track_bounded (lt_active (sc_tracker sc))"
    using detector_ready_stream(2) [OF assms(4) Some] by (simp_all add: context_ready_def)
  have im: "image_in uv (int w) (int h) 1" using assms(2) by (simp add: frame_pair_def)
  have "tracker_room (length events + k) (sc_tracker sc)" using r(4) by (intro tracker_room_less [OF room]) simp
  then have "tracker_room k (sc_tracker sc')" by (rule frame_events_tracker(3) [OF r(2) im inv assms(3)])
  then have "detector_room k (replace_context (sint i) sc' ad)"
    using detector_room_less [OF assms(5), of k] by (intro replace_context_room) simp_all
  then show ?thesis using that r(1,4) replace_context_ready [OF assms(4) r(3,5)] by simp
qed

lemma detect_history:
  assumes "nets_ok rt nv nu" "list_all frame_in_ok frames" "detector_ready rt nv nu ad"
    "detector_room (length frames * (nu * nv)) ad"
  shows "\<exists>reports ad'. exec_fold (detect_next rt) frames (outs, ad) = Ret (outs @ reports, ad') \<and>
    length reports = length frames \<and> detector_ready rt nv nu ad' \<and>
    map fst (ad_contexts ad') = map fst (ad_contexts ad)"
  using assms(2-4)
proof (induction frames arbitrary: outs ad)
  case (Cons f frames)
  have room: "detector_room (nu * nv + length frames * (nu * nv)) ad" using Cons.prems(3) by simp
  obtain visible uv w h pts i where f: "f = (visible, uv, w, h, pts, i)" by (metis prod.exhaust)
  have "frame_pair visible uv w h" "time_ok pts" using Cons.prems(1) by (simp_all add: frame_in_ok_def f)
  from detect_ready_frame [OF assms(1) this Cons.prems(2) room] obtain events ad1 where
    d: "detect rt visible uv (int w) (int h) pts i ad = Ret (events, ad1)" and s: "detector_ready rt nv nu ad1"
    "detector_room (length frames * (nu * nv)) ad1" "map fst (ad_contexts ad1) = map fst (ad_contexts ad)" by metis
  have n: "detect_next rt f (outs, ad) = Ret (outs @ [events], ad1)" using d by (simp add: detect_next_def f)
  from Cons.IH [OF _ s(1,2), of "outs @ [events]"] Cons.prems(1) obtain reports ad' where
    "exec_fold (detect_next rt) frames (outs @ [events], ad1) = Ret ((outs @ [events]) @ reports, ad')" "length reports = length frames"
    "detector_ready rt nv nu ad'" "map fst (ad_contexts ad') = map fst (ad_contexts ad)" using s(3) by auto
  then show ?case using n by (intro exI [of _ "events # reports"] exI [of _ ad']) simp
qed simp

text \<open>
  C4. Any history: a detector whose streams are ready processes any sequence of well-formed frame
  pairs over all its streams without undefined behaviour, one report per frame, and is ready
  again. The times may come in any order but lie below \<open>2 ^ 62\<close> in magnitude, since the code subtracts them as
  signed numbers, and the 32-bit counters of every stream (the next track id and the frames of every track) must have
  room for the detections: each frame takes at most as many as the boxes of the two networks multiply to.
\<close>

theorem detect_runs_forever:
  assumes "nets_ok rt nv nu" "detector_ready rt nv nu ad" "list_all frame_in_ok frames"
    "\<forall>sc \<in> snd ` set (ad_contexts ad). tracker_room (length frames * (nu * nv)) (sc_tracker sc)"
  shows "\<exists>reports ad'. exec_fold (detect_next rt) frames ([], ad) = Ret (reports, ad') \<and>
     length reports = length frames \<and> detector_ready rt nv nu ad' \<and>
     map fst (ad_contexts ad') = map fst (ad_contexts ad)"
  using detect_history [OF assms(1,3,2), of "[]"] assms(4) by (simp add: detector_room_def)

text \<open>A million frames on two streams.\<close>

theorem detect_runs_forever_witness:
  "\<exists>reports ad'. exec_fold (detect_next box_runtime) (replicate 1000000 (gray_frame 3, gray_frame 1, 64, 48, 1000, 1)) ([], box_detector)
      = Ret (reports, ad') \<and> length reports = 1000000 \<and> detector_ready box_runtime 1 1 ad'"
proof -
  have "\<forall>sc \<in> snd ` set (ad_contexts box_detector).
      tracker_room (length (replicate 1000000 (gray_frame 3, gray_frame 1, 64, 48, 1000, 1 :: i32)) * (1 * 1)) (sc_tracker sc)"
    by (simp add: box_detector_def box_context_room)
  moreover have "list_all frame_in_ok (replicate 1000000 (gray_frame 3, gray_frame 1, 64, 48, 1000, 1))"
    using gray_frame_pair by (simp add: list_all_iff frame_in_ok_def time_ok_def)
  ultimately show ?thesis
    using detect_runs_forever [OF box_runtime_ok box_detector_ready,
        of "replicate 1000000 (gray_frame 3, gray_frame 1, 64, 48, 1000, 1)"] by fastforce
qed

end
