(* ===== verification/Engine_Main.thy ===== *)
theory Engine_Main
  imports Detect_History Frame_Queue
begin

text \<open>
  The engine of \<open>engine_main.cpp\<close>: its globals, setting it up and shutting it down, one frame pair
  from the detector to the publisher, and the loop that a stream's thread runs on its two queues.

  The globals are the record \<open>engine\<close>. A queue pointer is an address (0 is null) into the queues
  that the processes share; an address without a queue is dangling. The ZeroMQ library, the engine
  files and the kernels are arguments, as in the theories of the components.
\<close>

section \<open>Globals\<close>

record stream_queues =
  sq_visible :: u64
  sq_uv :: u64

record engine =
  en_running :: bool
  en_detector :: "arc_detector option"
  en_publisher :: "zmq_publisher option"
  en_num_streams :: i32
  en_queues :: "int \<rightharpoonup> stream_queues"

definition engine_new :: engine where
  "engine_new = \<lparr>en_running = True, en_detector = None, en_publisher = None, en_num_streams = 0, en_queues = Map.empty\<rparr>"

section \<open>Setting up\<close>

definition engine_config ::
    "string option \<Rightarrow> string option \<Rightarrow> int \<Rightarrow> rat \<Rightarrow> rat \<Rightarrow> rat \<Rightarrow> arc_detector_config" where
  "engine_config visible_path uv_path device visible_thresh uv_thresh nms_thresh =
     \<lparr>ac_visible_engine_path = (case visible_path of Some p \<Rightarrow> p | None \<Rightarrow> []),
      ac_uv_engine_path = (case uv_path of Some p \<Rightarrow> p | None \<Rightarrow> []),
      ac_tensorrt_device = device, ac_visible_score_thresh = visible_thresh, ac_uv_score_thresh = uv_thresh,
      ac_nms_thresh = nms_thresh, ac_uv_gain = 3, ac_uv_blend_weight = rnd32 (6/10), ac_roi_padding = 20,
      ac_model_input_h = 640, ac_model_input_w = 640, ac_context_pool_size = 1,
      ac_severity_thresholds = default_thresholds\<rparr>"

text \<open>The loop that sets up the streams; it stops at the first that fails.\<close>

fun init_streams :: "runtime \<Rightarrow> int list \<Rightarrow> arc_detector \<Rightarrow> gpu_env \<Rightarrow> (bool \<times> arc_detector \<times> gpu_env) exec" where
  "init_streams rt [] ad env = Ret (True, ad, env)"
| "init_streams rt (i # is) ad env =
     exec_bind (init_stream rt i ad env) (\<lambda>(ok, ad1, env1).
       if ok then init_streams rt is ad1 env1 else Ret (False, ad1, env1))"

text \<open>
  \<open>accepts\<close> says which endpoints \<open>zmq_bind\<close> takes. Deleting the detector runs its \<open>shutdown\<close>, and deleting
  the publisher its \<open>close\<close>.
\<close>

definition default_endpoint :: string where
  "default_endpoint = ''ipc:///tmp/arcvision_results''"

definition engine_init ::
    "runtime \<Rightarrow> (string \<Rightarrow> bool) \<Rightarrow> string option \<Rightarrow> string option \<Rightarrow> int \<Rightarrow> rat \<Rightarrow> rat \<Rightarrow> rat \<Rightarrow> string option \<Rightarrow> i32 \<Rightarrow>
     engine \<Rightarrow> gpu_env \<Rightarrow> (int \<times> engine \<times> gpu_env) exec" where
  "engine_init rt accepts visible_path uv_path device visible_thresh uv_thresh nms_thresh zmq_endpoint num_streams en env =
     (case ad_init (ad_new (engine_config visible_path uv_path device visible_thresh uv_thresh nms_thresh)) of
        (False, ad) \<Rightarrow> Ret (- 1, en\<lparr>en_detector := None\<rparr>, snd (ad_shutdown ad env))
      | (True, ad) \<Rightarrow>
          let n = (if 0 < sint num_streams then num_streams else 4) in
          exec_bind (init_streams rt [0..sint n - 1] ad env) (\<lambda>(ok, ad1, env1).
            if \<not> ok then Ret (- 1, en\<lparr>en_detector := None, en_num_streams := n\<rparr>, snd (ad_shutdown ad1 env1))
            else let endpoint = (case zmq_endpoint of Some e \<Rightarrow> e | None \<Rightarrow> default_endpoint) in
              case zp_bind accepts endpoint zp_new env1 of
                (False, zp, env2) \<Rightarrow>
                  Ret (- 2, en\<lparr>en_detector := None, en_publisher := None, en_num_streams := n\<rparr>,
                    snd (zp_close zp (snd (ad_shutdown ad1 env2))))
              | (True, zp, env2) \<Rightarrow>
                  Ret (0, en\<lparr>en_detector := Some ad1, en_publisher := Some zp, en_num_streams := n\<rparr>, env2)))"

definition engine_set_stream_queues :: "int \<Rightarrow> u64 \<Rightarrow> u64 \<Rightarrow> engine \<Rightarrow> engine" where
  "engine_set_stream_queues stream_index visible_queue uv_queue en =
     en\<lparr>en_queues := (en_queues en)(stream_index \<mapsto> \<lparr>sq_visible = visible_queue, sq_uv = uv_queue\<rparr>)\<rparr>"

text \<open>The explicit \<open>shutdown\<close> and \<open>close\<close>, each followed by the one of the destructor.\<close>

definition engine_shutdown :: "engine \<Rightarrow> gpu_env \<Rightarrow> engine \<times> gpu_env" where
  "engine_shutdown en env =
     (let env1 = (case en_detector en of
            Some ad \<Rightarrow> (case ad_shutdown ad env of (ad1, e1) \<Rightarrow> snd (ad_shutdown ad1 e1))
          | None \<Rightarrow> env);
          env2 = (case en_publisher en of
            Some zp \<Rightarrow> (case zp_close zp env1 of (zp1, e2) \<Rightarrow> snd (zp_close zp1 e2))
          | None \<Rightarrow> env1)
      in (en\<lparr>en_running := False, en_detector := None, en_publisher := None, en_queues := Map.empty\<rparr>, env2))"

section \<open>A frame pair\<close>

definition event_msg :: "arc_flash_event \<Rightarrow> arc_result_msg" where
  "event_msg ev =
     \<lparr>m_x1 = word_of_int (f32_bits (rx1 (ev_box ev))), m_y1 = word_of_int (f32_bits (ry1 (ev_box ev))),
      m_x2 = word_of_int (f32_bits (rx2 (ev_box ev))), m_y2 = word_of_int (f32_bits (ry2 (ev_box ev))),
      m_confidence = word_of_int (f32_bits (ev_confidence ev)), m_class_id = 1, m_pts_ns = ev_pts_ns ev,
      m_stream_index = ev_stream_index ev, m_intensity = word_of_int (f64_bits (ev_intensity ev)),
      m_instant_energy = word_of_int (f64_bits (ev_instant_energy ev)),
      m_smoothed_energy = word_of_int (f64_bits (ev_smoothed_energy ev)),
      m_cumulative_energy = word_of_int (f64_bits (ev_cumulative_energy ev)),
      m_severity_level = word_of_int (severity_code (ev_severity ev)), m_track_id = ev_track_id ev,
      m_track_frame_count = ev_track_frame_count ev, m_track_duration_ns = ev_track_duration_ns ev\<rparr>"

text \<open>
  \<open>process_frame\<close> up to the publication: the number of events, the engine, and the array of messages
  if there is one to publish. \<open>pad k\<close> are the bytes that happen to be in the padding of the \<open>k\<close>-th message.
\<close>

definition engine_detect_frame ::
    "runtime \<Rightarrow> (nat \<Rightarrow> u8 list) \<Rightarrow> i32 \<Rightarrow> u8 list \<Rightarrow> u8 list \<Rightarrow> int \<Rightarrow> int \<Rightarrow> i64 \<Rightarrow> engine \<Rightarrow>
     (int \<times> engine \<times> u8 list option) exec" where
  "engine_detect_frame rt pad stream_index visible uv width height pts_ns en =
     (case en_detector en of
        None \<Rightarrow> Ret (- 1, en, None)
      | Some ad \<Rightarrow>
          exec_bind (detect rt visible uv width height pts_ns stream_index ad) (\<lambda>(events, ad1).
            Ret (int (length events), en\<lparr>en_detector := Some ad1\<rparr>,
              if events \<noteq> [] \<and> en_publisher en \<noteq> None
              then Some (array_bytes (map pad [0..<length events]) (map event_msg events)) else None)))"

text \<open>
  All of \<open>process_frame\<close>: the number of events, the engine afterwards, and the return code of the
  publication if there was one (the code logs it).
\<close>

definition engine_process_frame ::
    "runtime \<Rightarrow> zmq_send \<Rightarrow> (nat \<Rightarrow> u8 list) \<Rightarrow> i32 \<Rightarrow> u8 list \<Rightarrow> u8 list \<Rightarrow> int \<Rightarrow> int \<Rightarrow> i64 \<Rightarrow> engine \<Rightarrow>
     (int \<times> engine \<times> int option) exec" where
  "engine_process_frame rt send pad stream_index visible uv width height pts_ns en =
     exec_bind (engine_detect_frame rt pad stream_index visible uv width height pts_ns en) (\<lambda>(n, en1, msgs).
       case (msgs, en_publisher en1) of
         (Some results, Some zp) \<Rightarrow>
           exec_bind (publish_nonblock send (Some results) n zp) (\<lambda>rc. Ret (n, en1, Some rc))
       | _ \<Rightarrow> Ret (n, en1, None))"

section \<open>The loop of a stream\<close>

text \<open>What the thread works on: the engine, the shared queues, and its two headers and buffers.\<close>

record loop_state =
  ls_engine :: engine
  ls_mem :: "u64 \<rightharpoonup> shm_queue"
  ls_vis_header :: frame_header
  ls_uv_header :: frame_header
  ls_vis_data :: "u8 list"
  ls_uv_data :: "u8 list"

text \<open>
  How an iteration ends: at the first pop, at the second, at the comparison of the times, or with the
  frame processed: the number of events, and what is known of their publication.
\<close>

datatype 'p iteration = No_Visible | No_Uv | Out_Of_Sync | Processed int 'p

text \<open>A pop through a pointer.\<close>

definition pop_at ::
    "(u64 \<rightharpoonup> shm_queue) \<Rightarrow> u64 \<Rightarrow> frame_header \<Rightarrow> u8 list \<Rightarrow> (int \<times> (u64 \<rightharpoonup> shm_queue) \<times> frame_header \<times> u8 list) exec" where
  "pop_at mem p header data =
     (if p = 0 then exec_bind (shm_queue_pop None (Some header) (Some data)) (\<lambda>(rc, _). Ret (rc, mem, header, data))
      else case mem p of
             None \<Rightarrow> UB
           | Some q \<Rightarrow> exec_bind (shm_queue_pop (Some q) (Some header) (Some data)) (\<lambda>(rc, q1, h1, d1).
               Ret (rc, mem(p := q1), the h1, the d1)))"

text \<open>The difference of the two times, and its absolute value: overflow of \<open>int64_t\<close> is undefined.\<close>

definition pts_distance :: "i64 \<Rightarrow> i64 \<Rightarrow> int exec" where
  "pts_distance a b = exec_bind (ci64 (sint a - sint b)) (\<lambda>d. if d < 0 then ci64 (- d) else Ret d)"

definition image_size :: "frame_header \<Rightarrow> u64" where
  "image_size h = scast (fh_width h) * scast (fh_height h) * scast (fh_channels h)"

text \<open>The copy to the device: \<open>n\<close> bytes from a buffer, which must hold them.\<close>

definition upload :: "u8 list \<Rightarrow> u64 \<Rightarrow> u8 list exec" where
  "upload data n = memcpy (replicate (unat n) 0) data (unat n)"

text \<open>One iteration; \<open>process\<close> is what is done with a frame pair, its time and the engine.\<close>

definition frame_iteration ::
    "(u8 list \<Rightarrow> u8 list \<Rightarrow> int \<Rightarrow> int \<Rightarrow> i64 \<Rightarrow> engine \<Rightarrow> (int \<times> engine \<times> 'p) exec) \<Rightarrow> stream_queues \<Rightarrow> i64 \<Rightarrow>
     loop_state \<Rightarrow> ('p iteration \<times> loop_state) exec" where
  "frame_iteration process queues sync_tolerance_ns s =
     exec_bind (pop_at (ls_mem s) (sq_visible queues) (ls_vis_header s) (ls_vis_data s)) (\<lambda>(rc_vis, mem1, vh, vd).
     let s1 = s\<lparr>ls_mem := mem1, ls_vis_header := vh, ls_vis_data := vd\<rparr> in
     if rc_vis \<noteq> 0 then Ret (No_Visible, s1)
     else exec_bind (pop_at mem1 (sq_uv queues) (ls_uv_header s) (ls_uv_data s)) (\<lambda>(rc_uv, mem2, uh, ud).
     let s2 = s1\<lparr>ls_mem := mem2, ls_uv_header := uh, ls_uv_data := ud\<rparr> in
     if rc_uv \<noteq> 0 then Ret (No_Uv, s2)
     else exec_bind (pts_distance (fh_pts_ns vh) (fh_pts_ns uh)) (\<lambda>pts_diff.
     if sint sync_tolerance_ns < pts_diff then Ret (Out_Of_Sync, s2)
     else exec_bind (upload vd (image_size vh)) (\<lambda>vis_gpu.
     exec_bind (upload ud (image_size uh)) (\<lambda>uv_gpu.
     exec_bind (process vis_gpu uv_gpu (sint (fh_width vh)) (sint (fh_height vh)) (fh_pts_ns vh) (ls_engine s))
       (\<lambda>(n, en, p). Ret (Processed n p, s2\<lparr>ls_engine := en\<rparr>)))))))"

definition detect_iteration ::
    "runtime \<Rightarrow> zmq_send \<Rightarrow> (nat \<Rightarrow> u8 list) \<Rightarrow> stream_queues \<Rightarrow> i64 \<Rightarrow> i32 \<Rightarrow> loop_state \<Rightarrow>
     (int option iteration \<times> loop_state) exec" where
  "detect_iteration rt send pad queues sync_tolerance_ns stream_index =
     frame_iteration (engine_process_frame rt send pad stream_index) queues sync_tolerance_ns"

text \<open>
  The thread: it looks its queues up once, then iterates while the engine runs. Between two
  iterations other threads act on the queues and on \<open>g_running\<close>; \<open>others k\<close> is what they do before
  the \<open>k\<close>-th iteration. The loop returns when it finds the engine stopped; \<open>fuel\<close> bounds the iterations
  and \<open>None\<close> is a loop that still runs. \<open>new_bytes\<close> is the content of fresh memory.
\<close>

fun detect_loop ::
    "nat \<Rightarrow> nat \<Rightarrow> (nat \<Rightarrow> loop_state \<Rightarrow> loop_state) \<Rightarrow> (loop_state \<Rightarrow> ('p iteration \<times> loop_state) exec) \<Rightarrow>
     'p iteration list \<Rightarrow> loop_state \<Rightarrow> ('p iteration list \<times> loop_state) exec option" where
  "detect_loop 0 k others body trace s = None"
| "detect_loop (Suc fuel) k others body trace s =
     (let s1 = others k s in
      if \<not> en_running (ls_engine s1) then Some (Ret (trace, s1))
      else case body s1 of
             UB \<Rightarrow> Some UB
           | Ret (it, s2) \<Rightarrow> detect_loop fuel (Suc k) others body (trace @ [it]) s2)"

definition stream_detect_loop ::
    "runtime \<Rightarrow> zmq_send \<Rightarrow> (nat \<Rightarrow> u8 list) \<Rightarrow> (nat \<Rightarrow> u8 list) \<Rightarrow> nat \<Rightarrow> (nat \<Rightarrow> loop_state \<Rightarrow> loop_state) \<Rightarrow>
     i32 \<Rightarrow> i64 \<Rightarrow> loop_state \<Rightarrow> (int option iteration list \<times> loop_state) exec option" where
  "stream_detect_loop rt send pad new_bytes fuel others stream_index sync_tolerance_ns s =
     (case en_queues (ls_engine s) (sint stream_index) of
        None \<Rightarrow> Some (Ret ([], s))
      | Some queues \<Rightarrow>
          detect_loop fuel 0 others (detect_iteration rt send pad queues sync_tolerance_ns stream_index) []
            (s\<lparr>ls_vis_data := new_bytes MAX_FRAME_SIZE, ls_uv_data := new_bytes MAX_FRAME_SIZE\<rparr>))"

section \<open>All streams\<close>

text \<open>
  \<open>run_loop\<close> starts one thread per stream and joins them. A thread without queues returns at once.
  The threads are interleaved by a list of streams that says which one takes its next step. The steps of a thread
  are: an iteration up to the publication, entering \<open>publish_nonblock\<close>, and leaving it; a thread
  between iterations that finds the engine stopped returns. The socket of the publisher is shared and not locked, and a
  ZeroMQ socket must not be used by two threads at once: entering the send while another thread is
  inside is undefined. \<open>rs_sender\<close> is the stream whose thread is inside. \<open>headers\<close> is the content of the
  uninitialised headers.
\<close>

datatype thread_phase = Iterating | Before_Send "u8 list" int | In_Send "u8 list" int

record stream_thread =
  th_queues :: stream_queues
  th_vis_header :: frame_header
  th_uv_header :: frame_header
  th_vis_data :: "u8 list"
  th_uv_data :: "u8 list"
  th_phase :: thread_phase

record run_state =
  rs_engine :: engine
  rs_mem :: "u64 \<rightharpoonup> shm_queue"
  rs_threads :: "i32 \<rightharpoonup> stream_thread"
  rs_sender :: "i32 option"

definition start_threads :: "(nat \<Rightarrow> u8 list) \<Rightarrow> frame_header \<times> frame_header \<Rightarrow> (u64 \<rightharpoonup> shm_queue) \<Rightarrow> engine \<Rightarrow> run_state" where
  "start_threads new_bytes headers mem en = \<lparr>rs_engine = en, rs_mem = mem, rs_threads = (\<lambda>i.
     if 0 \<le> sint i \<and> sint i < sint (en_num_streams en)
     then map_option (\<lambda>qs. \<lparr>th_queues = qs, th_vis_header = fst headers, th_uv_header = snd headers,
            th_vis_data = new_bytes MAX_FRAME_SIZE, th_uv_data = new_bytes MAX_FRAME_SIZE, th_phase = Iterating\<rparr>) (en_queues en (sint i))
     else None), rs_sender = None\<rparr>"

definition thread_state :: "run_state \<Rightarrow> stream_thread \<Rightarrow> loop_state" where
  "thread_state rs th = \<lparr>ls_engine = rs_engine rs, ls_mem = rs_mem rs, ls_vis_header = th_vis_header th,
     ls_uv_header = th_uv_header th, ls_vis_data = th_vis_data th, ls_uv_data = th_uv_data th\<rparr>"

definition thread_after :: "stream_queues \<Rightarrow> u8 list option iteration \<Rightarrow> loop_state \<Rightarrow> stream_thread" where
  "thread_after qs it s = \<lparr>th_queues = qs, th_vis_header = ls_vis_header s, th_uv_header = ls_uv_header s,
     th_vis_data = ls_vis_data s, th_uv_data = ls_uv_data s,
     th_phase = (case it of Processed n (Some results) \<Rightarrow> Before_Send results n | _ \<Rightarrow> Iterating)\<rparr>"

text \<open>The three steps of a thread.\<close>

definition step_iterate ::
    "runtime \<Rightarrow> (nat \<Rightarrow> u8 list) \<Rightarrow> i64 \<Rightarrow> i32 \<Rightarrow> stream_thread \<Rightarrow> run_state \<Rightarrow> run_state exec" where
  "step_iterate rt pad sync_tolerance_ns i th rs =
     (if \<not> en_running (rs_engine rs) then Ret (rs\<lparr>rs_threads := (rs_threads rs)(i := None)\<rparr>)
      else exec_bind (frame_iteration (engine_detect_frame rt pad i) (th_queues th) sync_tolerance_ns (thread_state rs th))
        (\<lambda>(it, s). Ret (rs\<lparr>rs_engine := ls_engine s, rs_mem := ls_mem s,
           rs_threads := (rs_threads rs)(i \<mapsto> thread_after (th_queues th) it s)\<rparr>)))"

definition step_enter_send ::
    "zmq_send \<Rightarrow> i32 \<Rightarrow> stream_thread \<Rightarrow> u8 list \<Rightarrow> int \<Rightarrow> run_state \<Rightarrow> run_state exec" where
  "step_enter_send send i th results n rs =
     (case en_publisher (rs_engine rs) of
        None \<Rightarrow> UB
      | Some zp \<Rightarrow>
          if \<not> is_valid zp
          then exec_bind (publish_nonblock send (Some results) n zp)
                 (\<lambda>rc. Ret (rs\<lparr>rs_threads := (rs_threads rs)(i \<mapsto> th\<lparr>th_phase := Iterating\<rparr>)\<rparr>))
          else if rs_sender rs \<noteq> None then UB
          else Ret (rs\<lparr>rs_threads := (rs_threads rs)(i \<mapsto> th\<lparr>th_phase := In_Send results n\<rparr>), rs_sender := Some i\<rparr>))"

definition step_leave_send ::
    "zmq_send \<Rightarrow> i32 \<Rightarrow> stream_thread \<Rightarrow> u8 list \<Rightarrow> int \<Rightarrow> run_state \<Rightarrow> run_state exec" where
  "step_leave_send send i th results n rs =
     (case en_publisher (rs_engine rs) of
        None \<Rightarrow> UB
      | Some zp \<Rightarrow> exec_bind (publish_nonblock send (Some results) n zp)
          (\<lambda>rc. Ret (rs\<lparr>rs_threads := (rs_threads rs)(i \<mapsto> th\<lparr>th_phase := Iterating\<rparr>), rs_sender := None\<rparr>)))"

definition thread_step ::
    "runtime \<Rightarrow> zmq_send \<Rightarrow> (nat \<Rightarrow> u8 list) \<Rightarrow> i64 \<Rightarrow> i32 \<Rightarrow> run_state \<Rightarrow> run_state exec" where
  "thread_step rt send pad sync_tolerance_ns i rs =
     (case rs_threads rs i of
        None \<Rightarrow> Ret rs
      | Some th \<Rightarrow>
          (case th_phase th of
             Iterating \<Rightarrow> step_iterate rt pad sync_tolerance_ns i th rs
           | Before_Send results n \<Rightarrow> step_enter_send send i th results n rs
           | In_Send results n \<Rightarrow> step_leave_send send i th results n rs))"

definition engine_run_loop ::
    "runtime \<Rightarrow> zmq_send \<Rightarrow> (nat \<Rightarrow> u8 list) \<Rightarrow> (nat \<Rightarrow> u8 list) \<Rightarrow> frame_header \<times> frame_header \<Rightarrow> i64 \<Rightarrow> i32 list \<Rightarrow>
     (u64 \<rightharpoonup> shm_queue) \<Rightarrow> engine \<Rightarrow> run_state exec" where
  "engine_run_loop rt send pad new_bytes headers sync_tolerance_ns schedule mem en =
     exec_fold (thread_step rt send pad sync_tolerance_ns) schedule (start_threads new_bytes headers mem en)"

section \<open>Pops through a pointer\<close>

definition queue_ready :: "(u64 \<rightharpoonup> shm_queue) \<Rightarrow> u64 \<Rightarrow> frame list \<Rightarrow> bool" where
  "queue_ready mem p fs \<longleftrightarrow> p \<noteq> 0 \<and> (\<exists>q. mem p = Some q \<and> queue_inv q \<and> pending q = fs)"

lemma pop_at_empty:
  assumes "queue_ready mem p []" "length d = MAX_FRAME_SIZE"
  shows "pop_at mem p h d = Ret (- 2, mem, h, d)"
proof -
  obtain q where q: "p \<noteq> 0" "mem p = Some q" "queue_inv q" "pending q = []" using assms(1) by (auto simp: queue_ready_def)
  have "sint (write_seq q) = sint (read_seq q)" using pending_length [OF q(3)] q(4) by simp
  then show ?thesis
    using pop_eq [OF q(3), of d h] assms(2) q(1,2) by (simp add: pop_at_def) (metis fun_upd_triv)
qed

lemma pop_at_frame:
  assumes "queue_ready mem p ((fh, bytes) # fs)" "length d = MAX_FRAME_SIZE"
  obtains q where "pop_at mem p h d = Ret (0, mem(p \<mapsto> q), fh, bytes @ drop (length bytes) d)"
    "queue_ready (mem(p \<mapsto> q)) p fs" "length bytes = frame_size fh"
proof -
  obtain q where q: "p \<noteq> 0" "mem p = Some q" "queue_inv q" "pending q = (fh, bytes) # fs"
    using assms(1) by (auto simp: queue_ready_def)
  have ne: "sint (read_seq q) < sint (write_seq q)" using pending_length [OF q(3)] q(4) by simp
  note t = take_frame_pending [OF q(3) ne] take_frame_inv [OF q(3) ne]
  have s: "slot_frame (slot_at q (read_seq q)) = (fh, bytes)" "pending (take_frame q) = fs" using t(1) q(4) by auto
  have "slot_at q (read_seq q) \<in> set (slots q)"
    using queue_invD [OF q(3)] by (simp add: slot_at_ring ring_slot_in)
  then have "length bytes = frame_size fh" using slot_frame_length [OF s(1) queue_invD(1) [OF q(3)]] by simp
  moreover have "pop_at mem p h d = Ret (0, mem(p \<mapsto> take_frame q), fh, bytes @ drop (length bytes) d)"
    using pop_eq [OF q(3), of d h] assms(2) q(1,2) ne s(1) by (simp add: pop_at_def)
  moreover have "queue_ready (mem(p \<mapsto> take_frame q)) p fs" using q(1) t(2) s(2) by (simp add: queue_ready_def)
  ultimately show ?thesis using that by blast
qed

lemma queue_ready_other: "p \<noteq> p' \<Longrightarrow> queue_ready (mem(p' := x)) p fs = queue_ready mem p fs"
  by (simp add: queue_ready_def)

text \<open>Sizes of frames.\<close>

lemma image_size_as_int: "image_size h = word_of_int (sint (fh_width h) * sint (fh_height h) * sint (fh_channels h))"
  unfolding image_size_def scast_eq by simp

lemma image_size_value:
  assumes "sint (fh_width h) = int w" "sint (fh_height h) = int ht" "sint (fh_channels h) = int c" "w * ht * c < 2 ^ 63"
  shows "unat (image_size h) = w * ht * c"
proof -
  have "int (w * ht * c) < int (2 ^ 63)" using assms(4) by (simp only: of_nat_less_iff)
  then have "uint (image_size h) = int (w * ht * c)"
    unfolding image_size_as_int assms(1-3) by (subst uint_u64) simp_all
  then show ?thesis by (simp only: unat_eq_nat_uint nat_int)
qed

lemma frame_size_value: "unat (image_size h) \<le> MAX_FRAME_SIZE \<Longrightarrow> frame_size h = unat (image_size h)"
  by (simp add: frame_size_def image_size_def [symmetric] Let_def MAX_FRAME_SIZE_eq word_less_nat_alt)

lemma frame_size_capped: "MAX_FRAME_SIZE \<le> unat (image_size h) \<Longrightarrow> frame_size h = MAX_FRAME_SIZE"
  by (simp add: frame_size_def image_size_def [symmetric] Let_def MAX_FRAME_SIZE_eq word_less_nat_alt)

lemma upload_frame:
  assumes "unat (image_size h) \<le> MAX_FRAME_SIZE" "length bytes = frame_size h"
  shows "upload (bytes @ rest) (image_size h) = Ret bytes"
  using assms frame_size_value [OF assms(1)] by (simp add: upload_def memcpy_Ret)

end
