(* ===== verification/Engine_Inv.thy ===== *)
theory Engine_Inv
  imports Engine_Main
begin

text \<open>
  The loop of a stream: the handlers of a frame pair (locale \<open>frame_handler\<close>), what the loop does to pairs
  that are in step, out of step or larger than a slot, and that the loop ends.
\<close>

section \<open>From a frame to a message\<close>

definition pads_ok :: "(nat \<Rightarrow> u8 list) \<Rightarrow> bool" where
  "pads_ok pad \<longleftrightarrow> (\<forall>k. length (pad k) = 96)"

definition result_bytes :: "(nat \<Rightarrow> u8 list) \<Rightarrow> arc_flash_event list \<Rightarrow> u8 list" where
  "result_bytes pad events = array_bytes (map pad [0..<length events]) (map event_msg events)"

definition zero_pad :: "nat \<Rightarrow> u8 list" where
  "zero_pad k = replicate 96 0"

lemma zero_pad_ok: "pads_ok zero_pad"
  by (simp add: pads_ok_def zero_pad_def)

lemma result_bytes_length: "pads_ok pad \<Longrightarrow> length (result_bytes pad events) = 96 * length events"
  using array_bytes_parts(1) [of "map pad [0..<length events]" "map event_msg events"]
  by (simp add: result_bytes_def pads_ok_def list_all_iff)

text \<open>The return code of the publication of a frame's events.\<close>

definition publication :: "zmq_send \<Rightarrow> (nat \<Rightarrow> u8 list) \<Rightarrow> zmq_publisher option \<Rightarrow> arc_flash_event list \<Rightarrow> int option" where
  "publication send pad pub events =
     (case pub of
        Some zp \<Rightarrow>
          if events = [] then None
          else if is_valid zp
          then Some (case send (le_bytes 4 (int (length events)) @ result_bytes pad events) of (rc, eagain) \<Rightarrow>
                 if 0 < rc then 0 else if rc < 0 \<and> eagain then 1 else - 1)
          else Some (- 1)
      | None \<Rightarrow> None)"

lemma publish_events:
  assumes "pads_ok pad" "events \<noteq> []" "length events < 2 ^ 31"
  shows "publish_nonblock send (Some (array_bytes (map pad [0..<length events]) (map event_msg events))) (int (length events)) zp =
    Ret (the (publication send pad (Some zp) events))"
proof -
  have "int (length events) < int (2 ^ 31)" using assms(3) by (simp only: of_nat_less_iff)
  then show ?thesis
    using publish_nonblock_Ret [of "Some (result_bytes pad events)" "int (length events)" send zp]
      result_bytes_length [OF assms(1), of events] assms(2)
    by (simp add: publication_def result_bytes_def del: le_bytes.simps)
qed

text \<open>The array of messages that a frame leaves to be published.\<close>

definition pending_results :: "(nat \<Rightarrow> u8 list) \<Rightarrow> zmq_publisher option \<Rightarrow> arc_flash_event list \<Rightarrow> u8 list option" where
  "pending_results pad pub events = (if events \<noteq> [] \<and> pub \<noteq> None then Some (result_bytes pad events) else None)"

lemma detect_frame_Ret:
  "en_detector en = Some ad \<Longrightarrow> detect rt visible uv w h pts i ad = Ret (events, ad') \<Longrightarrow>
   engine_detect_frame rt pad i visible uv w h pts en =
     Ret (int (length events), en\<lparr>en_detector := Some ad'\<rparr>, pending_results pad (en_publisher en) events)"
  by (simp add: engine_detect_frame_def pending_results_def result_bytes_def)

lemma process_frame_Ret:
  assumes "en_detector en = Some ad" "detect rt visible uv w h pts i ad = Ret (events, ad')"
    "length events < 2 ^ 31" "pads_ok pad"
  shows "engine_process_frame rt send pad i visible uv w h pts en =
    Ret (int (length events), en\<lparr>en_detector := Some ad'\<rparr>, publication send pad (en_publisher en) events)"
proof (cases "en_publisher en")
  case None
  then show ?thesis
    using detect_frame_Ret [OF assms(1,2)] by (simp add: engine_process_frame_def pending_results_def publication_def)
next
  case (Some zp)
  have "publication send pad (Some zp) events = (if events = [] then None else Some (the (publication send pad (Some zp) events)))"
    by (simp add: publication_def)
  then show ?thesis
    using Some detect_frame_Ret [OF assms(1,2), of pad] publish_events [OF assms(4) _ assms(3), of send zp]
    by (auto simp: engine_process_frame_def pending_results_def result_bytes_def)
qed

section \<open>Handling a frame pair\<close>

text \<open>
  What the loop relies on: whatever handles the pair runs the detector on it, keeps the rest of the
  engine, and reports an outcome that depends on the publisher and the events only. Both
  \<open>engine_process_frame\<close> and its part before the publication are such handlers.
\<close>

locale frame_handler =
  fixes rt :: runtime
    and i :: i32
    and process :: "u8 list \<Rightarrow> u8 list \<Rightarrow> int \<Rightarrow> int \<Rightarrow> i64 \<Rightarrow> engine \<Rightarrow> (int \<times> engine \<times> 'p) exec"
    and outcome :: "zmq_publisher option \<Rightarrow> arc_flash_event list \<Rightarrow> 'p"
  assumes handles: "en_detector en = Some ad \<Longrightarrow> detect rt visible uv w h pts i ad = Ret (events, ad') \<Longrightarrow>
    length events < 2 ^ 31 \<Longrightarrow>
    process visible uv w h pts en = Ret (int (length events), en\<lparr>en_detector := Some ad'\<rparr>, outcome (en_publisher en) events)"

lemma process_frame_handler:
  "pads_ok pad \<Longrightarrow> frame_handler rt i (engine_process_frame rt send pad i) (publication send pad)"
  by (unfold_locales) (rule process_frame_Ret)

interpretation df: frame_handler rt i "engine_detect_frame rt pad i" "pending_results pad"
  by (unfold_locales) (rule detect_frame_Ret)

section \<open>Frame pairs\<close>

definition header_dims :: "frame_header \<Rightarrow> nat \<Rightarrow> nat \<Rightarrow> nat \<Rightarrow> bool" where
  "header_dims fh w h c \<longleftrightarrow> sint (fh_width fh) = int w \<and> sint (fh_height fh) = int h \<and> sint (fh_channels fh) = int c"

text \<open>A color frame and an ultraviolet frame of the same size that fit in a slot.\<close>

definition pair_ok :: "frame \<Rightarrow> frame \<Rightarrow> nat \<Rightarrow> nat \<Rightarrow> bool" where
  "pair_ok vf uf w h \<longleftrightarrow> header_dims (fst vf) w h 3 \<and> header_dims (fst uf) w h 1 \<and> 1 \<le> w \<and> 1 \<le> h \<and>
     int w \<le> 2 ^ 15 \<and> int h \<le> 2 ^ 15 \<and> w * h * 3 \<le> MAX_FRAME_SIZE"

lemma header_dims_size:
  assumes "header_dims fh w h c" "w * h * c \<le> MAX_FRAME_SIZE"
  shows "unat (image_size fh) = w * h * c" "frame_size fh = w * h * c"
proof -
  have "w * h * c < 2 ^ 63" using assms(2) by (simp add: MAX_FRAME_SIZE_eq)
  then show s: "unat (image_size fh) = w * h * c" using assms(1) image_size_value by (simp add: header_dims_def)
  show "frame_size fh = w * h * c" using frame_size_value [of fh] s assms(2) by simp
qed

lemma pair_ok_sizes:
  assumes "pair_ok (vh, vb) (uh, ub) w h" "length vb = frame_size vh" "length ub = frame_size uh"
  shows "unat (image_size vh) \<le> MAX_FRAME_SIZE" "unat (image_size uh) \<le> MAX_FRAME_SIZE" "frame_pair vb ub w h"
    "sint (fh_width vh) = int w" "sint (fh_height vh) = int h"
proof -
  note p = assms(1) [unfolded pair_ok_def fst_conv]
  have v: "unat (image_size vh) = w * h * 3" "frame_size vh = w * h * 3" using p header_dims_size by blast+
  have "w * h * 1 \<le> MAX_FRAME_SIZE" using p by linarith
  then have u: "unat (image_size uh) = w * h * 1" "frame_size uh = w * h * 1" using p header_dims_size by blast+
  show "unat (image_size vh) \<le> MAX_FRAME_SIZE" "unat (image_size uh) \<le> MAX_FRAME_SIZE" using v u p by simp_all
  have "int (w * h * 3) \<le> int MAX_FRAME_SIZE" using p by (simp only: of_nat_le_iff)
  then show "frame_pair vb ub w h"
    using p assms(2,3) v(2) u(2) by (auto simp: frame_pair_def image_in_def MAX_FRAME_SIZE_eq mult.commute)
  show "sint (fh_width vh) = int w" "sint (fh_height vh) = int h" using p by (simp_all add: header_dims_def)
qed

section \<open>One iteration\<close>

text \<open>The engine of a stream's thread that can take frames: queues, buffers, detector.\<close>

definition loop_ready ::
    "runtime \<Rightarrow> nat \<Rightarrow> nat \<Rightarrow> stream_queues \<Rightarrow> frame list \<Rightarrow> frame list \<Rightarrow> loop_state \<Rightarrow> bool" where
  "loop_ready rt nv nu qs vs us s \<longleftrightarrow> sq_visible qs \<noteq> sq_uv qs \<and>
     queue_ready (ls_mem s) (sq_visible qs) vs \<and> queue_ready (ls_mem s) (sq_uv qs) us \<and>
     length (ls_vis_data s) = MAX_FRAME_SIZE \<and> length (ls_uv_data s) = MAX_FRAME_SIZE \<and>
     (\<exists>ad. en_detector (ls_engine s) = Some ad \<and> detector_ready rt nv nu ad)"

lemma pts_distance_Ret:
  "\<bar>sint a - sint b\<bar> < 2 ^ 63 \<Longrightarrow> pts_distance a b = Ret \<bar>sint a - sint b\<bar>"
  by (simp add: pts_distance_def ci64_def abs_if split: if_splits)

definition out_of_step :: "i64 \<Rightarrow> frame \<Rightarrow> frame \<Rightarrow> bool" where
  "out_of_step tol vf uf \<longleftrightarrow> sint tol < \<bar>sint (fh_pts_ns (fst vf)) - sint (fh_pts_ns (fst uf))\<bar>"

definition times_ok :: "frame \<Rightarrow> frame \<Rightarrow> bool" where
  "times_ok vf uf \<longleftrightarrow> \<bar>sint (fh_pts_ns (fst vf)) - sint (fh_pts_ns (fst uf))\<bar> < 2 ^ 63"

lemma iteration_no_visible:
  assumes "loop_ready rt nv nu qs [] us s"
  shows "frame_iteration process qs tol s = Ret (No_Visible, s)"
  using assms pop_at_empty [of "ls_mem s" "sq_visible qs" "ls_vis_data s" "ls_vis_header s"]
  by (simp add: frame_iteration_def loop_ready_def)

text \<open>Both pops, when both queues have a frame.\<close>

lemma two_pops:
  assumes "loop_ready rt nv nu qs ((vh, vb) # vs) ((uh, ub) # us) s"
  obtains mem1 mem2 where
    "pop_at (ls_mem s) (sq_visible qs) (ls_vis_header s) (ls_vis_data s) = Ret (0, mem1, vh, vb @ drop (length vb) (ls_vis_data s))"
    "pop_at mem1 (sq_uv qs) (ls_uv_header s) (ls_uv_data s) = Ret (0, mem2, uh, ub @ drop (length ub) (ls_uv_data s))"
    "queue_ready mem2 (sq_visible qs) vs" "queue_ready mem2 (sq_uv qs) us"
    "length vb = frame_size vh" "length ub = frame_size uh"
    "\<forall>p. p \<noteq> sq_visible qs \<longrightarrow> p \<noteq> sq_uv qs \<longrightarrow> mem2 p = ls_mem s p"
proof -
  note r = assms [unfolded loop_ready_def]
  obtain q1 where v: "pop_at (ls_mem s) (sq_visible qs) (ls_vis_header s) (ls_vis_data s) =
      Ret (0, (ls_mem s)(sq_visible qs \<mapsto> q1), vh, vb @ drop (length vb) (ls_vis_data s))"
    "queue_ready ((ls_mem s)(sq_visible qs \<mapsto> q1)) (sq_visible qs) vs" "length vb = frame_size vh"
    using pop_at_frame [of "ls_mem s" "sq_visible qs" vh vb vs "ls_vis_data s" "ls_vis_header s"] r by blast
  have "queue_ready ((ls_mem s)(sq_visible qs \<mapsto> q1)) (sq_uv qs) ((uh, ub) # us)"
    using r queue_ready_other [of "sq_uv qs" "sq_visible qs"] by auto
  then obtain q2 where u: "pop_at ((ls_mem s)(sq_visible qs \<mapsto> q1)) (sq_uv qs) (ls_uv_header s) (ls_uv_data s) =
      Ret (0, (ls_mem s)(sq_visible qs \<mapsto> q1, sq_uv qs \<mapsto> q2), uh, ub @ drop (length ub) (ls_uv_data s))"
    "queue_ready ((ls_mem s)(sq_visible qs \<mapsto> q1, sq_uv qs \<mapsto> q2)) (sq_uv qs) us" "length ub = frame_size uh"
    using pop_at_frame [of "(ls_mem s)(sq_visible qs \<mapsto> q1)" "sq_uv qs" uh ub us "ls_uv_data s" "ls_uv_header s"] r by blast
  have "queue_ready ((ls_mem s)(sq_visible qs \<mapsto> q1, sq_uv qs \<mapsto> q2)) (sq_visible qs) vs"
    using v(2) r by (simp add: queue_ready_other)
  then show ?thesis using that v(1,3) u by simp
qed

lemma iteration_no_uv:
  assumes "loop_ready rt nv nu qs (vf # vs) [] s"
  obtains s' where "frame_iteration process qs tol s = Ret (No_Uv, s')" "loop_ready rt nv nu qs vs [] s'"
    "ls_engine s' = ls_engine s"
proof -
  obtain vh vb where f: "vf = (vh, vb)" by (cases vf)
  note r = assms [unfolded loop_ready_def f]
  obtain q1 where v: "pop_at (ls_mem s) (sq_visible qs) (ls_vis_header s) (ls_vis_data s) =
      Ret (0, (ls_mem s)(sq_visible qs \<mapsto> q1), vh, vb @ drop (length vb) (ls_vis_data s))"
    "queue_ready ((ls_mem s)(sq_visible qs \<mapsto> q1)) (sq_visible qs) vs" "length vb = frame_size vh"
    using pop_at_frame [of "ls_mem s" "sq_visible qs" vh vb vs "ls_vis_data s" "ls_vis_header s"] r by blast
  have u: "queue_ready ((ls_mem s)(sq_visible qs \<mapsto> q1)) (sq_uv qs) []"
    using r queue_ready_other [of "sq_uv qs" "sq_visible qs"] by auto
  have "length (vb @ drop (length vb) (ls_vis_data s)) = MAX_FRAME_SIZE"
    using v(3) frame_size_le [of vh] r by simp
  then show ?thesis
    using that v u r pop_at_empty [OF u, of "ls_uv_data s" "ls_uv_header s"]
    by (simp add: frame_iteration_def Let_def loop_ready_def)
qed

lemma iteration_out_of_step:
  assumes "loop_ready rt nv nu qs (vf # vs) (uf # us) s" "times_ok vf uf" "out_of_step tol vf uf"
  obtains s' where "frame_iteration process qs tol s = Ret (Out_Of_Sync, s')" "loop_ready rt nv nu qs vs us s'"
    "ls_engine s' = ls_engine s"
proof -
  obtain vh vb uh ub where f: "vf = (vh, vb)" "uf = (uh, ub)" by (cases vf; cases uf)
  obtain mem1 mem2 where p:
    "pop_at (ls_mem s) (sq_visible qs) (ls_vis_header s) (ls_vis_data s) = Ret (0, mem1, vh, vb @ drop (length vb) (ls_vis_data s))"
    "pop_at mem1 (sq_uv qs) (ls_uv_header s) (ls_uv_data s) = Ret (0, mem2, uh, ub @ drop (length ub) (ls_uv_data s))"
    "queue_ready mem2 (sq_visible qs) vs" "queue_ready mem2 (sq_uv qs) us" "length vb = frame_size vh" "length ub = frame_size uh"
    using two_pops assms(1) unfolding f by metis
  have d: "pts_distance (fh_pts_ns vh) (fh_pts_ns uh) = Ret \<bar>sint (fh_pts_ns vh) - sint (fh_pts_ns uh)\<bar>"
    using assms(2) by (intro pts_distance_Ret) (simp add: times_ok_def f)
  show ?thesis
    using that p(1-4) d assms(1,3) p(5,6) frame_size_le [of vh] frame_size_le [of uh]
    by (simp add: frame_iteration_def Let_def loop_ready_def out_of_step_def f)
qed

lemma iteration_pair:
  assumes "loop_ready rt nv nu qs (vf # vs) (uf # us) s" "times_ok vf uf" "\<not> out_of_step tol vf uf" "pair_ok vf uf w h"
    "process (snd vf) (snd uf) (int w) (int h) (fh_pts_ns (fst vf)) (ls_engine s) = Ret (n, en', p)"
  obtains s' where "frame_iteration process qs tol s = Ret (Processed n p, s')" "ls_engine s' = en'"
    "(\<exists>ad. en_detector en' = Some ad \<and> detector_ready rt nv nu ad) \<longrightarrow> loop_ready rt nv nu qs vs us s'"
    "queue_ready (ls_mem s') (sq_visible qs) vs" "queue_ready (ls_mem s') (sq_uv qs) us"
proof -
  obtain vh vb uh ub where f: "vf = (vh, vb)" "uf = (uh, ub)" by (cases vf; cases uf)
  obtain mem1 mem2 where p:
    "pop_at (ls_mem s) (sq_visible qs) (ls_vis_header s) (ls_vis_data s) = Ret (0, mem1, vh, vb @ drop (length vb) (ls_vis_data s))"
    "pop_at mem1 (sq_uv qs) (ls_uv_header s) (ls_uv_data s) = Ret (0, mem2, uh, ub @ drop (length ub) (ls_uv_data s))"
    "queue_ready mem2 (sq_visible qs) vs" "queue_ready mem2 (sq_uv qs) us" "length vb = frame_size vh" "length ub = frame_size uh"
    using two_pops assms(1) unfolding f by metis
  note sz = pair_ok_sizes [OF assms(4) [unfolded f] p(5,6)]
  have d: "pts_distance (fh_pts_ns vh) (fh_pts_ns uh) = Ret \<bar>sint (fh_pts_ns vh) - sint (fh_pts_ns uh)\<bar>"
    using assms(2) by (intro pts_distance_Ret) (simp add: times_ok_def f)
  have u: "upload (vb @ drop (length vb) (ls_vis_data s)) (image_size vh) = Ret vb"
    "upload (ub @ drop (length ub) (ls_uv_data s)) (image_size uh) = Ret ub"
    by (rule upload_frame [OF sz(1) p(5)], rule upload_frame [OF sz(2) p(6)])
  define s' where "s' = s\<lparr>ls_engine := en', ls_mem := mem2, ls_vis_header := vh, ls_uv_header := uh,
    ls_vis_data := vb @ drop (length vb) (ls_vis_data s), ls_uv_data := ub @ drop (length ub) (ls_uv_data s)\<rparr>"
  have "process vb ub (sint (fh_width vh)) (sint (fh_height vh)) (fh_pts_ns vh) (ls_engine s) = Ret (n, en', p)"
    unfolding sz(4,5) using assms(5) by (simp add: f)
  then have "frame_iteration process qs tol s = Ret (Processed n p, s')"
    using p(1,2) d u assms(3) by (simp add: frame_iteration_def Let_def out_of_step_def f s'_def)
  moreover have "(\<exists>ad. en_detector en' = Some ad \<and> detector_ready rt nv nu ad) \<longrightarrow> loop_ready rt nv nu qs vs us s'"
    using assms(1) p(3-6) frame_size_le [of vh] frame_size_le [of uh] by (simp add: loop_ready_def s'_def)
  ultimately show ?thesis using that [of s'] p(3,4) by (simp add: s'_def)
qed

section \<open>The loop\<close>

text \<open>
  Once another thread has stopped the engine before iteration \<open>n\<close>, the loop has returned by then,
  whatever its body does.
\<close>

lemma detect_loop_returns:
  assumes "\<And>s. \<not> en_running (ls_engine (others (k + n) s))"
  shows "detect_loop (Suc n) k others body trace s \<noteq> None"
  using assms
proof (induction n arbitrary: k trace s)
  case (Suc n)
  show ?case
  proof (cases "en_running (ls_engine (others k s))")
    case True
    show ?thesis
    proof (cases "body (others k s)")
      case (Ret r)
      then obtain it s2 where b: "body (others k s) = Ret (it, s2)" by (cases r) simp
      have "detect_loop (Suc n) (Suc k) others body (trace @ [it]) s2 \<noteq> None" using Suc by simp
      then show ?thesis using True unfolding detect_loop.simps(2) [of "Suc n"] Let_def b by simp
    next
      case UB
      then show ?thesis using True by simp
    qed
  next
    case False
    then show ?thesis by simp
  qed
qed simp

text \<open>With an invariant that the body keeps, the loop is also free of undefined behaviour.\<close>

lemma detect_loop_runs:
  assumes "\<And>s. \<not> en_running (ls_engine (others (k + n) s))"
    and "\<And>j s. j \<le> k + n \<Longrightarrow> I j s \<Longrightarrow> I j (others j s)"
    and "\<And>j s. j < k + n \<Longrightarrow> I j s \<Longrightarrow> \<exists>it s'. body s = Ret (it, s') \<and> I (Suc j) s'"
    and "I k s"
  shows "\<exists>its s'. detect_loop (Suc n) k others body trace s = Some (Ret (trace @ its, s')) \<and> length its \<le> n \<and>
    (\<exists>j. I j s') \<and> \<not> en_running (ls_engine s')"
  using assms
proof (induction n arbitrary: k trace s)
  case 0
  then have "I k (others k s)" by simp
  then show ?case using "0.prems"(1) [of s] by auto
next
  case (Suc n)
  have i: "I k (others k s)" using Suc.prems(2,4) by simp
  show ?case
  proof (cases "en_running (ls_engine (others k s))")
    case True
    obtain it s2 where b: "body (others k s) = Ret (it, s2)" "I (Suc k) s2" using Suc.prems(3) [of k, OF _ i] by auto
    have "\<exists>its s'. detect_loop (Suc n) (Suc k) others body (trace @ [it]) s2 = Some (Ret ((trace @ [it]) @ its, s')) \<and> length its \<le> n \<and>
        (\<exists>j. I j s') \<and> \<not> en_running (ls_engine s')"
      using Suc.prems(1-3) b(2) by (intro Suc.IH) simp_all
    then obtain its s' where r: "detect_loop (Suc n) (Suc k) others body (trace @ [it]) s2 = Some (Ret ((trace @ [it]) @ its, s'))"
      "length its \<le> n" "\<exists>j. I j s'" "\<not> en_running (ls_engine s')" by blast
    have "detect_loop (Suc (Suc n)) k others body trace s = Some (Ret (trace @ it # its, s'))"
      unfolding detect_loop.simps(2) [of "Suc n"] Let_def b using True r(1) by simp
    then show ?thesis using r(2-4) by (intro exI [of _ "it # its"] exI [of _ s']) simp
  next
    case False
    then show ?thesis using i by (intro exI [of _ "[]"] exI [of _ "others k s"]) auto
  qed
qed

section \<open>Frames in and out of step\<close>

text \<open>Camera frames of one size, with times that cannot overflow the comparison.\<close>

definition camera_frame :: "nat \<Rightarrow> nat \<Rightarrow> nat \<Rightarrow> frame \<Rightarrow> bool" where
  "camera_frame w h c f \<longleftrightarrow> header_dims (fst f) w h c \<and> \<bar>sint (fh_pts_ns (fst f))\<bar> < 2 ^ 62"

definition size_ok :: "nat \<Rightarrow> nat \<Rightarrow> bool" where
  "size_ok w h \<longleftrightarrow> 1 \<le> w \<and> 1 \<le> h \<and> int w \<le> 2 ^ 15 \<and> int h \<le> 2 ^ 15 \<and> w * h * 3 \<le> MAX_FRAME_SIZE"

lemma camera_pair:
  assumes "camera_frame w h 3 vf" "camera_frame w h 1 uf"
  shows "times_ok vf uf" "size_ok w h \<Longrightarrow> pair_ok vf uf w h"
  using assms by (auto simp: camera_frame_def times_ok_def size_ok_def pair_ok_def)

text \<open>
  C12. Progress: when both queues hold a frame, of one size and no further apart in time than the
  tolerance, one iteration takes the oldest frame of each, runs the detector on exactly their
  bytes, publishes what it reports, and leaves the later frames waiting.
\<close>

theorem iteration_processes_pair:
  assumes "nets_ok rt nv nu" "nu * nv < 2 ^ 31" "pads_ok pad" "loop_ready rt nv nu qs (vf # vs) (uf # us) s"
    "camera_frame w h 3 vf" "camera_frame w h 1 uf" "size_ok w h" "\<not> out_of_step tol vf uf"
    "en_detector (ls_engine s) = Some ad" "detector_room (nu * nv) ad"
  shows "\<exists>events ad' s'. detect rt (snd vf) (snd uf) (int w) (int h) (fh_pts_ns (fst vf)) i ad = Ret (events, ad') \<and>
    detect_iteration rt send pad qs tol i s =
      Ret (Processed (int (length events)) (publication send pad (en_publisher (ls_engine s)) events), s') \<and>
    ls_engine s' = (ls_engine s)\<lparr>en_detector := Some ad'\<rparr> \<and>
    queue_ready (ls_mem s') (sq_visible qs) vs \<and> queue_ready (ls_mem s') (sq_uv qs) us"
proof -
  obtain vh vb uh ub where f: "vf = (vh, vb)" "uf = (uh, ub)" by (cases vf; cases uf)
  have ad: "detector_ready rt nv nu ad" using assms(4,9) by (auto simp: loop_ready_def)
  note p = camera_pair(1) [OF assms(5,6)] camera_pair(2) [OF assms(5-7)]
  have len: "length vb = frame_size vh" "length ub = frame_size uh"
    using two_pops assms(4) unfolding f by metis+
  have fp: "frame_pair (snd vf) (snd uf) w h" using pair_ok_sizes(3) [OF p(2) [unfolded f] len] by (simp add: f)
  have t: "time_ok (fh_pts_ns (fst vf))" using assms(5) by (simp add: camera_frame_def time_ok_def)
  obtain events ad' where d: "detect rt (snd vf) (snd uf) (int w) (int h) (fh_pts_ns (fst vf)) i ad = Ret (events, ad')"
    "length events \<le> nu * nv" by (rule detect_well_reported [OF assms(1) fp t ad assms(10)])
  have "length events < 2 ^ 31" using d(2) assms(2) by linarith
  from iteration_pair [where process = "engine_process_frame rt send pad i",
      OF assms(4) p(1) assms(8) p(2) process_frame_Ret [OF assms(9) d(1) this assms(3), of send]]
  show ?thesis unfolding detect_iteration_def using d(1) by metis
qed

text \<open>A running engine with two streams, and queues that hold given frames.\<close>

definition queue_of :: "frame list \<Rightarrow> shm_queue" where
  "queue_of fs = fold (\<lambda>(h, d). put_frame 0 h d) fs zero_queue"

definition whole_frame :: "frame \<Rightarrow> bool" where
  "whole_frame f \<longleftrightarrow> length (snd f) = frame_size (fst f) \<and> fh_timestamp_wall (fst f) = 0"

lemma whole_frame_sent: "whole_frame (h, d) \<Longrightarrow> sent_frame 0 h d = (h, d)"
  by (simp add: sent_frame_def whole_frame_def)

lemma queue_of_pending:
  "length fs \<le> 64 \<Longrightarrow> list_all whole_frame fs \<Longrightarrow>
   queue_inv (queue_of fs) \<and> pending (queue_of fs) = fs \<and> sint (read_seq (queue_of fs)) = 0 \<and>
   sint (write_seq (queue_of fs)) = int (length fs)"
proof (induction fs rule: rev_induct)
  case Nil
  show ?case by (simp add: queue_of_def zero_queue_inv)
next
  case (snoc f fs)
  obtain h d where f: "f = (h, d)" by (cases f)
  let ?q = "queue_of fs"
  have ih: "queue_inv ?q" "pending ?q = fs" "sint (read_seq ?q) = 0" "sint (write_seq ?q) = int (length fs)"
    using snoc by simp_all
  have w: "whole_frame (h, d)" using snoc.prems f by simp
  have c: "sint (write_seq ?q) < sint (read_seq ?q) + 64" "sint (write_seq ?q) < 2 ^ 63 - 1" "frame_size h \<le> length d"
    using ih(3,4) snoc.prems(1) w by (simp_all add: whole_frame_def)
  have e: "queue_of (fs @ [f]) = put_frame 0 h d ?q" by (simp add: queue_of_def f)
  show ?case
    unfolding e
    using put_frame_inv [OF ih(1) c, of 0] put_frame_pending [OF ih(1) c, of 0] ih c(2) whole_frame_sent [OF w]
    by (simp add: f sint_inc_i64)
qed

definition box_queues :: stream_queues where
  "box_queues = \<lparr>sq_visible = 1, sq_uv = 2\<rparr>"

definition box_engine :: engine where
  "box_engine = \<lparr>en_running = True, en_detector = Some box_detector,
     en_publisher = Some pub_socket, en_num_streams = 2, en_queues = [0 \<mapsto> box_queues]\<rparr>"

definition box_loop :: "frame list \<Rightarrow> frame list \<Rightarrow> loop_state" where
  "box_loop vs us = \<lparr>ls_engine = box_engine, ls_mem = [1 \<mapsto> queue_of vs, 2 \<mapsto> queue_of us],
     ls_vis_header = zero_header, ls_uv_header = zero_header,
     ls_vis_data = replicate MAX_FRAME_SIZE 0, ls_uv_data = replicate MAX_FRAME_SIZE 0\<rparr>"

lemma box_loop_ready:
  assumes "length vs \<le> 64" "length us \<le> 64" "list_all whole_frame vs" "list_all whole_frame us"
  shows "loop_ready box_runtime 1 1 box_queues vs us (box_loop vs us)"
  using assms queue_of_pending box_detector_ready
  by (simp add: loop_ready_def box_loop_def box_queues_def box_engine_def queue_ready_def)

text \<open>Small frames at a given time.\<close>

definition tiny_frame :: "i64 \<Rightarrow> i32 \<Rightarrow> frame" where
  "tiny_frame pts c = (\<lparr>fh_pts_ns = pts, fh_width = 2, fh_height = 1, fh_channels = c, fh_type = VISIBLE_LIGHT,
     fh_stream_index = 0, fh_timestamp_wall = 0\<rparr>, replicate (2 * unat c) 9)"

lemma tiny_frame_simps [simp]:
  "whole_frame (tiny_frame pts 3)" "whole_frame (tiny_frame pts 1)"
  "fh_pts_ns (fst (tiny_frame pts c)) = pts"
  "\<bar>sint pts\<bar> < 2 ^ 62 \<Longrightarrow> camera_frame 2 1 3 (tiny_frame pts 3)"
  "\<bar>sint pts\<bar> < 2 ^ 62 \<Longrightarrow> camera_frame 2 1 1 (tiny_frame pts 1)"
proof -
  have d: "header_dims (fst (tiny_frame pts 3)) 2 1 3" "header_dims (fst (tiny_frame pts 1)) 2 1 1"
    by (simp_all add: header_dims_def tiny_frame_def)
  show "whole_frame (tiny_frame pts 3)" "whole_frame (tiny_frame pts 1)"
    using header_dims_size(2) [OF d(1)] header_dims_size(2) [OF d(2)]
    by (simp_all add: whole_frame_def MAX_FRAME_SIZE_eq) (simp_all add: tiny_frame_def)
  show "\<bar>sint pts\<bar> < 2 ^ 62 \<Longrightarrow> camera_frame 2 1 3 (tiny_frame pts 3)"
    "\<bar>sint pts\<bar> < 2 ^ 62 \<Longrightarrow> camera_frame 2 1 1 (tiny_frame pts 1)"
    using d by (simp_all add: camera_frame_def) (simp_all add: tiny_frame_def)
qed (simp add: tiny_frame_def)

lemmas tiny_frame_camera [simp] = tiny_frame_simps(4,5) [unfolded One_nat_def]

lemma tiny_size: "size_ok 2 1"
  by (simp add: size_ok_def MAX_FRAME_SIZE_eq)

theorem iteration_processes_pair_witness:
  "\<exists>n rc s'. detect_iteration box_runtime (\<lambda>msg. (1, False)) zero_pad box_queues 5000000 0
      (box_loop [tiny_frame 33000000 3] [tiny_frame 34000000 1]) = Ret (Processed n rc, s') \<and>
    queue_ready (ls_mem s') 1 [] \<and> queue_ready (ls_mem s') 2 []"
proof -
  have r: "loop_ready box_runtime 1 1 box_queues [tiny_frame 33000000 3] [tiny_frame 34000000 1]
      (box_loop [tiny_frame 33000000 3] [tiny_frame 34000000 1])" by (rule box_loop_ready) simp_all
  have c: "camera_frame 2 1 3 (tiny_frame 33000000 3)" "camera_frame 2 1 1 (tiny_frame 34000000 1)"
    by (rule tiny_frame_simps; simp)+
  have o: "\<not> out_of_step 5000000 (tiny_frame 33000000 3) (tiny_frame 34000000 1)" by (simp add: out_of_step_def)
  have "en_detector (ls_engine (box_loop [tiny_frame 33000000 3] [tiny_frame 34000000 1])) = Some box_detector"
    by (simp add: box_loop_def box_engine_def)
  from iteration_processes_pair [OF box_runtime_ok _ zero_pad_ok r c tiny_size o this box_room, of 0 "\<lambda>msg. (1, False)"]
  show ?thesis unfolding box_queues_def stream_queues.select_convs by fastforce
qed

text \<open>
  C37. A visible frame that is taken while its ultraviolet partner has not arrived is lost: the
  iteration ends without a detection, the frame is gone from its queue, and the engine is as before.
\<close>

theorem lone_visible_frame_is_lost:
  assumes "loop_ready rt nv nu qs (vf # vs) [] s"
  shows "\<exists>s'. detect_iteration rt send pad qs tol i s = Ret (No_Uv, s') \<and> ls_engine s' = ls_engine s \<and>
    queue_ready (ls_mem s') (sq_visible qs) vs \<and> queue_ready (ls_mem s') (sq_uv qs) []"
  unfolding detect_iteration_def using iteration_no_uv [OF assms] by (metis loop_ready_def)

theorem lone_visible_frame_is_lost_witness:
  "\<exists>s'. detect_iteration box_runtime (\<lambda>msg. (1, False)) zero_pad box_queues 5000000 0
      (box_loop [tiny_frame 33000000 3] []) = Ret (No_Uv, s') \<and> queue_ready (ls_mem s') 1 []"
proof -
  have r: "loop_ready box_runtime 1 1 box_queues [tiny_frame 33000000 3] [] (box_loop [tiny_frame 33000000 3] [])"
    by (rule box_loop_ready) simp_all
  from lone_visible_frame_is_lost [OF r, of "\<lambda>msg. (1, False)" zero_pad 5000000 0] show ?thesis
    by (auto simp: box_queues_def)
qed

text \<open>Another thread that stops the engine before iteration \<open>n\<close> and does nothing else.\<close>

definition stop_at :: "nat \<Rightarrow> nat \<Rightarrow> loop_state \<Rightarrow> loop_state" where
  "stop_at n k s = (if k < n then s else s\<lparr>ls_engine := (ls_engine s)\<lparr>en_running := False\<rparr>\<rparr>)"

lemma stop_at_ready: "loop_ready rt nv nu qs vs us (stop_at n k s) = loop_ready rt nv nu qs vs us s"
  by (simp add: loop_ready_def stop_at_def)

lemma loop_out_of_step:
  assumes "list_all2 (\<lambda>v u. times_ok v u \<and> out_of_step tol v u) vs us" "loop_ready rt nv nu qs vs us s"
    "en_running (ls_engine s)"
  shows "\<exists>s'. detect_loop (Suc (length vs)) k (stop_at (k + length vs)) (detect_iteration rt send pad qs tol i) trace s =
      Some (Ret (trace @ replicate (length vs) Out_Of_Sync, s')) \<and>
    loop_ready rt nv nu qs [] [] s' \<and> ls_engine s' = (ls_engine s)\<lparr>en_running := False\<rparr>"
  using assms
proof (induction vs us arbitrary: k trace s rule: list_all2_induct)
  case Nil
  then show ?case using stop_at_ready [of rt nv nu qs "[]" "[]" k k s] by (simp add: stop_at_def)
next
  case (Cons v vs u us)
  obtain s1 where b: "detect_iteration rt send pad qs tol i s = Ret (Out_Of_Sync, s1)" "loop_ready rt nv nu qs vs us s1"
    "ls_engine s1 = ls_engine s"
    unfolding detect_iteration_def using iteration_out_of_step [OF Cons.prems(1)] Cons.hyps(1) by metis
  have same: "stop_at (k + length (v # vs)) k s = s" by (simp add: stop_at_def)
  from Cons.IH [OF b(2), of "Suc k" "trace @ [Out_Of_Sync]"] Cons.prems(2) b(3) obtain s' where
    "detect_loop (Suc (length vs)) (Suc k) (stop_at (k + length (v # vs))) (detect_iteration rt send pad qs tol i)
      (trace @ [Out_Of_Sync]) s1 = Some (Ret ((trace @ [Out_Of_Sync]) @ replicate (length vs) Out_Of_Sync, s'))"
    "loop_ready rt nv nu qs [] [] s'" "ls_engine s' = (ls_engine s)\<lparr>en_running := False\<rparr>" by auto
  then show ?case
    using Cons.prems(2) unfolding length_Cons detect_loop.simps(2) [of "Suc (length vs)"] Let_def same [unfolded length_Cons] b(1)
    by (simp add: replicate_append_same [symmetric])
qed

text \<open>
  C23. A stream whose frames have come out of step never recovers: if the \<open>k\<close>-th waiting
  ultraviolet frame is, for every \<open>k\<close>, further than the tolerance from the \<open>k\<close>-th waiting visible frame (as
  after one lost frame, when the frame interval exceeds the tolerance), the loop throws all of them
  away: one iteration per pair, no detection, and the engine is as before.
\<close>

theorem out_of_step_stream_never_recovers:
  assumes "en_queues (ls_engine s) (sint i) = Some qs" "en_running (ls_engine s)"
    "loop_ready rt nv nu qs vs us (s\<lparr>ls_vis_data := new_bytes MAX_FRAME_SIZE, ls_uv_data := new_bytes MAX_FRAME_SIZE\<rparr>)"
    "list_all2 (\<lambda>v u. times_ok v u \<and> out_of_step tol v u) vs us"
  shows "\<exists>s'. stream_detect_loop rt send pad new_bytes (Suc (length vs)) (stop_at (length vs)) i tol s =
      Some (Ret (replicate (length vs) Out_Of_Sync, s')) \<and>
    queue_ready (ls_mem s') (sq_visible qs) [] \<and> queue_ready (ls_mem s') (sq_uv qs) [] \<and>
    en_detector (ls_engine s') = en_detector (ls_engine s)"
proof -
  have "en_running (ls_engine (s\<lparr>ls_vis_data := new_bytes MAX_FRAME_SIZE, ls_uv_data := new_bytes MAX_FRAME_SIZE\<rparr>))"
    using assms(2) by simp
  from loop_out_of_step [OF assms(4,3) this, of 0 send pad i "[]"] show ?thesis
    using assms(1) by (auto simp: stream_detect_loop_def loop_ready_def)
qed

text \<open>At thirty frames per second and a tolerance of five milliseconds, one frame late.\<close>

theorem out_of_step_stream_never_recovers_witness:
  "\<exists>s'. stream_detect_loop box_runtime (\<lambda>msg. (1, False)) zero_pad (\<lambda>n. replicate n 0) 3 (stop_at 2) 0 5000000
      (box_loop [tiny_frame 66000000 3, tiny_frame 99000000 3] [tiny_frame 33000000 1, tiny_frame 66000000 1]) =
    Some (Ret ([Out_Of_Sync, Out_Of_Sync], s')) \<and> en_detector (ls_engine s') = Some box_detector"
proof -
  let ?vs = "[tiny_frame 66000000 3, tiny_frame 99000000 3]" and ?us = "[tiny_frame 33000000 1, tiny_frame 66000000 1]"
  have same: "(box_loop ?vs ?us)\<lparr>ls_vis_data := replicate MAX_FRAME_SIZE 0, ls_uv_data := replicate MAX_FRAME_SIZE 0\<rparr> = box_loop ?vs ?us"
    by (simp add: box_loop_def)
  have r: "loop_ready box_runtime 1 1 box_queues ?vs ?us (box_loop ?vs ?us)" by (rule box_loop_ready) simp_all
  have e: "en_queues (ls_engine (box_loop ?vs ?us)) (sint (0 :: i32)) = Some box_queues" "en_running (ls_engine (box_loop ?vs ?us))"
    "en_detector (ls_engine (box_loop ?vs ?us)) = Some box_detector"
    by (simp_all add: box_loop_def box_engine_def)
  have "list_all2 (\<lambda>v u. times_ok v u \<and> out_of_step 5000000 v u) ?vs ?us" by (simp add: times_ok_def out_of_step_def)
  from out_of_step_stream_never_recovers [OF e(1,2), where new_bytes = "\<lambda>n. replicate n 0", OF _ this,
      unfolded same, OF r, of "\<lambda>msg. (1, False)" zero_pad]
  show ?thesis using e(3) by (auto simp: numeral_eq_Suc)
qed

section \<open>Frames larger than a slot\<close>

text \<open>
  C38. A frame announced larger than a slot (1920 x 1080 x 3 bytes) passes the queue, which caps what
  it copies; the loop then takes the announced size and reads past the end of its buffer.
\<close>

theorem oversized_frame_reads_past_buffer:
  assumes "loop_ready rt nv nu qs (vf # vs) (uf # us) s" "times_ok vf uf" "\<not> out_of_step tol vf uf"
    "MAX_FRAME_SIZE < unat (image_size (fst vf))"
  shows "detect_iteration rt send pad qs tol i s = UB"
proof -
  obtain vh vb uh ub where f: "vf = (vh, vb)" "uf = (uh, ub)" by (cases vf; cases uf)
  obtain mem1 mem2 where p:
    "pop_at (ls_mem s) (sq_visible qs) (ls_vis_header s) (ls_vis_data s) = Ret (0, mem1, vh, vb @ drop (length vb) (ls_vis_data s))"
    "pop_at mem1 (sq_uv qs) (ls_uv_header s) (ls_uv_data s) = Ret (0, mem2, uh, ub @ drop (length ub) (ls_uv_data s))"
    "length vb = frame_size vh"
    using two_pops assms(1) unfolding f by metis
  have d: "pts_distance (fh_pts_ns vh) (fh_pts_ns uh) = Ret \<bar>sint (fh_pts_ns vh) - sint (fh_pts_ns uh)\<bar>"
    using assms(2) by (intro pts_distance_Ret) (simp add: times_ok_def f)
  have "length (vb @ drop (length vb) (ls_vis_data s)) = MAX_FRAME_SIZE"
    using p(3) frame_size_le [of vh] assms(1) by (simp add: loop_ready_def)
  then have "\<not> unat (image_size vh) \<le> length (vb @ drop (length vb) (ls_vis_data s))" using assms(4) by (simp add: f)
  then have "upload (vb @ drop (length vb) (ls_vis_data s)) (image_size vh) = UB"
    unfolding upload_def memcpy_def by (simp only: if_False simp_thms)
  then show ?thesis using p(1,2) d assms(3) by (simp add: detect_iteration_def frame_iteration_def Let_def out_of_step_def f)
qed

definition uhd_frame :: frame where
  "uhd_frame = (\<lparr>fh_pts_ns = 0, fh_width = 3840, fh_height = 2160, fh_channels = 3, fh_type = VISIBLE_LIGHT,
     fh_stream_index = 0, fh_timestamp_wall = 0\<rparr>, replicate MAX_FRAME_SIZE 0)"

lemma uhd_frame_size: "unat (image_size (fst uhd_frame)) = 24883200" "whole_frame uhd_frame"
proof -
  show s: "unat (image_size (fst uhd_frame)) = 24883200"
    using image_size_value [of "fst uhd_frame" 3840 2160 3] by (simp add: uhd_frame_def)
  show "whole_frame uhd_frame"
    using frame_size_capped [of "fst uhd_frame"] s by (simp add: whole_frame_def MAX_FRAME_SIZE_eq) (simp add: uhd_frame_def MAX_FRAME_SIZE_eq)
qed

text \<open>An ultra-high-definition frame: accepted by the queue, undefined behaviour in the loop.\<close>

theorem oversized_frame_reads_past_buffer_witness:
  "(\<exists>q. shm_queue_push 0 (Some zero_queue) (Some (fst uhd_frame)) (Some (snd uhd_frame)) = Ret (0, Some q) \<and>
      pending q = [uhd_frame]) \<and>
   detect_iteration box_runtime (\<lambda>msg. (1, False)) zero_pad box_queues 5000000 0
     (box_loop [uhd_frame] [tiny_frame 0 1]) = UB"
proof
  have w: "whole_frame (fst uhd_frame, snd uhd_frame)" using uhd_frame_size(2) by simp
  then have "frame_size (fst uhd_frame) \<le> length (snd uhd_frame)" by (simp add: whole_frame_def)
  then show "\<exists>q. shm_queue_push 0 (Some zero_queue) (Some (fst uhd_frame)) (Some (snd uhd_frame)) = Ret (0, Some q) \<and>
      pending q = [uhd_frame]"
    using push_eq [OF zero_queue_inv, of "fst uhd_frame" "snd uhd_frame" 0] whole_frame_sent [OF w]
      put_frame_pending [OF zero_queue_inv, of "fst uhd_frame" "snd uhd_frame" 0] by simp
  have r: "loop_ready box_runtime 1 1 box_queues [uhd_frame] [tiny_frame 0 1] (box_loop [uhd_frame] [tiny_frame 0 1])"
    using uhd_frame_size(2) by (intro box_loop_ready) simp_all
  have "fh_pts_ns (fst uhd_frame) = 0" by (simp add: uhd_frame_def)
  then have "times_ok uhd_frame (tiny_frame 0 1)" "\<not> out_of_step 5000000 uhd_frame (tiny_frame 0 1)"
    by (simp_all add: times_ok_def out_of_step_def)
  from oversized_frame_reads_past_buffer [OF r this] show
    "detect_iteration box_runtime (\<lambda>msg. (1, False)) zero_pad box_queues 5000000 0 (box_loop [uhd_frame] [tiny_frame 0 1]) = UB"
    using uhd_frame_size(1) by (simp add: MAX_FRAME_SIZE_eq)
qed

section \<open>The loop, with producers\<close>

text \<open>
  The state between iterations when at most \<open>n\<close> frames per stream can still be processed: both
  queues hold camera frames, and the detector is ready with room for their track ids.
\<close>

definition stream_inv :: "runtime \<Rightarrow> nat \<Rightarrow> nat \<Rightarrow> stream_queues \<Rightarrow> nat \<Rightarrow> nat \<Rightarrow> nat \<Rightarrow> loop_state \<Rightarrow> bool" where
  "stream_inv rt nv nu qs w h n s \<longleftrightarrow>
     (\<exists>vs us ad. loop_ready rt nv nu qs vs us s \<and> list_all (camera_frame w h 3) vs \<and> list_all (camera_frame w h 1) us \<and>
        en_detector (ls_engine s) = Some ad \<and> detector_room (n * (nu * nv)) ad)"

lemma stream_invI:
  "loop_ready rt nv nu qs vs us s \<Longrightarrow> list_all (camera_frame w h 3) vs \<Longrightarrow> list_all (camera_frame w h 1) us \<Longrightarrow>
   en_detector (ls_engine s) = Some ad \<Longrightarrow> detector_room (n * (nu * nv)) ad \<Longrightarrow> stream_inv rt nv nu qs w h n s"
  by (auto simp: stream_inv_def)

text \<open>A handler's iteration keeps the invariant, and its outcome is that of some events.\<close>

context frame_handler
begin

lemma iteration_keeps_inv:
  assumes "nets_ok rt nv nu" "nu * nv < 2 ^ 31" "size_ok w h" "stream_inv rt nv nu qs w h (Suc n) s"
  shows "\<exists>it s'. frame_iteration process qs tol s = Ret (it, s') \<and> stream_inv rt nv nu qs w h n s' \<and>
    (\<forall>k p. it = Processed k p \<longrightarrow> (\<exists>events. k = int (length events) \<and> p = outcome (en_publisher (ls_engine s)) events))"
proof -
  obtain vs us ad where r: "loop_ready rt nv nu qs vs us s" "list_all (camera_frame w h 3) vs" "list_all (camera_frame w h 1) us"
    "en_detector (ls_engine s) = Some ad" "detector_room (nu * nv + n * (nu * nv)) ad"
    using assms(4) by (auto simp: stream_inv_def)
  have room: "detector_room (n * (nu * nv)) ad" using detector_room_less [OF r(5)] by simp
  have ready: "detector_ready rt nv nu ad" using r(1,4) by (auto simp: loop_ready_def)
  consider "vs = []" | v vs' where "vs = v # vs'" "us = []" | v vs' u us' where "vs = v # vs'" "us = u # us'"
    by (cases vs; cases us) auto
  then show ?thesis
  proof cases
    case 1
    then have "frame_iteration process qs tol s = Ret (No_Visible, s)" using iteration_no_visible r(1) by metis
    then show ?thesis using stream_invI [OF r(1-4) room] by simp
  next
    case 2
    from iteration_no_uv [OF r(1) [unfolded 2]] obtain s' where
      "frame_iteration process qs tol s = Ret (No_Uv, s')" "loop_ready rt nv nu qs vs' [] s'" "ls_engine s' = ls_engine s"
      by metis
    then show ?thesis using stream_invI [of rt nv nu qs vs' "[]" s' w h ad n] r(2,4) room 2 by auto
  next
    case 3
    have c: "camera_frame w h 3 v" "camera_frame w h 1 u" "list_all (camera_frame w h 3) vs'" "list_all (camera_frame w h 1) us'"
      using r(2,3) 3 by simp_all
    note p = camera_pair(1) [OF c(1,2)] camera_pair(2) [OF c(1,2) assms(3)]
    show ?thesis
    proof (cases "out_of_step tol v u")
      case True
      from iteration_out_of_step [OF r(1) [unfolded 3] p(1) True] obtain s' where
        "frame_iteration process qs tol s = Ret (Out_Of_Sync, s')" "loop_ready rt nv nu qs vs' us' s'" "ls_engine s' = ls_engine s"
        by metis
      then show ?thesis using stream_invI [OF _ c(3,4), of rt nv nu qs s' ad n] r(4) room by simp
    next
      case False
      obtain vh vb uh ub where f: "v = (vh, vb)" "u = (uh, ub)" by (cases v; cases u)
      have len: "length vb = frame_size vh" "length ub = frame_size uh"
        using two_pops r(1) unfolding 3 f by metis+
      have fp: "frame_pair (snd v) (snd u) w h" using pair_ok_sizes(3) [OF p(2) [unfolded f] len] by (simp add: f)
      have t: "time_ok (fh_pts_ns (fst v))" using c(1) by (simp add: camera_frame_def time_ok_def)
      obtain events ad' where d: "detect rt (snd v) (snd u) (int w) (int h) (fh_pts_ns (fst v)) i ad = Ret (events, ad')"
        "length events \<le> nu * nv" "detector_ready rt nv nu ad'" "detector_room (n * (nu * nv)) ad'"
        using detect_ready_frame [OF assms(1) fp t ready r(5)] by metis
      have "length events < 2 ^ 31" using d(2) assms(2) by linarith
      from iteration_pair [where process = process, OF r(1) [unfolded 3] p(1) False p(2) handles [OF r(4) d(1) this]] obtain s' where
        s': "frame_iteration process qs tol s = Ret (Processed (int (length events)) (outcome (en_publisher (ls_engine s)) events), s')"
        "ls_engine s' = (ls_engine s)\<lparr>en_detector := Some ad'\<rparr>" "loop_ready rt nv nu qs vs' us' s'" using d(3) by simp blast
      then have "stream_inv rt nv nu qs w h n s'" using stream_invI [OF _ c(3,4), of rt nv nu qs s' ad' n] d(4) by simp
      then show ?thesis using s'(1) by auto
    qed
  qed
qed

end

text \<open>
  C8. The thread of a stream ends when it is told to, and never runs into undefined behaviour on the
  way: whatever the other threads do between its iterations, as long as they leave camera frames of
  one size (with times below \<open>2 ^ 62\<close>) in its queues and its detector ready, the loop returns by the iteration before
  which the engine is stopped. The counters of the trackers must have room for the pairs it can meet until then.
  Here the others act between the iterations only, so that no two threads publish at the same time.
\<close>

theorem stream_loop_ends_safely:
  assumes "nets_ok rt nv nu" "nu * nv < 2 ^ 31" "pads_ok pad" "size_ok w h" "en_queues (ls_engine s) (sint i) = Some qs"
    "stream_inv rt nv nu qs w h n (s\<lparr>ls_vis_data := new_bytes MAX_FRAME_SIZE, ls_uv_data := new_bytes MAX_FRAME_SIZE\<rparr>)"
    "\<And>k t. k \<le> n \<Longrightarrow> stream_inv rt nv nu qs w h (n - k) t \<Longrightarrow> stream_inv rt nv nu qs w h (n - k) (others k t)"
    "\<And>t. \<not> en_running (ls_engine (others n t))"
  shows "\<exists>its s'. stream_detect_loop rt send pad new_bytes (Suc n) others i tol s = Some (Ret (its, s')) \<and>
    length its \<le> n \<and> \<not> en_running (ls_engine s')"
proof -
  let ?s = "s\<lparr>ls_vis_data := new_bytes MAX_FRAME_SIZE, ls_uv_data := new_bytes MAX_FRAME_SIZE\<rparr>"
  let ?I = "\<lambda>k t. k \<le> n \<and> stream_inv rt nv nu qs w h (n - k) t"
  have "\<exists>its s'. detect_loop (Suc n) 0 others (detect_iteration rt send pad qs tol i) [] ?s = Some (Ret ([] @ its, s')) \<and>
      length its \<le> n \<and> (\<exists>j. ?I j s') \<and> \<not> en_running (ls_engine s')"
  proof (rule detect_loop_runs [where I = ?I])
    show "\<exists>it s'. detect_iteration rt send pad qs tol i t = Ret (it, s') \<and> Suc j \<le> n \<and> stream_inv rt nv nu qs w h (n - Suc j) s'"
      if "j < 0 + n" "j \<le> n \<and> stream_inv rt nv nu qs w h (n - j) t" for j t
    proof -
      have "n - j = Suc (n - Suc j)" using that(1) by simp
      then show ?thesis
        using frame_handler.iteration_keeps_inv [OF process_frame_handler [OF assms(3)] assms(1,2,4)] that
        unfolding detect_iteration_def by (metis Suc_leI add_0)
    qed
  qed (use assms(6-8) in simp_all)
  then show ?thesis using assms(5) by (auto simp: stream_detect_loop_def)
qed

theorem stream_loop_ends_safely_witness:
  "\<exists>its s'. stream_detect_loop box_runtime (\<lambda>msg. (1, False)) zero_pad (\<lambda>n. replicate n 0) 11 (stop_at 10) 0 5000000
      (box_loop [tiny_frame 0 3, tiny_frame 33000000 3] [tiny_frame 1000000 1]) = Some (Ret (its, s')) \<and> length its \<le> 10"
proof -
  let ?s = "box_loop [tiny_frame 0 3, tiny_frame 33000000 3] [tiny_frame 1000000 1]"
  have same: "?s\<lparr>ls_vis_data := replicate MAX_FRAME_SIZE 0, ls_uv_data := replicate MAX_FRAME_SIZE 0\<rparr> = ?s"
    by (simp add: box_loop_def)
  have q: "en_queues (ls_engine ?s) (sint (0 :: i32)) = Some box_queues" "en_detector (ls_engine ?s) = Some box_detector"
    by (simp_all add: box_loop_def box_engine_def)
  have "detector_room (10 * (1 * 1)) box_detector" by (rule box_room) simp
  moreover have "loop_ready box_runtime 1 1 box_queues [tiny_frame 0 3, tiny_frame 33000000 3] [tiny_frame 1000000 1] ?s"
    by (rule box_loop_ready) simp_all
  ultimately have inv: "stream_inv box_runtime 1 1 box_queues 2 1 10 ?s"
    using q(2) by (intro stream_invI) (auto intro: tiny_frame_simps)
  have keep: "stream_inv box_runtime 1 1 box_queues 2 1 m (stop_at 10 k t)" if "stream_inv box_runtime 1 1 box_queues 2 1 m t" for m k t
  proof -
    have "en_detector (ls_engine (stop_at 10 k t)) = en_detector (ls_engine t)" by (simp add: stop_at_def)
    then show ?thesis using that unfolding stream_inv_def stop_at_ready by simp
  qed
  have stop: "\<not> en_running (ls_engine (stop_at 10 10 t))" for t by (simp add: stop_at_def)
  have "(1 :: nat) * 1 < 2 ^ 31" by simp
  from stream_loop_ends_safely [OF box_runtime_ok this zero_pad_ok tiny_size q(1), where n = 10 and others = "stop_at 10"
      and new_bytes = "\<lambda>n. replicate n 0", unfolded same, OF inv keep stop, of "\<lambda>msg. (1, False)" 5000000]
  show ?thesis by auto
qed

end
