(* ===== verification/Engine_Results.thy ===== *)
theory Engine_Results
  imports Engine_Inv
begin

text \<open>
  The ends of the engine: what a consumer of the result channel reads is what the detector
  reported, setting up never succeeds as the code stands, and shutting down gives everything back.
\<close>

section \<open>From the detector to the consumer\<close>

text \<open>
  A message that says what an event says, every field of it, its \<open>float\<close> and \<open>double\<close> fields read as numbers. The
  confidence and the intensity are what the network makes of them: they are read as they are unless they
  exceed the range of their type.
\<close>

definition msg_of_event :: "arc_result_msg \<Rightarrow> arc_flash_event \<Rightarrow> bool" where
  "msg_of_event m ev \<longleftrightarrow>
     f32_value (m_x1 m) = rx1 (ev_box ev) \<and> f32_value (m_y1 m) = ry1 (ev_box ev) \<and>
     f32_value (m_x2 m) = rx2 (ev_box ev) \<and> f32_value (m_y2 m) = ry2 (ev_box ev) \<and>
     (\<bar>ev_confidence ev\<bar> < 2 ^ 128 \<longrightarrow> f32_value (m_confidence m) = ev_confidence ev) \<and>
     (\<bar>ev_intensity ev\<bar> < 2 ^ 1024 \<longrightarrow> f64_value (m_intensity m) = ev_intensity ev) \<and>
     f64_value (m_instant_energy m) = ev_instant_energy ev \<and> f64_value (m_smoothed_energy m) = ev_smoothed_energy ev \<and>
     f64_value (m_cumulative_energy m) = ev_cumulative_energy ev \<and>
     sint (m_class_id m) = 1 \<and> m_pts_ns m = ev_pts_ns ev \<and>
     m_stream_index m = ev_stream_index ev \<and> sint (m_severity_level m) = severity_code (ev_severity ev) \<and>
     m_track_id m = ev_track_id ev \<and> m_track_frame_count m = ev_track_frame_count ev \<and>
     m_track_duration_ns m = ev_track_duration_ns ev"

lemma event_msg_of_event:
  assumes "coords_ok (3 * 2 ^ 29) (ev_box ev)" "float_box (ev_box ev)" "rnd32 (ev_confidence ev) = ev_confidence ev"
    "rnd32 (ev_intensity ev) = ev_intensity ev" "sized_event ev"
  shows "msg_of_event (event_msg ev) ev"
proof -
  have c: "f32_value (word_of_int (f32_bits v)) = v" if "\<bar>v\<bar> \<le> 3 * 2 ^ 29" "rnd32 v = v" for v
    using that by (intro f32_roundtrip) simp_all
  have e: "f64_value (word_of_int (f64_bits v)) = v" if "sized_energy v" for v
    using that by (intro f64_roundtrip) (simp_all add: sized_energy_def)
  have "\<bar>ev_intensity ev\<bar> < 2 ^ 1024 \<Longrightarrow> f64_value (word_of_int (f64_bits (ev_intensity ev))) = ev_intensity ev"
    "\<bar>ev_confidence ev\<bar> < 2 ^ 128 \<Longrightarrow> f32_value (word_of_int (f32_bits (ev_confidence ev))) = ev_confidence ev"
    using f64_roundtrip [OF rnd64_of_float [OF assms(4)]] f32_roundtrip [OF assms(3)] by blast+
  moreover have "sint (word_of_int (severity_code (ev_severity ev)) :: i32) = severity_code (ev_severity ev)"
    by (rule sint_of_int_i32; cases "ev_severity ev"; simp)
  ultimately show ?thesis
    using assms(1,2,5) c e unfolding msg_of_event_def event_msg_def arc_result_msg.select_convs
    by (auto simp: coords_ok_def float_box_def sized_event_def)
qed

lemma well_reported_msgs:
  assumes "well_reported t uv w h pts i events" "list_all sized_event events"
  shows "\<forall>ev \<in> set events. msg_of_event (event_msg ev) ev"
  using assms event_msg_of_event by (auto simp: well_reported_def list_all_iff)

lemma receive_events:
  assumes "is_valid sub" "events \<noteq> []" "pads_ok pad" "int (length events) \<le> sint max_count" "96 * nat (sint max_count) \<le> length out"
  shows "\<exists>out'. receive_nonblock (Received (le_bytes 4 (int (length events)) @ result_bytes pad events)) (Some out) max_count sub =
      Ret (int (length events), Some out') \<and>
    (\<forall>k<length events. msg_at (take 96 (drop (96 * k) out')) = event_msg (events ! k))"
proof -
  let ?pads = "map pad [0..<length events]" and ?ms = "map event_msg events"
  have pads: "list_all (\<lambda>p. length p = 96) ?pads" "length ?pads = length ?ms"
    using assms(3) by (simp_all add: pads_ok_def list_all_iff)
  have c: "int (length events) < 2 ^ 31" using assms(4) sint_lt [of max_count] by simp
  have f: "frame_message (array_bytes ?pads ?ms) (int (length ?ms)) = Ret (le_bytes 4 (int (length events)) @ result_bytes pad events)"
    using frame_message_Ret [of "int (length events)" "result_bytes pad events"] c result_bytes_length [OF assms(3), of events]
    by (simp add: result_bytes_def del: le_bytes.simps)
  obtain msg out' where r: "frame_message (array_bytes ?pads ?ms) (int (length ?ms)) = Ret msg"
    "receive_nonblock (Received msg) (Some out) max_count sub = Ret (int (length ?ms), Some out')"
    "map (\<lambda>k. msg_at (take 96 (drop (96 * k) out'))) [0..<length ?ms] = ?ms"
    using receive_published [OF assms(1) _ pads, of max_count out] assms(2,4,5) by auto
  have "msg = le_bytes 4 (int (length events)) @ result_bytes pad events" using r(1) f by simp
  moreover have "msg_at (take 96 (drop (96 * k) out')) = event_msg (events ! k)" if "k < length events" for k
    using arg_cong [OF r(3), of "\<lambda>l. l ! k"] that by simp
  ultimately show ?thesis using r(2) by auto
qed

text \<open>
  C2. From the frame to the consumer: processing a frame pair returns the number of events the
  detector reports; without events nothing is published, and otherwise one message is, the same
  whatever the socket does, whose acceptance the return code of the publication tells. A consumer
  with room that receives that message gets exactly these events in their order, every coordinate,
  confidence, intensity, energy (instant, smoothed and cumulative), time, stream, level and track field as the
  detector reported them, and class 1.
\<close>

theorem results_reach_consumer:
  assumes "nets_ok rt nv nu" "nu * nv < 2 ^ 31" "frame_pair visible uv w h" "time_ok pts" "en_detector en = Some ad"
    "detector_ready rt nv nu ad" "detector_room (nu * nv) ad"
    "en_publisher en = Some pub" "is_valid pub" "pads_ok pad" "is_valid sub" "int (nu * nv) \<le> sint max_count"
    "96 * nat (sint max_count) \<le> length out"
  shows "\<exists>events ad' msg. detect rt visible uv (int w) (int h) pts i ad = Ret (events, ad') \<and>
    (\<forall>send. engine_process_frame rt send pad i visible uv (int w) (int h) pts en =
       Ret (int (length events), en\<lparr>en_detector := Some ad'\<rparr>,
         if events = [] then None
         else Some (case send msg of (r, eagain) \<Rightarrow> if 0 < r then 0 else if r < 0 \<and> eagain then 1 else - 1))) \<and>
    (events \<noteq> [] \<longrightarrow> (\<exists>out'. receive_nonblock (Received msg) (Some out) max_count sub = Ret (int (length events), Some out') \<and>
       (\<forall>k<length events. msg_of_event (msg_at (take 96 (drop (96 * k) out'))) (events ! k))))"
proof -
  obtain events ad' where d: "detect rt visible uv (int w) (int h) pts i ad = Ret (events, ad')" "length events \<le> nu * nv"
    "well_reported (ac_nms_thresh (ad_config ad)) uv (int w) (int h) pts i events" "list_all sized_event events"
    by (rule detect_well_reported [OF assms(1,3,4,6,7)])
  let ?msg = "le_bytes 4 (int (length events)) @ result_bytes pad events"
  have l: "length events < 2 ^ 31" using d(2) assms(2) by linarith
  have "engine_process_frame rt send pad i visible uv (int w) (int h) pts en =
       Ret (int (length events), en\<lparr>en_detector := Some ad'\<rparr>, if events = [] then None
         else Some (case send ?msg of (r, eagain) \<Rightarrow> if 0 < r then 0 else if r < 0 \<and> eagain then 1 else - 1))" for send
    using process_frame_Ret [OF assms(5) d(1) l assms(10), of send] assms(8,9) by (simp add: publication_def del: le_bytes.simps)
  moreover have "\<exists>out'. receive_nonblock (Received ?msg) (Some out) max_count sub = Ret (int (length events), Some out') \<and>
       (\<forall>k<length events. msg_of_event (msg_at (take 96 (drop (96 * k) out'))) (events ! k))" if "events \<noteq> []"
  proof -
    have "int (length events) \<le> sint max_count"
      using d(2) assms(12) of_nat_le_iff [of "length events" "nu * nv", where 'a = int] by linarith
    from receive_events [OF assms(11) that assms(10) this assms(13)] obtain out' where
      r: "receive_nonblock (Received ?msg) (Some out) max_count sub = Ret (int (length events), Some out')"
      "\<forall>k<length events. msg_at (take 96 (drop (96 * k) out')) = event_msg (events ! k)" by blast
    from well_reported_msgs [OF d(3,4)] show ?thesis using r by auto
  qed
  ultimately show ?thesis using d(1) by blast
qed

text \<open>One event, published and received.\<close>

theorem results_reach_consumer_witness:
  "\<exists>ev ad' msg out'. detect box_runtime (gray_frame 3) (gray_frame 1) (int 64) (int 48) 1000 0 box_detector = Ret ([ev], ad') \<and>
     engine_process_frame box_runtime (\<lambda>m. (int (length m), m \<noteq> msg)) zero_pad 0 (gray_frame 3) (gray_frame 1) (int 64) (int 48) 1000
       box_engine = Ret (1, box_engine\<lparr>en_detector := Some ad'\<rparr>, Some (if msg = [] then - 1 else 0)) \<and>
     receive_nonblock (Received msg) (Some (zero_pad 0)) 1 sub_socket = Ret (1, Some out') \<and>
     msg_of_event (msg_at (take 96 out')) ev"
proof -
  have e: "en_detector box_engine = Some box_detector" "en_publisher box_engine = Some pub_socket"
    by (simp_all add: box_engine_def)
  have o: "(1 :: nat) * 1 < 2 ^ 31" "int (1 * 1) \<le> sint (1 :: i32)" "96 * nat (sint (1 :: i32)) \<le> length (zero_pad 0)"
    by (simp_all add: zero_pad_def)
  have t: "time_ok 1000" by (simp add: time_ok_def)
  have room: "detector_room (1 * 1) box_detector" by (rule box_room) simp
  obtain ev ad' where d: "detect box_runtime (gray_frame 3) (gray_frame 1) (int 64) (int 48) 1000 0 box_detector = Ret ([ev], ad')"
    by (rule box_detects [of 0 1000]) (simp_all add: t)
  from results_reach_consumer [OF box_runtime_ok o(1) gray_frame_pair t e(1) box_detector_ready room e(2) sockets_valid(2) zero_pad_ok
      sockets_valid(1) o(2,3), of 0] d obtain msg out' where
    s: "\<forall>send. engine_process_frame box_runtime send zero_pad 0 (gray_frame 3) (gray_frame 1) (int 64) (int 48) 1000 box_engine =
       Ret (1, box_engine\<lparr>en_detector := Some ad'\<rparr>,
         Some (case send msg of (r, eagain) \<Rightarrow> if 0 < r then 0 else if r < 0 \<and> eagain then 1 else - 1))" and
    r: "receive_nonblock (Received msg) (Some (zero_pad 0)) 1 sub_socket = Ret (1, Some out')" "msg_of_event (msg_at (take 96 out')) ev"
    by auto
  show ?thesis using d s r by (intro exI [of _ ev] exI [of _ ad'] exI [of _ msg] exI [of _ out']) simp
qed

section \<open>Setting up and shutting down\<close>

text \<open>
  C39. Setting up the engine never succeeds: whatever the paths, the number of streams and the
  outcome of every call, either the engines of the first stream load and the call runs into
  the null dereference of \<open>init_stream\<close>, or it returns -1 with no detector and every resource given
  back. Neither 0 nor -2 is ever returned.
\<close>

theorem engine_init_never_succeeds:
  assumes "env_ok env"
  shows "case engine_init rt accepts vp up dev vt ut nt endpoint n en env of
      UB \<Rightarrow> fst (init_stream_store rt 0 (snd (ad_init (ad_new (engine_config vp up dev vt ut nt)))) env)
    | Ret (rc, en', env') \<Rightarrow> rc = - 1 \<and> en_detector en' = None \<and> mset (ge_live env') = mset (ge_live env)"
proof -
  define ad0 where "ad0 = snd (ad_init (ad_new (engine_config vp up dev vt ut nt)))"
  define m where "m = (if 0 < sint n then n else 4)"
  have ini: "ad_init (ad_new (engine_config vp up dev vt ut nt)) = (True, ad0)"
    unfolding ad0_def by (simp add: ad_init_def ad_new_def)
  have "0 \<le> sint m - 1" by (simp add: m_def)
  then have streams: "[0..sint m - 1] = 0 # [1..sint m - 1]" by (simp add: upto_rec1)
  have c: "ad_contexts ad0 = []" by (simp add: ad0_def ad_init_def ad_new_def)
  then have none: "get_stream_context 0 ad0 = None" by (simp add: get_stream_context_def)
  note o = init_stream_outcome [OF none assms(1), of rt]
  show ?thesis
  proof (cases "init_stream rt 0 ad0 env")
    case (Ret r)
    then obtain env' where r: "init_stream rt 0 ad0 env = Ret (False, ad0, env')" "mset (ge_live env') = mset (ge_live env)"
      using o by (cases r) auto
    have "engine_init rt accepts vp up dev vt ut nt endpoint n en env =
        Ret (- 1, en\<lparr>en_detector := None, en_num_streams := m\<rparr>, env')"
      using r(1) c by (simp add: engine_init_def ini m_def [symmetric] streams Let_def ad_shutdown_def)
    then show ?thesis using r(2) by simp
  next
    case UB
    then have "engine_init rt accepts vp up dev vt ut nt endpoint n en env = UB"
      by (simp add: engine_init_def ini m_def [symmetric] streams Let_def)
    then show ?thesis using UB o by (simp add: ad0_def)
  qed
qed

theorem engine_init_never_succeeds_witness:
  "engine_init demo_runtime (\<lambda>_. True) None None 0 (1/2) (1/2) (1/2) None 2
      engine_new demo_env = UB \<and>
   fst (init_stream_store demo_runtime 0 (snd (ad_init (ad_new (engine_config None None 0 (1/2) (1/2) (1/2))))) demo_env)"
proof
  show u: "engine_init demo_runtime (\<lambda>_. True) None None 0 (1/2) (1/2) (1/2) None 2
      engine_new demo_env = UB"
  proof -
    have "case engine_init demo_runtime (\<lambda>_. True) None None 0 (1/2) (1/2) (1/2) None 2
        engine_new demo_env of UB \<Rightarrow> True | Ret _ \<Rightarrow> False" by code_simp
    then show ?thesis by (simp split: exec.splits)
  qed
  have "env_ok demo_env" by (simp add: env_ok_def demo_env_def)
  from engine_init_never_succeeds [OF this, where rt = demo_runtime and accepts = "\<lambda>_. True"
      and vp = None and up = None and dev = 0 and vt = "1/2" and ut = "1/2" and nt = "1/2" and endpoint = None and n = 2
      and en = engine_new, unfolded u]
  show "fst (init_stream_store demo_runtime 0 (snd (ad_init (ad_new (engine_config None None 0 (1/2) (1/2) (1/2))))) demo_env)"
    by simp
qed

text \<open>The resources an engine holds: those of its detector, and those of its publisher.\<close>

definition en_owned :: "engine \<Rightarrow> nat list" where
  "en_owned en = (case en_detector en of Some ad \<Rightarrow> ad_owned ad | None \<Rightarrow> []) @
     (case en_publisher en of Some zp \<Rightarrow> zp_owned zp | None \<Rightarrow> [])"

lemma destroyed_detector_grown:
  assumes "grown a env (ad_owned ad @ xs)"
  shows "grown a (case ad_shutdown ad env of (ad1, e1) \<Rightarrow> snd (ad_shutdown ad1 e1)) xs"
  using ad_shutdown_grown [OF assms] by (simp add: ad_shutdown_def)

lemma destroyed_publisher_grown:
  assumes "grown a env (zp_owned zp @ xs)"
  shows "grown a (case zp_close zp env of (zp1, e1) \<Rightarrow> snd (zp_close zp1 e1)) xs"
  using zp_close_grown [OF assms] by (simp add: zp_close_def give_back_opt_def)

lemma engine_shutdown_grown:
  assumes "grown base env (en_owned en)"
  shows "grown base (snd (engine_shutdown en env)) []"
proof -
  define xs where "xs = (case en_publisher en of Some zp \<Rightarrow> zp_owned zp | None \<Rightarrow> [])"
  define env1 where "env1 = (case en_detector en of
    Some ad \<Rightarrow> (case ad_shutdown ad env of (ad1, e1) \<Rightarrow> snd (ad_shutdown ad1 e1)) | None \<Rightarrow> env)"
  have "grown base env1 xs"
    using assms destroyed_detector_grown [of base env _ xs]
    by (cases "en_detector en") (simp_all add: en_owned_def env1_def xs_def)
  then show ?thesis
    using destroyed_publisher_grown [of base env1 _ "[]"]
    by (cases "en_publisher en") (simp_all add: engine_shutdown_def Let_def env1_def [symmetric] xs_def)
qed

text \<open>
  C40. Shutting down is final, from any state of the engine in which the live resources are those of
  its detector, those of its publisher, and others that are not its own: afterwards the engine is stopped, has no detector,
  no publisher and no queues, the live resources are exactly those others, later frames are refused with
  -1, and the thread of a stream that starts late returns at once.
\<close>

theorem engine_shutdown_is_final:
  assumes "grown base env (en_owned en)"
  shows "case engine_shutdown en env of (en', env') \<Rightarrow>
    \<not> en_running en' \<and> en_detector en' = None \<and> en_publisher en' = None \<and> en_queues en' = Map.empty \<and>
    mset (ge_live env') = mset (ge_live base) \<and>
    engine_process_frame rt send pad i visible uv w h pts en' = Ret (- 1, en', None) \<and>
    (ls_engine s = en' \<longrightarrow> stream_detect_loop rt send pad new_bytes fuel others i tol s = Some (Ret ([], s)))"
  using engine_shutdown_grown [OF assms]
  by (auto simp: engine_shutdown_def engine_process_frame_def engine_detect_frame_def stream_detect_loop_def Let_def grown_def)

text \<open>An engine with the engines of two streams and an open publisher.\<close>

theorem engine_shutdown_is_final_witness:
  "let env = \<lparr>ge_next = 3, ge_live = [2], ge_outcomes = []\<rparr>; (ad, e1) = two_streams env;
       (ok, zp, e2) = zp_bind (\<lambda>_. True) default_endpoint zp_new e1;
       en = engine_new\<lparr>en_detector := Some ad, en_publisher := Some zp\<rparr>
   in ok \<and> is_valid zp \<and> length (ge_live e2) = 35 \<and> mset (ge_live (snd (engine_shutdown en e2))) = {#2#}"
proof -
  define env where "env = \<lparr>ge_next = 3, ge_live = [2 :: nat], ge_outcomes = [] :: bool list\<rparr>"
  obtain ad e1 where t: "two_streams env = (ad, e1)" by (cases "two_streams env")
  obtain ok zp e2 where b: "zp_bind (\<lambda>_. True) default_endpoint zp_new e1 = (ok, zp, e2)" by (metis prod.exhaust)
  have "env_ok env" by (simp add: env_ok_def env_def)
  from two_streams_accounted [OF ad_new_accounted [OF this]] have g1: "grown env e1 (ad_owned ad)"
    by (simp add: accounted_def t)
  have g2: "grown env e2 (zp_owned zp @ ad_owned ad) \<and> (is_valid zp \<longleftrightarrow> ok)"
    using zp_open_grown [OF b [unfolded zp_bind_def] g1] .
  let ?en = "engine_new\<lparr>en_detector := Some ad, en_publisher := Some zp\<rparr>"
  have "grown env e2 (en_owned ?en)" by (rule grown_cong [OF conjunct1 [OF g2]]) (simp add: en_owned_def)
  from engine_shutdown_is_final [OF this] have "mset (ge_live (snd (engine_shutdown ?en e2))) = mset (ge_live env)"
    by (cases "engine_shutdown ?en e2") simp
  moreover have "case zp_bind (\<lambda>_. True) default_endpoint zp_new (snd (two_streams env)) of (ok, zp, e2) \<Rightarrow> ok \<and> length (ge_live e2) = 35"
    unfolding env_def by code_simp
  ultimately show ?thesis
    using g2 by (simp add: env_def [symmetric] Let_def t b) (simp add: env_def)
qed

end
