(* ===== verification/Engine_Threads.thy ===== *)
theory Engine_Threads
  imports Engine_Inv
begin

text \<open>
  The threads of the streams together: an iteration touches its own stream only; any interleaving
  of the threads is free of undefined behaviour except where two threads are in the shared socket at
  once, which does happen; and the run ends once the engine is stopped.
\<close>

section \<open>What an iteration touches\<close>

lemma pop_at_other:
  assumes "pop_at mem p h d = Ret (rc, mem', h', d')" "p' \<noteq> p"
  shows "mem' p' = mem p'"
  using assms by (auto simp: pop_at_def exec_bind_Ret_iff split: if_splits option.splits)

lemma detect_frame_frame:
  assumes "engine_detect_frame rt pad i visible uv w h pts en = Ret (n, en', p)"
  shows "en' = en \<or> (\<exists>ad events ad'. en_detector en = Some ad \<and> detect rt visible uv w h pts i ad = Ret (events, ad') \<and>
    en' = en\<lparr>en_detector := Some ad'\<rparr>)"
  using assms by (auto simp: engine_detect_frame_def exec_bind_Ret_iff split: option.splits)

lemma process_frame_frame:
  assumes "engine_process_frame rt send pad i visible uv w h pts en = Ret (n, en', rc)"
  shows "en' = en \<or> (\<exists>ad events ad'. en_detector en = Some ad \<and> detect rt visible uv w h pts i ad = Ret (events, ad') \<and>
    en' = en\<lparr>en_detector := Some ad'\<rparr>)"
proof -
  obtain k en1 p where d: "engine_detect_frame rt pad i visible uv w h pts en = Ret (k, en1, p)"
    using assms by (auto simp: engine_process_frame_def exec_bind_Ret_iff)
  then have "en' = en1"
    using assms by (auto simp: engine_process_frame_def exec_bind_Ret_iff split: option.splits)
  then show ?thesis using detect_frame_frame [OF d] by simp
qed

lemma detect_frame_others:
  assumes "detect rt visible uv w h pts i ad = Ret (events, ad')"
  shows "ad_config ad' = ad_config ad \<and> map fst (ad_contexts ad') = map fst (ad_contexts ad) \<and>
    (\<forall>j. j \<noteq> sint i \<longrightarrow> map_of (ad_contexts ad') j = map_of (ad_contexts ad) j)"
  using assms
  by (auto simp: detect_def exec_bind_Ret_iff map_of_replace split: option.splits if_splits)

lemma iteration_frame:
  assumes "frame_iteration process qs tol s = Ret (it, s')"
  shows "\<forall>p. p \<noteq> sq_visible qs \<longrightarrow> p \<noteq> sq_uv qs \<longrightarrow> ls_mem s' p = ls_mem s p"
    "ls_engine s' = ls_engine s \<or> (\<exists>visible uv w h pts n p. process visible uv w h pts (ls_engine s) = Ret (n, ls_engine s', p))"
proof -
  obtain rc_vis mem1 vh vd where v: "pop_at (ls_mem s) (sq_visible qs) (ls_vis_header s) (ls_vis_data s) = Ret (rc_vis, mem1, vh, vd)"
    using assms by (auto simp: frame_iteration_def exec_bind_Ret_iff)
  have "(\<forall>p. p \<noteq> sq_visible qs \<longrightarrow> p \<noteq> sq_uv qs \<longrightarrow> ls_mem s' p = ls_mem s p) \<and>
    (ls_engine s' = ls_engine s \<or> (\<exists>visible uv w h pts n p. process visible uv w h pts (ls_engine s) = Ret (n, ls_engine s', p)))"
  proof (cases "rc_vis = 0")
    case False
    then show ?thesis using assms pop_at_other [OF v] by (auto simp: frame_iteration_def v Let_def)
  next
    case True
    then obtain rc_uv mem2 uh ud where u: "pop_at mem1 (sq_uv qs) (ls_uv_header s) (ls_uv_data s) = Ret (rc_uv, mem2, uh, ud)"
      using assms by (auto simp: frame_iteration_def v Let_def exec_bind_Ret_iff)
    note mem = pop_at_other [OF v] pop_at_other [OF u]
    show ?thesis
    proof (cases "rc_uv = 0")
      case False
      then show ?thesis using assms True mem by (auto simp: frame_iteration_def v u Let_def)
    next
      case z: True
      obtain d where d: "pts_distance (fh_pts_ns vh) (fh_pts_ns uh) = Ret d"
        using assms True z by (auto simp: frame_iteration_def v u Let_def exec_bind_Ret_iff)
      show ?thesis
      proof (cases "sint tol < d")
        case True
        then show ?thesis using assms \<open>rc_vis = 0\<close> z mem by (auto simp: frame_iteration_def v u d Let_def)
      next
        case False
        then obtain vis_gpu uv_gpu n en p where
          "process vis_gpu uv_gpu (sint (fh_width vh)) (sint (fh_height vh)) (fh_pts_ns vh) (ls_engine s) = Ret (n, en, p)"
          "ls_engine s' = en" "ls_mem s' = mem2"
          using assms True z by (auto simp: frame_iteration_def v u d Let_def exec_bind_Ret_iff)
        then show ?thesis using mem by metis
      qed
    qed
  qed
  then show "\<forall>p. p \<noteq> sq_visible qs \<longrightarrow> p \<noteq> sq_uv qs \<longrightarrow> ls_mem s' p = ls_mem s p"
    "ls_engine s' = ls_engine s \<or> (\<exists>visible uv w h pts n p. process visible uv w h pts (ls_engine s) = Ret (n, ls_engine s', p))"
    by blast+
qed

lemma detect_iteration_engine:
  assumes "detect_iteration rt send pad qs tol i s = Ret (it, s')"
  shows "ls_engine s' = ls_engine s \<or> (\<exists>ad visible uv w h pts events ad'. en_detector (ls_engine s) = Some ad \<and>
       detect rt visible uv w h pts i ad = Ret (events, ad') \<and> ls_engine s' = (ls_engine s)\<lparr>en_detector := Some ad'\<rparr>)"
  using iteration_frame(2) [OF assms [unfolded detect_iteration_def]]
proof (elim disjE exE)
  fix visible uv w h pts n p
  assume "engine_process_frame rt send pad i visible uv w h pts (ls_engine s) = Ret (n, ls_engine s', p)"
  from process_frame_frame [OF this] show ?thesis by blast
qed simp

text \<open>
  C19. Whatever an iteration of one stream's thread does, and whatever state it starts from, it changes
  only what is its own: its two queues and the context of its stream in the detector. The other queues,
  the other contexts, the configuration, the publisher, the registered queues and the running flag
  are as before.
\<close>

theorem iteration_touches_own_stream:
  assumes "detect_iteration rt send pad qs tol i s = Ret (it, s')"
  shows "(\<forall>p. p \<noteq> sq_visible qs \<longrightarrow> p \<noteq> sq_uv qs \<longrightarrow> ls_mem s' p = ls_mem s p) \<and>
    (\<exists>d. ls_engine s' = (ls_engine s)\<lparr>en_detector := d\<rparr>) \<and>
    (case (en_detector (ls_engine s), en_detector (ls_engine s')) of
       (Some ad, Some ad') \<Rightarrow> ad_config ad' = ad_config ad \<and> map fst (ad_contexts ad') = map fst (ad_contexts ad) \<and>
         (\<forall>j. j \<noteq> sint i \<longrightarrow> map_of (ad_contexts ad') j = map_of (ad_contexts ad) j)
     | (None, None) \<Rightarrow> True
     | _ \<Rightarrow> False)"
  using detect_iteration_engine [OF assms]
proof (elim disjE exE conjE)
  assume e: "ls_engine s' = ls_engine s"
  have "\<exists>d. ls_engine s' = (ls_engine s)\<lparr>en_detector := d\<rparr>"
    by (rule exI [of _ "en_detector (ls_engine s)"]) (simp add: e)
  then show ?thesis using iteration_frame(1) [OF assms [unfolded detect_iteration_def]] unfolding e by (simp split: option.split)
next
  fix ad visible uv w h pts events ad'
  assume e: "en_detector (ls_engine s) = Some ad" "detect rt visible uv w h pts i ad = Ret (events, ad')"
    "ls_engine s' = (ls_engine s)\<lparr>en_detector := Some ad'\<rparr>"
  then show ?thesis using iteration_frame(1) [OF assms [unfolded detect_iteration_def]] detect_frame_others [OF e(2)] by auto
qed

theorem iteration_touches_own_stream_witness:
  "\<exists>it s'. detect_iteration box_runtime (\<lambda>msg. (1, False)) zero_pad box_queues 5000000 0
      ((box_loop [tiny_frame 0 3] [tiny_frame 0 1])\<lparr>ls_mem := [1 \<mapsto> queue_of [tiny_frame 0 3], 2 \<mapsto> queue_of [tiny_frame 0 1], 3 \<mapsto> queue_of []]\<rparr>)
      = Ret (it, s') \<and> ls_mem s' 3 = Some (queue_of []) \<and>
     (\<exists>ad. en_detector (ls_engine s') = Some ad \<and> map_of (ad_contexts ad) 1 = Some box_context)"
proof -
  let ?s = "(box_loop [tiny_frame 0 3] [tiny_frame 0 1])\<lparr>ls_mem := [1 \<mapsto> queue_of [tiny_frame 0 3], 2 \<mapsto> queue_of [tiny_frame 0 1], 3 \<mapsto> queue_of []]\<rparr>"
  have ad: "en_detector (ls_engine ?s) = Some box_detector" by (simp add: box_loop_def box_engine_def)
  have q: "whole_frame (tiny_frame 0 3)" "whole_frame (tiny_frame 0 1)" by simp_all
  have "loop_ready box_runtime 1 1 box_queues [tiny_frame 0 3] [tiny_frame 0 1] ?s"
    using queue_of_pending [of "[tiny_frame 0 3]"] queue_of_pending [of "[tiny_frame 0 1]"] q box_detector_ready
    by (simp add: loop_ready_def box_loop_def box_queues_def box_engine_def queue_ready_def)
  from stream_invI [OF this _ _ ad, of 2 1 1] have "stream_inv box_runtime 1 1 box_queues 2 1 1 ?s"
    by (simp add: box_room)
  then obtain it s' where r: "detect_iteration box_runtime (\<lambda>msg. (1, False)) zero_pad box_queues 5000000 0 ?s = Ret (it, s')"
    "stream_inv box_runtime 1 1 box_queues 2 1 0 s'"
    using frame_handler.iteration_keeps_inv [OF process_frame_handler [OF zero_pad_ok] box_runtime_ok _ tiny_size, of box_queues 0 ?s]
    unfolding detect_iteration_def by fastforce
  obtain ad' where ad': "en_detector (ls_engine s') = Some ad'" using r(2) by (auto simp: stream_inv_def)
  have "map_of (ad_contexts box_detector) 1 = Some box_context" by (simp add: box_detector_def)
  then show ?thesis using r(1) iteration_touches_own_stream [OF r(1)] ad ad' by (auto simp: box_queues_def)
qed

section \<open>Any interleaving\<close>

text \<open>An array of results that can be published.\<close>

definition payload_ok :: "u8 list \<Rightarrow> int \<Rightarrow> bool" where
  "payload_ok results n \<longleftrightarrow> 96 * nat n \<le> length results"

lemma publish_total:
  assumes "payload_ok results n"
  obtains rc where "publish_nonblock send (Some results) n zp = Ret rc"
proof -
  have "\<exists>msg. frame_message results n = Ret msg" if "0 < n"
  proof -
    have "uint (of_nat sizeof_msg * word_of_int n :: u64) = (96 * n) mod 2 ^ 64"
      by (simp add: uint_word_ariths uint_word_of_int mod_mult_right_eq)
    also have "\<dots> \<le> 96 * n" using that by (intro zmod_le_nonneg_dividend) simp
    finally have "nat (uint (of_nat sizeof_msg * word_of_int n :: u64)) \<le> nat (96 * n)" by (rule nat_mono)
    moreover have "nat (96 * n) = 96 * nat n" using that by (simp add: nat_mult_distrib)
    ultimately have "unat (of_nat sizeof_msg * word_of_int n :: u64) \<le> 96 * nat n" by (simp only: unat_eq_nat_uint)
    then show ?thesis using assms by (simp add: frame_message_def memcpy_Ret payload_ok_def)
  qed
  then have "\<exists>rc. publish_nonblock send (Some results) n zp = Ret rc"
    by (cases "0 < n") (auto simp: publish_nonblock_def split: prod.split)
  then show ?thesis using that by blast
qed

definition phase_ok :: "zmq_publisher option \<Rightarrow> thread_phase \<Rightarrow> bool" where
  "phase_ok pub ph = (case ph of
     Iterating \<Rightarrow> True
   | Before_Send results n \<Rightarrow> pub \<noteq> None \<and> payload_ok results n
   | In_Send results n \<Rightarrow> pub \<noteq> None \<and> payload_ok results n)"

definition thread_ok :: "nat \<Rightarrow> nat \<Rightarrow> (u64 \<rightharpoonup> shm_queue) \<Rightarrow> stream_thread \<Rightarrow> bool" where
  "thread_ok w h mem th \<longleftrightarrow> sq_visible (th_queues th) \<noteq> sq_uv (th_queues th) \<and>
     (\<exists>vs us. queue_ready mem (sq_visible (th_queues th)) vs \<and> queue_ready mem (sq_uv (th_queues th)) us \<and>
        list_all (camera_frame w h 3) vs \<and> list_all (camera_frame w h 1) us) \<and>
     length (th_vis_data th) = MAX_FRAME_SIZE \<and> length (th_uv_data th) = MAX_FRAME_SIZE"

definition queue_addresses :: "stream_thread \<Rightarrow> u64 set" where
  "queue_addresses th = {sq_visible (th_queues th), sq_uv (th_queues th)}"

definition in_send :: "thread_phase \<Rightarrow> bool" where
  "in_send ph = (case ph of In_Send _ _ \<Rightarrow> True | _ \<Rightarrow> False)"

text \<open>
  The threads that run, with room for \<open>n\<close> more iterations: each is sound, they share no queue, and
  the thread recorded as sender is the only one inside the socket.
\<close>

definition threads_inv :: "runtime \<Rightarrow> nat \<Rightarrow> nat \<Rightarrow> nat \<Rightarrow> nat \<Rightarrow> nat \<Rightarrow> run_state \<Rightarrow> bool" where
  "threads_inv rt nv nu w h n rs \<longleftrightarrow>
     (\<exists>ad. en_detector (rs_engine rs) = Some ad \<and> detector_ready rt nv nu ad \<and> detector_room (n * (nu * nv)) ad) \<and>
     (\<forall>i th. rs_threads rs i = Some th \<longrightarrow> thread_ok w h (rs_mem rs) th \<and> phase_ok (en_publisher (rs_engine rs)) (th_phase th) \<and>
        (in_send (th_phase th) \<longleftrightarrow> rs_sender rs = Some i)) \<and>
     (\<forall>i. rs_sender rs = Some i \<longrightarrow> rs_threads rs i \<noteq> None) \<and>
     (\<forall>i j th th'. rs_threads rs i = Some th \<longrightarrow> rs_threads rs j = Some th' \<longrightarrow> i \<noteq> j \<longrightarrow>
        queue_addresses th \<inter> queue_addresses th' = {})"

lemma threads_inv_thread:
  assumes "threads_inv rt nv nu w h n rs" "rs_threads rs i = Some th"
  shows "thread_ok w h (rs_mem rs) th" "phase_ok (en_publisher (rs_engine rs)) (th_phase th)"
    "in_send (th_phase th) \<longleftrightarrow> rs_sender rs = Some i"
  using assms by (auto simp: threads_inv_def)

lemma thread_stream_inv:
  assumes "threads_inv rt nv nu w h n rs" "rs_threads rs i = Some th"
  shows "stream_inv rt nv nu (th_queues th) w h n (thread_state rs th)"
  using assms unfolding threads_inv_def stream_inv_def loop_ready_def thread_ok_def thread_state_def by fastforce

lemma thread_ok_after:
  "stream_inv rt nv nu (th_queues th) w h n s \<Longrightarrow> thread_ok w h (ls_mem s) (thread_after (th_queues th) it s)"
  by (auto simp: stream_inv_def loop_ready_def thread_ok_def thread_after_def)

lemma thread_ok_other:
  "thread_ok w h mem th \<Longrightarrow> (\<forall>p \<in> queue_addresses th. mem' p = mem p) \<Longrightarrow> thread_ok w h mem' th"
  by (simp add: thread_ok_def queue_ready_def queue_addresses_def)

lemma threads_inv_less: "threads_inv rt nv nu w h (Suc n) rs \<Longrightarrow> threads_inv rt nv nu w h n rs"
  unfolding threads_inv_def using detector_room_less [of "Suc n * (nu * nv)" _ "n * (nu * nv)"] by fastforce

text \<open>A thread that only changes its phase, or returns.\<close>

lemma threads_inv_phase:
  assumes "threads_inv rt nv nu w h n rs" "rs_threads rs i = Some th" "phase_ok (en_publisher (rs_engine rs)) ph"
    "sender = (if in_send ph then Some i else if in_send (th_phase th) then None else rs_sender rs)"
    "in_send ph \<Longrightarrow> rs_sender rs = None"
  shows "threads_inv rt nv nu w h n (rs\<lparr>rs_threads := (rs_threads rs)(i \<mapsto> th\<lparr>th_phase := ph\<rparr>), rs_sender := sender\<rparr>)"
proof -
  note t = threads_inv_thread [OF assms(1)]
  have "thread_ok w h (rs_mem rs) (th\<lparr>th_phase := ph\<rparr>)" "queue_addresses (th\<lparr>th_phase := ph\<rparr>) = queue_addresses th"
    using t(1) [OF assms(2)] by (simp_all add: thread_ok_def queue_addresses_def)
  moreover have "in_send ph \<longleftrightarrow> sender = Some i" using assms(2,4) t(3) [OF assms(2)] by auto
  moreover have "in_send (th_phase t') \<longleftrightarrow> sender = Some j" if "rs_threads rs j = Some t'" "j \<noteq> i" for j t'
    using t(3) [OF that(1)] t(3) [OF assms(2)] that(2) assms(4,5) by auto
  moreover have "sender = Some j \<Longrightarrow> j \<noteq> i \<Longrightarrow> rs_threads rs j \<noteq> None" for j
    using assms(1,4) unfolding threads_inv_def by (auto split: if_splits)
  ultimately show ?thesis using assms(1-3) unfolding threads_inv_def by (simp; fastforce)
qed

lemma threads_inv_stop:
  assumes "threads_inv rt nv nu w h n rs" "rs_threads rs i = Some th" "\<not> in_send (th_phase th)"
  shows "threads_inv rt nv nu w h n (rs\<lparr>rs_threads := (rs_threads rs)(i := None)\<rparr>)"
  using assms threads_inv_thread(3) [OF assms(1,2)] unfolding threads_inv_def by auto

text \<open>Two threads in the socket: one is inside, and the other is about to enter.\<close>

definition socket_race :: "i32 \<Rightarrow> run_state \<Rightarrow> bool" where
  "socket_race i rs \<longleftrightarrow> (\<exists>j th th' zp results n results' n'. i \<noteq> j \<and>
     rs_threads rs i = Some th \<and> th_phase th = Before_Send results n \<and>
     rs_threads rs j = Some th' \<and> th_phase th' = In_Send results' n' \<and>
     en_publisher (rs_engine rs) = Some zp \<and> is_valid zp)"

lemma step_iterate_keeps:
  assumes "nets_ok rt nv nu" "nu * nv < 2 ^ 31" "pads_ok pad" "size_ok w h" "threads_inv rt nv nu w h (Suc n) rs"
    "rs_threads rs i = Some th" "th_phase th = Iterating"
  shows "\<exists>rs'. step_iterate rt pad tol i th rs = Ret rs' \<and> threads_inv rt nv nu w h n rs'"
proof (cases "en_running (rs_engine rs)")
  case False
  then show ?thesis
    using threads_inv_stop [OF threads_inv_less [OF assms(5)] assms(6)] assms(7) by (simp add: step_iterate_def in_send_def)
next
  case True
  obtain it s where r: "frame_iteration (engine_detect_frame rt pad i) (th_queues th) tol (thread_state rs th) = Ret (it, s)"
    "stream_inv rt nv nu (th_queues th) w h n s"
    "\<forall>k p. it = Processed k p \<longrightarrow> (\<exists>events. k = int (length events) \<and> p = pending_results pad (en_publisher (rs_engine rs)) events)"
    using df.iteration_keeps_inv [where i = i and pad = pad and tol = tol, OF assms(1,2,4) thread_stream_inv [OF assms(5,6)]]
    by (auto simp: thread_state_def)
  define th1 where "th1 = thread_after (th_queues th) it s"
  define rs' where "rs' = rs\<lparr>rs_engine := ls_engine s, rs_mem := ls_mem s, rs_threads := (rs_threads rs)(i \<mapsto> th1)\<rparr>"
  note old = assms(5) [unfolded threads_inv_def]
  have addr: "queue_addresses th1 = queue_addresses th"
    by (simp add: queue_addresses_def thread_after_def th1_def)
  have same: "\<forall>p. p \<notin> queue_addresses th \<longrightarrow> ls_mem s p = rs_mem rs p"
    using iteration_frame(1) [OF r(1)] by (simp add: queue_addresses_def thread_state_def)
  have pub: "en_publisher (ls_engine s) = en_publisher (rs_engine rs)"
    using iteration_frame(2) [OF r(1)] detect_frame_frame by (fastforce simp: thread_state_def)
  have ph: "phase_ok (en_publisher (rs_engine rs)) (th_phase th1)" "\<not> in_send (th_phase th1)"
  proof -
    have "phase_ok (en_publisher (rs_engine rs)) (th_phase th1) \<and> \<not> in_send (th_phase th1)"
    proof (cases it)
      case (Processed k p)
      then obtain events where e: "k = int (length events)" "p = pending_results pad (en_publisher (rs_engine rs)) events"
        using r(3) by blast
      then show ?thesis
        using Processed result_bytes_length [OF assms(3), of events]
        by (auto simp: th1_def thread_after_def phase_ok_def in_send_def payload_ok_def pending_results_def)
    qed (simp_all add: th1_def thread_after_def phase_ok_def in_send_def)
    then show "phase_ok (en_publisher (rs_engine rs)) (th_phase th1)" "\<not> in_send (th_phase th1)" by blast+
  qed
  have not_sender: "rs_sender rs \<noteq> Some i" using threads_inv_thread(3) [OF assms(5,6)] assms(7) by (simp add: in_send_def)
  have "thread_ok w h (ls_mem s) t \<and> phase_ok (en_publisher (rs_engine rs)) (th_phase t) \<and> (in_send (th_phase t) \<longleftrightarrow> rs_sender rs = Some j)"
    if "rs_threads rs' j = Some t" for j t
  proof (cases "j = i")
    case True
    then have "t = th1" using that by (simp add: rs'_def)
    then show ?thesis using True thread_ok_after [OF r(2), of it] ph not_sender by (simp add: th1_def)
  next
    case False
    then have t: "rs_threads rs j = Some t" using that by (simp add: rs'_def)
    then have "queue_addresses t \<inter> queue_addresses th = {}" using old assms(6) False by blast
    then have "\<forall>p \<in> queue_addresses t. ls_mem s p = rs_mem rs p" using same by blast
    then show ?thesis using threads_inv_thread [OF assms(5) t] thread_ok_other by blast
  qed
  moreover have "queue_addresses t \<inter> queue_addresses t' = {}"
    if "rs_threads rs' j = Some t" "rs_threads rs' k = Some t'" "j \<noteq> k" for j k t t'
    using that old assms(6) addr unfolding rs'_def by (auto split: if_splits; blast)
  moreover have "\<exists>ad. en_detector (rs_engine rs') = Some ad \<and> detector_ready rt nv nu ad \<and> detector_room (n * (nu * nv)) ad"
    using r(2) by (auto simp: stream_inv_def loop_ready_def rs'_def)
  moreover have "\<forall>j. rs_sender rs = Some j \<longrightarrow> rs_threads rs' j \<noteq> None" using old by (simp add: rs'_def)
  ultimately have "threads_inv rt nv nu w h n rs'" unfolding threads_inv_def by (simp add: rs'_def pub)
  then show ?thesis using True r(1) by (simp add: step_iterate_def rs'_def th1_def)
qed

text \<open>A step keeps the invariant, or is a race for the socket.\<close>

lemma thread_step_keeps:
  assumes "nets_ok rt nv nu" "nu * nv < 2 ^ 31" "pads_ok pad" "size_ok w h" "threads_inv rt nv nu w h (Suc n) rs"
  shows "(\<exists>rs'. thread_step rt send pad tol i rs = Ret rs' \<and> threads_inv rt nv nu w h n rs') \<or>
    (thread_step rt send pad tol i rs = UB \<and> socket_race i rs)"
proof (cases "rs_threads rs i")
  case None
  then show ?thesis using threads_inv_less [OF assms(5)] by (simp add: thread_step_def)
next
  case (Some th)
  note inv = threads_inv_less [OF assms(5)] and t = threads_inv_thread [OF assms(5) Some]
  show ?thesis
  proof (cases "th_phase th")
    case Iterating
    then show ?thesis using step_iterate_keeps [OF assms Some] Some by (simp add: thread_step_def)
  next
    case (Before_Send results n)
    then obtain zp where zp: "en_publisher (rs_engine rs) = Some zp" "payload_ok results n"
      using t(2) by (auto simp: phase_ok_def)
    have s: "thread_step rt send pad tol i rs = step_enter_send send i th results n rs"
      using Some Before_Send by (simp add: thread_step_def)
    have not_in: "\<not> in_send (th_phase th)" using Before_Send by (simp add: in_send_def)
    show ?thesis
    proof (cases "is_valid zp")
      case False
      obtain rc where rc: "publish_nonblock send (Some results) n zp = Ret rc" using publish_total [OF zp(2)] .
      have "rs\<lparr>rs_threads := (rs_threads rs)(i \<mapsto> th\<lparr>th_phase := Iterating\<rparr>), rs_sender := rs_sender rs\<rparr> =
          rs\<lparr>rs_threads := (rs_threads rs)(i \<mapsto> th\<lparr>th_phase := Iterating\<rparr>)\<rparr>" by simp
      then show ?thesis
        using threads_inv_phase [OF inv Some, of Iterating "rs_sender rs"] not_in False zp(1) rc
        by (simp add: s step_enter_send_def phase_ok_def in_send_def)
    next
      case v: True
      show ?thesis
      proof (cases "rs_sender rs")
        case None
        then show ?thesis
          using threads_inv_phase [OF inv Some, of "In_Send results n" "Some i"] v zp
          by (simp add: s step_enter_send_def phase_ok_def in_send_def)
      next
        case (Some j)
        then have "rs_threads rs j \<noteq> None" using assms(5) by (auto simp: threads_inv_def)
        then obtain th' where th': "rs_threads rs j = Some th'" by blast
        then have "in_send (th_phase th')" using threads_inv_thread(3) [OF assms(5) th'] Some by simp
        then obtain results' n' where p: "th_phase th' = In_Send results' n'" by (auto simp: in_send_def split: thread_phase.splits)
        have "i \<noteq> j" using not_in t(3) Some by auto
        then have "socket_race i rs"
          using \<open>rs_threads rs i = Some th\<close> Before_Send th' p zp(1) v unfolding socket_race_def by blast
        then show ?thesis using Some v zp(1) by (simp add: s step_enter_send_def)
      qed
    qed
  next
    case (In_Send results n)
    then obtain zp where zp: "en_publisher (rs_engine rs) = Some zp" "payload_ok results n"
      using t(2) by (auto simp: phase_ok_def)
    obtain rc where rc: "publish_nonblock send (Some results) n zp = Ret rc" using publish_total [OF zp(2)] .
    then show ?thesis
      using threads_inv_phase [OF inv Some, of Iterating None] In_Send Some zp(1)
      by (simp add: thread_step_def step_leave_send_def phase_ok_def in_send_def)
  qed
qed

text \<open>A schedule: sound at the end, or there is a step that races for the socket.\<close>

lemma threads_run:
  assumes "nets_ok rt nv nu" "nu * nv < 2 ^ 31" "pads_ok pad" "size_ok w h" "threads_inv rt nv nu w h (length schedule + n) rs"
  shows "(\<exists>rs'. exec_fold (thread_step rt send pad tol) schedule rs = Ret rs' \<and> threads_inv rt nv nu w h n rs') \<or>
    (exec_fold (thread_step rt send pad tol) schedule rs = UB \<and>
     (\<exists>before i after rs'. schedule = before @ i # after \<and>
        exec_fold (thread_step rt send pad tol) before rs = Ret rs' \<and> socket_race i rs'))"
  using assms(5)
proof (induction schedule arbitrary: rs)
  case (Cons i schedule)
  have "threads_inv rt nv nu w h (Suc (length schedule + n)) rs" using Cons.prems by simp
  from thread_step_keeps [OF assms(1-4) this, of send tol i] show ?case
  proof (elim disjE exE conjE)
    fix rs1 assume s: "thread_step rt send pad tol i rs = Ret rs1" "threads_inv rt nv nu w h (length schedule + n) rs1"
    from Cons.IH [OF s(2)] show ?thesis
    proof (elim disjE exE conjE)
      fix before j after rs'
      assume "schedule = before @ j # after" "exec_fold (thread_step rt send pad tol) before rs1 = Ret rs'" "socket_race j rs'"
        "exec_fold (thread_step rt send pad tol) schedule rs1 = UB"
      then show ?thesis
        using s(1) by (intro disjI2 conjI exI [of _ "i # before"] exI [of _ j] exI [of _ after] exI [of _ rs']) simp_all
    qed (use s(1) in simp)
  next
    assume "thread_step rt send pad tol i rs = UB" "socket_race i rs"
    then show ?thesis by (intro disjI2 conjI exI [of _ "[]"] exI [of _ i] exI [of _ schedule] exI [of _ rs]) simp_all
  qed
qed simp

text \<open>The threads are those that were started, and a race needs two of them and a socket.\<close>

lemma thread_step_dom:
  assumes "thread_step rt send pad tol i rs = Ret rs'"
  shows "dom (rs_threads rs') \<subseteq> dom (rs_threads rs)"
  using assms
  by (auto simp: thread_step_def step_iterate_def step_enter_send_def step_leave_send_def exec_bind_Ret_iff
      split: option.splits thread_phase.splits if_splits prod.splits)

lemma thread_step_publisher:
  assumes "thread_step rt send pad tol i rs = Ret rs'"
  shows "en_publisher (rs_engine rs') = en_publisher (rs_engine rs)"
proof (cases "\<exists>th. rs_threads rs i = Some th \<and> th_phase th = Iterating \<and> en_running (rs_engine rs)")
  case True
  then obtain th it s where "frame_iteration (engine_detect_frame rt pad i) (th_queues th) tol (thread_state rs th) = Ret (it, s)"
    "rs_engine rs' = ls_engine s"
    using assms by (auto simp: thread_step_def step_iterate_def exec_bind_Ret_iff)
  then show ?thesis
    using iteration_frame(2) [of "engine_detect_frame rt pad i" "th_queues th" tol "thread_state rs th" it s] detect_frame_frame
    by (fastforce simp: thread_state_def)
next
  case False
  then show ?thesis
    using assms
    by (auto simp: thread_step_def step_iterate_def step_enter_send_def step_leave_send_def exec_bind_Ret_iff
        split: option.splits thread_phase.splits if_splits)
qed

lemma run_keeps_threads:
  assumes "exec_fold (thread_step rt send pad tol) schedule rs = Ret rs'"
  shows "dom (rs_threads rs') \<subseteq> dom (rs_threads rs) \<and> en_publisher (rs_engine rs') = en_publisher (rs_engine rs)"
  using assms
proof (induction schedule arbitrary: rs)
  case (Cons i schedule)
  then obtain rs1 where s: "thread_step rt send pad tol i rs = Ret rs1" "exec_fold (thread_step rt send pad tol) schedule rs1 = Ret rs'"
    by (auto simp: exec_bind_Ret_iff)
  note ih = Cons.IH [OF s(2)]
  show ?case using subset_trans [OF conjunct1 [OF ih] thread_step_dom [OF s(1)]] ih thread_step_publisher [OF s(1)] by simp
qed simp

text \<open>The engine as it is when the threads are started: distinct queues with camera frames for every stream.\<close>

definition streams_ready :: "(u64 \<rightharpoonup> shm_queue) \<Rightarrow> nat \<Rightarrow> nat \<Rightarrow> engine \<Rightarrow> bool" where
  "streams_ready mem w h en \<longleftrightarrow>
     (\<forall>i qs. en_queues en i = Some qs \<longrightarrow> sq_visible qs \<noteq> sq_uv qs \<and>
        (\<exists>vs us. queue_ready mem (sq_visible qs) vs \<and> queue_ready mem (sq_uv qs) us \<and>
           list_all (camera_frame w h 3) vs \<and> list_all (camera_frame w h 1) us)) \<and>
     (\<forall>i j qs qs'. en_queues en i = Some qs \<longrightarrow> en_queues en j = Some qs' \<longrightarrow> i \<noteq> j \<longrightarrow>
        {sq_visible qs, sq_uv qs} \<inter> {sq_visible qs', sq_uv qs'} = {})"

lemma sint_i32_inj: "sint (i :: i32) = sint j \<longleftrightarrow> i = j"
  by (metis signed_word_eqI)

lemma start_threads_inv:
  assumes "streams_ready mem w h en" "en_detector en = Some ad" "detector_ready rt nv nu ad" "detector_room (n * (nu * nv)) ad"
    "length (new_bytes MAX_FRAME_SIZE) = MAX_FRAME_SIZE"
  shows "threads_inv rt nv nu w h n (start_threads new_bytes headers mem en)"
proof -
  have "queue_addresses th \<inter> queue_addresses th' = {}"
    if "rs_threads (start_threads new_bytes headers mem en) i = Some th"
      "rs_threads (start_threads new_bytes headers mem en) j = Some th'" "i \<noteq> j" for i j th th'
  proof -
    note t = that
    have "sint i \<noteq> sint j" using that(3) sint_i32_inj by simp
    moreover obtain qs qs' where "en_queues en (sint i) = Some qs" "en_queues en (sint j) = Some qs'"
      "th_queues th = qs" "th_queues th' = qs'"
      using t(1,2) by (auto simp: start_threads_def split: if_splits)
    ultimately show ?thesis using assms(1) unfolding streams_ready_def queue_addresses_def by blast
  qed
  moreover have "thread_ok w h mem th \<and> th_phase th = Iterating" if "rs_threads (start_threads new_bytes headers mem en) i = Some th" for i th
  proof -
    note t = that
    obtain qs where "en_queues en (sint i) = Some qs" "th_queues th = qs" "th_phase th = Iterating" "length (th_vis_data th) = MAX_FRAME_SIZE"
      "length (th_uv_data th) = MAX_FRAME_SIZE"
      using t assms(5) by (auto simp: start_threads_def split: if_splits)
    then show ?thesis using assms(1) unfolding streams_ready_def thread_ok_def by blast
  qed
  moreover have "rs_engine (start_threads new_bytes headers mem en) = en" "rs_mem (start_threads new_bytes headers mem en) = mem"
    "rs_sender (start_threads new_bytes headers mem en) = None"
    by (simp_all add: start_threads_def)
  ultimately show ?thesis using assms(2-4) unfolding threads_inv_def by (simp add: phase_ok_def in_send_def)
qed

text \<open>
  C7. All streams at once: with distinct queues, camera frames of one size and a ready detector, the
  threads of \<open>run_loop\<close> can be interleaved in any order of their steps for as long as the counters of the trackers
  have room. Either the run is free of undefined behaviour and the detector is ready at the
  end, or it reached a state in which one thread was inside the send of the shared socket and the thread to
  step next entered it too: that race is the only way in which the run can go wrong. In particular a
  run with a single stream, or without an open publisher, never goes wrong.
\<close>

theorem run_loop_safe:
  assumes "nets_ok rt nv nu" "nu * nv < 2 ^ 31" "pads_ok pad" "size_ok w h" "streams_ready mem w h en"
    "en_detector en = Some ad" "detector_ready rt nv nu ad" "detector_room (length schedule * (nu * nv)) ad"
    "length (new_bytes MAX_FRAME_SIZE) = MAX_FRAME_SIZE"
  shows "(case engine_run_loop rt send pad new_bytes headers tol schedule mem en of
      Ret rs \<Rightarrow> \<exists>ad'. en_detector (rs_engine rs) = Some ad' \<and> detector_ready rt nv nu ad'
    | UB \<Rightarrow> \<exists>before i after rs. schedule = before @ i # after \<and>
        engine_run_loop rt send pad new_bytes headers tol before mem en = Ret rs \<and> socket_race i rs) \<and>
    ((\<forall>i j. en_queues en i \<noteq> None \<longrightarrow> en_queues en j \<noteq> None \<longrightarrow> i = j) \<or> (\<forall>zp. en_publisher en = Some zp \<longrightarrow> \<not> is_valid zp) \<longrightarrow>
     engine_run_loop rt send pad new_bytes headers tol schedule mem en \<noteq> UB)"
proof -
  let ?start = "start_threads new_bytes headers mem en"
  have "threads_inv rt nv nu w h (length schedule + 0) ?start"
    using start_threads_inv [where n = "length schedule" and new_bytes = new_bytes, OF assms(5,6,7,8,9)] by simp
  note run = threads_run [OF assms(1-4) this, of send tol]
  have no_race: "\<not> socket_race i rs"
    if r: "exec_fold (thread_step rt send pad tol) before ?start = Ret rs"
      and c: "(\<forall>i j. en_queues en i \<noteq> None \<longrightarrow> en_queues en j \<noteq> None \<longrightarrow> i = j) \<or> (\<forall>zp. en_publisher en = Some zp \<longrightarrow> \<not> is_valid zp)"
    for before i rs
  proof
    assume "socket_race i rs"
    then obtain j zp where j: "i \<noteq> j" "i \<in> dom (rs_threads rs)" "j \<in> dom (rs_threads rs)"
      "en_publisher (rs_engine rs) = Some zp" "is_valid zp"
      unfolding socket_race_def by blast
    note k = run_keeps_threads [OF r]
    have "en_queues en (sint l) \<noteq> None" if "l \<in> dom (rs_threads rs)" for l
    proof -
      have "l \<in> dom (rs_threads (start_threads new_bytes headers mem en))" using k that by blast
      then show ?thesis by (auto simp: start_threads_def split: if_splits)
    qed
    moreover have "en_publisher en = Some zp" using k j(4) by (simp add: start_threads_def)
    moreover have "sint i \<noteq> sint j" using j(1) by (simp add: sint_i32_inj)
    ultimately show False using c j(2,3,5) by blast
  qed
  from run show ?thesis
  proof (elim disjE exE conjE)
    fix rs assume "exec_fold (thread_step rt send pad tol) schedule ?start = Ret rs" "threads_inv rt nv nu w h 0 rs"
    then show ?thesis by (auto simp: engine_run_loop_def threads_inv_def)
  next
    fix before i after rs
    assume ub: "exec_fold (thread_step rt send pad tol) schedule ?start = UB" "schedule = before @ i # after"
      "exec_fold (thread_step rt send pad tol) before ?start = Ret rs" "socket_race i rs"
    note c = no_race [OF ub(3)]
    have "\<exists>before i after rs. schedule = before @ i # after \<and>
        engine_run_loop rt send pad new_bytes headers tol before mem en = Ret rs \<and> socket_race i rs"
      unfolding engine_run_loop_def using ub(2-4) by blast
    moreover have "engine_run_loop rt send pad new_bytes headers tol schedule mem en = UB"
      using ub(1) by (simp add: engine_run_loop_def)
    ultimately show ?thesis using c ub(4) by (simp only: exec.case) blast
  qed
qed

text \<open>Two streams on four queues, their threads taking turns.\<close>

definition two_stream_engine :: engine where
  "two_stream_engine = box_engine\<lparr>en_queues := [0 \<mapsto> \<lparr>sq_visible = 1, sq_uv = 2\<rparr>, 1 \<mapsto> \<lparr>sq_visible = 3, sq_uv = 4\<rparr>]\<rparr>"

definition four_queues :: "u64 \<rightharpoonup> shm_queue" where
  "four_queues = [1 \<mapsto> queue_of [tiny_frame 0 3], 2 \<mapsto> queue_of [tiny_frame 0 1],
     3 \<mapsto> queue_of [tiny_frame 5 3], 4 \<mapsto> queue_of []]"

lemma two_streams_ready: "streams_ready four_queues 2 1 two_stream_engine"
proof -
  have q: "queue_inv (queue_of fs) \<and> pending (queue_of fs) = fs" if "fs \<in> {[tiny_frame 0 3], [tiny_frame 0 1], [tiny_frame 5 3], []}" for fs
  proof -
    have "list_all whole_frame fs" "length fs \<le> 64" using that by auto
    then show ?thesis using queue_of_pending by blast
  qed
  have r: "queue_ready four_queues 1 [tiny_frame 0 3]" "queue_ready four_queues 2 [tiny_frame 0 1]"
    "queue_ready four_queues 3 [tiny_frame 5 3]" "queue_ready four_queues 4 []"
    by (simp_all add: queue_ready_def four_queues_def q)
  have c: "list_all (camera_frame 2 1 3) [tiny_frame 0 3]" "list_all (camera_frame 2 1 1) [tiny_frame 0 1]"
    "list_all (camera_frame 2 1 3) [tiny_frame 5 3]" "list_all (camera_frame 2 1 1) []" by simp_all
  have "\<exists>vs us. queue_ready four_queues 1 vs \<and> queue_ready four_queues 2 us \<and>
      list_all (camera_frame 2 1 3) vs \<and> list_all (camera_frame 2 1 1) us"
    "\<exists>vs us. queue_ready four_queues 3 vs \<and> queue_ready four_queues 4 us \<and>
      list_all (camera_frame 2 1 3) vs \<and> list_all (camera_frame 2 1 1) us"
    using r c by blast+
  then show ?thesis by (auto simp: streams_ready_def two_stream_engine_def split: if_splits)
qed

theorem run_loop_safe_witness:
  "\<exists>rs ad'. engine_run_loop box_runtime (\<lambda>msg. (1, False)) zero_pad (\<lambda>n. replicate n 0) (zero_header, zero_header) 5000000
      [0, 1, 1, 0] four_queues (two_stream_engine\<lparr>en_publisher := None\<rparr>) = Ret rs \<and>
     en_detector (rs_engine rs) = Some ad' \<and> detector_ready box_runtime 1 1 ad'"
proof -
  let ?en = "two_stream_engine\<lparr>en_publisher := None\<rparr>"
  have e: "en_detector ?en = Some box_detector" by (simp add: two_stream_engine_def box_engine_def)
  have r: "streams_ready four_queues 2 1 ?en" using two_streams_ready by (simp add: streams_ready_def)
  have n: "(1 :: nat) * 1 < 2 ^ 31" "length (replicate MAX_FRAME_SIZE (0 :: u8)) = MAX_FRAME_SIZE" by simp_all
  have room: "detector_room (length [0, 1, 1, 0 :: i32] * (1 * 1)) box_detector" by (rule box_room) simp
  from run_loop_safe [OF box_runtime_ok n(1) zero_pad_ok tiny_size r e box_detector_ready room, where new_bytes = "\<lambda>n. replicate n 0",
      OF n(2), of "\<lambda>msg. (1, False)" "(zero_header, zero_header)" 5000000]
  show ?thesis by (cases "engine_run_loop box_runtime (\<lambda>msg. (1, False)) zero_pad (\<lambda>n. replicate n 0) (zero_header, zero_header) 5000000
      [0, 1, 1, 0] four_queues ?en") simp_all
qed

section \<open>The race\<close>

lemma pending_frame_pair:
  assumes "queue_ready mem p (v # vs)" "queue_ready mem p' (u # us)" "camera_frame w h 3 v" "camera_frame w h 1 u" "size_ok w h"
  shows "frame_pair (snd v) (snd u) w h"
proof -
  have l: "length (snd f) = frame_size (fst f)" if "queue_ready mem q (f # fs)" for q f fs
    using pop_at_frame [of mem q "fst f" "snd f" fs "replicate MAX_FRAME_SIZE 0"] that by auto
  have "pair_ok (fst v, snd v) (fst u, snd u) w h" using camera_pair(2) [OF assms(3-5)] by simp
  from pair_ok_sizes(3) [OF this l [OF assms(1)] l [OF assms(2)]] show ?thesis .
qed

text \<open>A thread whose iteration finds a pair and events is about to publish them.\<close>

lemma step_finds_events:
  assumes "en_running (rs_engine rs)" "rs_threads rs i = Some th" "th_phase th = Iterating"
    "loop_ready rt nv nu (th_queues th) (vf # vs) (uf # us) (thread_state rs th)" "camera_frame w h 3 vf" "camera_frame w h 1 uf"
    "size_ok w h" "\<not> out_of_step tol vf uf" "en_detector (rs_engine rs) = Some ad" "en_publisher (rs_engine rs) \<noteq> None"
    "detect rt (snd vf) (snd uf) (int w) (int h) (fh_pts_ns (fst vf)) i ad = Ret (events, ad')" "events \<noteq> []"
  obtains mem th' where "thread_step rt send pad tol i rs = Ret (rs\<lparr>rs_engine := (rs_engine rs)\<lparr>en_detector := Some ad'\<rparr>,
      rs_mem := mem, rs_threads := (rs_threads rs)(i \<mapsto> th')\<rparr>)"
    "th_phase th' = Before_Send (result_bytes pad events) (int (length events))"
    "\<forall>p. p \<noteq> sq_visible (th_queues th) \<longrightarrow> p \<noteq> sq_uv (th_queues th) \<longrightarrow> mem p = rs_mem rs p"
proof -
  note p = camera_pair(1) [OF assms(5,6)] camera_pair(2) [OF assms(5-7)]
  have "en_detector (ls_engine (thread_state rs th)) = Some ad" using assms(9) by (simp add: thread_state_def)
  from iteration_pair [where process = "engine_detect_frame rt pad i",
      OF assms(4) p(1) assms(8) p(2) detect_frame_Ret [OF this assms(11)]] obtain s where
    s: "frame_iteration (engine_detect_frame rt pad i) (th_queues th) tol (thread_state rs th) =
        Ret (Processed (int (length events)) (pending_results pad (en_publisher (rs_engine rs)) events), s)"
      "ls_engine s = (rs_engine rs)\<lparr>en_detector := Some ad'\<rparr>"
    by (auto simp: thread_state_def)
  have "pending_results pad (en_publisher (rs_engine rs)) events = Some (result_bytes pad events)"
    using assms(10,12) by (simp add: pending_results_def)
  then show ?thesis
    using that [where mem = "ls_mem s"] s assms(1-3) iteration_frame(1) [OF s(1)]
    by (simp add: thread_step_def step_iterate_def thread_after_def thread_state_def)
qed

text \<open>
  C24. The race happens: when two streams each have a pair of frames in step on which the detector
  reports an event, and the publisher is open, the schedule in which the second thread gets to its
  publication while the first is inside the send lets both use the unlocked socket at once.
\<close>

theorem two_streams_race:
  assumes "nets_ok rt nv nu" "size_ok w h" "en_running en" "en_publisher en = Some zp" "is_valid zp"
    "en_detector en = Some ad" "detector_ready rt nv nu ad" "detector_room (2 * (nu * nv)) ad" "streams_ready mem w h en"
    "length (new_bytes MAX_FRAME_SIZE) = MAX_FRAME_SIZE"
    "0 \<le> sint i" "sint i < sint (en_num_streams en)" "0 \<le> sint j" "sint j < sint (en_num_streams en)" "i \<noteq> j"
    "en_queues en (sint i) = Some qi" "queue_ready mem (sq_visible qi) (vi # vsi)" "queue_ready mem (sq_uv qi) (ui # usi)"
    "en_queues en (sint j) = Some qj" "queue_ready mem (sq_visible qj) (vj # vsj)" "queue_ready mem (sq_uv qj) (uj # usj)"
    "\<not> out_of_step tol vi ui" "\<not> out_of_step tol vj uj"
    "detect rt (snd vi) (snd ui) (int w) (int h) (fh_pts_ns (fst vi)) i ad = Ret (events, ad1)" "events \<noteq> []"
    "detect rt (snd vj) (snd uj) (int w) (int h) (fh_pts_ns (fst vj)) j ad1 = Ret (events', ad2)" "events' \<noteq> []"
  shows "(\<exists>rs. engine_run_loop rt send pad new_bytes headers tol [i, i, j] mem en = Ret rs \<and> socket_race j rs) \<and>
    engine_run_loop rt send pad new_bytes headers tol [i, i, j, j] mem en = UB"
proof -
  define rs0 where "rs0 = start_threads new_bytes headers mem en"
  define thi where "thi = \<lparr>th_queues = qi, th_vis_header = fst headers, th_uv_header = snd headers,
    th_vis_data = new_bytes MAX_FRAME_SIZE, th_uv_data = new_bytes MAX_FRAME_SIZE, th_phase = Iterating\<rparr>"
  define thj where "thj = thi\<lparr>th_queues := qj\<rparr>"
  have rs0: "rs_engine rs0 = en" "rs_mem rs0 = mem" "rs_sender rs0 = None" "rs_threads rs0 i = Some thi" "rs_threads rs0 j = Some thj"
    using assms(11-14,16,19) by (simp_all add: rs0_def start_threads_def thi_def thj_def)
  have ne: "sint i \<noteq> sint j" using assms(15) sint_i32_inj by simp
  note sr = assms(9) [unfolded streams_ready_def]
  have q: "sq_visible qi \<noteq> sq_uv qi" "sq_visible qj \<noteq> sq_uv qj" "{sq_visible qi, sq_uv qi} \<inter> {sq_visible qj, sq_uv qj} = {}"
    using sr assms(16,19) ne by blast+
  have cam: "camera_frame w h 3 v \<and> camera_frame w h 1 u"
    if c: "en_queues en k = Some qs" "queue_ready mem (sq_visible qs) (v # vs)" "queue_ready mem (sq_uv qs) (u # us)" for k qs v vs u us
  proof -
    obtain vs' us' where r: "queue_ready mem (sq_visible qs) vs'" "queue_ready mem (sq_uv qs) us'"
      "list_all (camera_frame w h 3) vs'" "list_all (camera_frame w h 1) us'"
      using sr c(1) by blast
    then have "vs' = v # vs" "us' = u # us" using c(2,3) by (auto simp: queue_ready_def)
    then show ?thesis using r(3,4) by simp
  qed
  note ci = cam [OF assms(16-18)] and cj = cam [OF assms(19-21)]
  have pi: "frame_pair (snd vi) (snd ui) w h" "time_ok (fh_pts_ns (fst vi))"
    using pending_frame_pair [OF assms(17,18) _ _ assms(2)] ci by (blast, simp add: camera_frame_def time_ok_def)
  have "detector_room (nu * nv + 0) ad" by (rule detector_room_less [OF assms(8)]) simp
  from detect_ready_frame [OF assms(1) pi assms(7) this, of i] have ad1: "detector_ready rt nv nu ad1" using assms(24) by force
  have li: "loop_ready rt nv nu qi (vi # vsi) (ui # usi) (thread_state rs0 thi)"
    using assms(6,7,10,17,18) q(1) by (simp add: loop_ready_def thread_state_def rs0 thi_def)
  have thi: "th_queues thi = qi" "th_phase thi = Iterating" "th_queues thj = qj" "th_phase thj = Iterating"
    by (simp_all add: thi_def thj_def)
  have run0: "en_running (rs_engine rs0)" and det0: "en_detector (rs_engine rs0) = Some ad" and pub0: "en_publisher (rs_engine rs0) \<noteq> None"
    using assms(3,4,6) by (simp_all add: rs0)
  note li' = li [folded thi(1)]
  obtain mem1 th1 where s1: "thread_step rt send pad tol i rs0 = Ret (rs0\<lparr>rs_engine := en\<lparr>en_detector := Some ad1\<rparr>,
      rs_mem := mem1, rs_threads := (rs_threads rs0)(i \<mapsto> th1)\<rparr>)"
    "th_phase th1 = Before_Send (result_bytes pad events) (int (length events))"
    "\<forall>p. p \<noteq> sq_visible qi \<longrightarrow> p \<noteq> sq_uv qi \<longrightarrow> mem1 p = mem p"
    by (rule step_finds_events [OF run0 rs0(4) thi(2) li' conjunct1 [OF ci] conjunct2 [OF ci] assms(2,22) det0 pub0 assms(24,25), of send pad])
      (auto simp: rs0 thi)
  define rs1 where "rs1 = rs0\<lparr>rs_engine := en\<lparr>en_detector := Some ad1\<rparr>, rs_mem := mem1, rs_threads := (rs_threads rs0)(i \<mapsto> th1)\<rparr>"
  define rs2 where "rs2 = rs1\<lparr>rs_threads := (rs_threads rs1)(i \<mapsto> th1\<lparr>th_phase := In_Send (result_bytes pad events) (int (length events))\<rparr>),
    rs_sender := Some i\<rparr>"
  have s2: "thread_step rt send pad tol i rs1 = Ret rs2"
    using s1(2) assms(4,5) rs0(3) by (simp add: thread_step_def step_enter_send_def rs1_def rs2_def)
  have "queue_ready mem1 (sq_visible qj) (vj # vsj)" "queue_ready mem1 (sq_uv qj) (uj # usj)"
    using assms(20,21) s1(3) q(3) by (auto simp: queue_ready_def)
  then have lj: "loop_ready rt nv nu qj (vj # vsj) (uj # usj) (thread_state rs2 thj)"
    using ad1 assms(10) q(2) by (simp add: loop_ready_def thread_state_def rs1_def rs2_def thj_def thi_def)
  have t2: "rs_threads rs2 j = Some thj" using rs0(5) assms(15) by (simp add: rs1_def rs2_def)
  have run2: "en_running (rs_engine rs2)" and det2: "en_detector (rs_engine rs2) = Some ad1" and pub2: "en_publisher (rs_engine rs2) \<noteq> None"
    using assms(3,4) by (simp_all add: rs1_def rs2_def)
  obtain mem2 th2 where s3: "thread_step rt send pad tol j rs2 = Ret (rs2\<lparr>rs_engine := (rs_engine rs2)\<lparr>en_detector := Some ad2\<rparr>,
      rs_mem := mem2, rs_threads := (rs_threads rs2)(j \<mapsto> th2)\<rparr>)"
    "th_phase th2 = Before_Send (result_bytes pad events') (int (length events'))"
    by (rule step_finds_events [OF run2 t2 thi(4) lj [folded thi(3)] conjunct1 [OF cj] conjunct2 [OF cj] assms(2,23) det2 pub2 assms(26,27), of send pad])
      auto
  define rs3 where "rs3 = rs2\<lparr>rs_engine := (rs_engine rs2)\<lparr>en_detector := Some ad2\<rparr>, rs_mem := mem2,
    rs_threads := (rs_threads rs2)(j \<mapsto> th2)\<rparr>"
  have "engine_run_loop rt send pad new_bytes headers tol [i, i, j] mem en = Ret rs3"
    using s1(1) s2 s3(1) unfolding engine_run_loop_def rs0_def [symmetric] rs1_def [symmetric] rs3_def by simp
  moreover have r3: "rs_threads rs3 j = Some th2" "rs_sender rs3 = Some i" "en_publisher (rs_engine rs3) = Some zp"
    "rs_threads rs3 i = Some (th1\<lparr>th_phase := In_Send (result_bytes pad events) (int (length events))\<rparr>)"
    using assms(4,15) by (simp_all add: rs1_def rs2_def rs3_def)
  then have "socket_race j rs3"
    unfolding socket_race_def using s3(2) assms(5,15) by fastforce
  moreover have "thread_step rt send pad tol j rs3 = UB"
    using s3(2) r3 assms(5) by (simp add: thread_step_def step_enter_send_def)
  then have "engine_run_loop rt send pad new_bytes headers tol [i, i, j, j] mem en = UB"
    using s1(1) s2 s3(1) unfolding engine_run_loop_def rs0_def [symmetric] rs1_def [symmetric] rs3_def by simp
  ultimately show ?thesis by blast
qed

text \<open>Two cameras that both see the gray frames.\<close>

definition gray_image :: "i32 \<Rightarrow> frame" where
  "gray_image c = (\<lparr>fh_pts_ns = 1000, fh_width = 64, fh_height = 48, fh_channels = c, fh_type = VISIBLE_LIGHT,
     fh_stream_index = 0, fh_timestamp_wall = 0\<rparr>, gray_frame (unat c))"

definition gray_queues :: "u64 \<rightharpoonup> shm_queue" where
  "gray_queues = [1 \<mapsto> queue_of [gray_image 3], 2 \<mapsto> queue_of [gray_image 1], 3 \<mapsto> queue_of [gray_image 3], 4 \<mapsto> queue_of [gray_image 1]]"

lemma gray_image_facts:
  "camera_frame 64 48 3 (gray_image 3)" "camera_frame 64 48 1 (gray_image 1)" "whole_frame (gray_image 3)" "whole_frame (gray_image 1)"
  "snd (gray_image 3) = gray_frame 3" "snd (gray_image 1) = gray_frame 1" "fh_pts_ns (fst (gray_image c)) = 1000"
proof -
  have d: "header_dims (fst (gray_image 3)) 64 48 3" "header_dims (fst (gray_image 1)) 64 48 1"
    by (simp_all add: header_dims_def gray_image_def)
  show "snd (gray_image 3) = gray_frame 3" "snd (gray_image 1) = gray_frame 1" "fh_pts_ns (fst (gray_image c)) = 1000"
    by (simp_all add: gray_image_def)
  then show "camera_frame 64 48 3 (gray_image 3)" "camera_frame 64 48 1 (gray_image 1)"
    using d by (simp_all add: camera_frame_def) (simp_all add: gray_image_def)
  show "whole_frame (gray_image 3)" "whole_frame (gray_image 1)"
    using header_dims_size(2) [OF d(1)] header_dims_size(2) [OF d(2)]
    by (simp_all add: whole_frame_def MAX_FRAME_SIZE_eq) (simp_all add: gray_image_def)
qed

theorem two_streams_race_witness:
  "engine_run_loop box_runtime (\<lambda>msg. (1, False)) zero_pad (\<lambda>n. replicate n 0) (zero_header, zero_header) 5000000
     [0, 0, 1, 1] gray_queues two_stream_engine = UB"
proof -
  note g = gray_image_facts
  have q: "queue_ready gray_queues 1 [gray_image 3]" "queue_ready gray_queues 2 [gray_image 1]"
    "queue_ready gray_queues 3 [gray_image 3]" "queue_ready gray_queues 4 [gray_image 1]"
    using queue_of_pending [of "[gray_image 3]"] queue_of_pending [of "[gray_image 1]"] g(3,4)
    by (simp_all add: queue_ready_def gray_queues_def)
  have "list_all (camera_frame 64 48 3) [gray_image 3]" "list_all (camera_frame 64 48 1) [gray_image 1]" using g(1,2) by simp_all
  then have "\<exists>vs us. queue_ready gray_queues 1 vs \<and> queue_ready gray_queues 2 us \<and>
      list_all (camera_frame 64 48 3) vs \<and> list_all (camera_frame 64 48 1) us"
    "\<exists>vs us. queue_ready gray_queues 3 vs \<and> queue_ready gray_queues 4 us \<and>
      list_all (camera_frame 64 48 3) vs \<and> list_all (camera_frame 64 48 1) us"
    using q by blast+
  then have sr: "streams_ready gray_queues 64 48 two_stream_engine"
    by (auto simp: streams_ready_def two_stream_engine_def split: if_splits)
  have en: "en_running two_stream_engine" "en_publisher two_stream_engine = Some pub_socket" "en_detector two_stream_engine = Some box_detector"
    "sint (en_num_streams two_stream_engine) = 2" "en_queues two_stream_engine (sint (0 :: i32)) = Some \<lparr>sq_visible = 1, sq_uv = 2\<rparr>"
    "en_queues two_stream_engine (sint (1 :: i32)) = Some \<lparr>sq_visible = 3, sq_uv = 4\<rparr>"
    by (simp_all add: two_stream_engine_def box_engine_def)
  have t: "time_ok 1000" by (simp add: time_ok_def)
  obtain ev ad1 where d1: "detect box_runtime (gray_frame 3) (gray_frame 1) (int 64) (int 48) 1000 0 box_detector = Ret ([ev], ad1)"
    by (rule box_detects [of 0 1000]) (simp_all add: t)
  have "detector_room (1 * 1 + 0) box_detector" by (rule box_room) simp
  from detect_ready_frame [OF box_runtime_ok gray_frame_pair t box_detector_ready this, of 0] d1
  have r1: "detector_ready box_runtime 1 1 ad1" by force
  have "map_of (ad_contexts ad1) 1 = Some box_context" "ad_config ad1 = ad_config box_detector"
    using detect_frame_others [OF d1] by (auto simp: box_detector_def)
  then have "get_stream_context (sint (1 :: i32)) ad1 = Some box_context" "ad_base_initialized ad1" "ad_config ad1 = ad_config box_detector"
    using r1 by (simp_all add: get_stream_context_def detector_ready_def)
  from box_detects_on [OF this t] obtain ev' ad2 where
    d2: "detect box_runtime (gray_frame 3) (gray_frame 1) (int 64) (int 48) 1000 1 ad1 = Ret ([ev'], ad2)" .
  have room: "detector_room (2 * (1 * 1)) box_detector" by (rule box_room) simp
  have size: "size_ok 64 48" by (simp add: size_ok_def MAX_FRAME_SIZE_eq)
  have "\<not> out_of_step 5000000 (gray_image 3) (gray_image 1)" by (simp add: out_of_step_def g(7))
  with two_streams_race [OF box_runtime_ok size en(1,2) sockets_valid(2) en(3) box_detector_ready room sr, where i = 0 and j = 1
      and new_bytes = "\<lambda>n. replicate n 0" and vi = "gray_image 3" and ui = "gray_image 1" and vj = "gray_image 3" and uj = "gray_image 1"
      and vsi = "[]" and usi = "[]" and vsj = "[]" and usj = "[]" and tol = 5000000] en q d1 d2
  show ?thesis by (simp add: g)
qed

text \<open>
  The run ends: once the engine is stopped, every thread returns the next time it is scheduled,
  so after a round over all streams \<open>run_loop\<close> has joined them all, and the engine is as it was.
\<close>

theorem run_loop_joins:
  assumes "\<not> en_running en" "\<forall>i. 0 \<le> sint i \<and> sint i < sint (en_num_streams en) \<longrightarrow> i \<in> set schedule"
  shows "\<exists>rs. engine_run_loop rt send pad new_bytes headers tol schedule mem en = Ret rs \<and>
    rs_threads rs = Map.empty \<and> rs_engine rs = en \<and> rs_mem rs = mem"
proof -
  have "\<exists>rs'. exec_fold (thread_step rt send pad tol) is rs = Ret rs' \<and> rs_threads rs' = rs_threads rs |` (- set is) \<and>
      rs_engine rs' = rs_engine rs \<and> rs_mem rs' = rs_mem rs"
    if "\<not> en_running (rs_engine rs) \<and> (\<forall>i th. rs_threads rs i = Some th \<longrightarrow> th_phase th = Iterating)" for "is" rs
    using that
  proof (induction "is" arbitrary: rs)
    case (Cons i "is")
    define rs1 where "rs1 = rs\<lparr>rs_threads := (rs_threads rs)(i := None)\<rparr>"
    have s: "thread_step rt send pad tol i rs = Ret rs1"
      using Cons.prems by (auto simp: thread_step_def step_iterate_def rs1_def fun_upd_idem split: option.split thread_phase.split)
    have "\<not> en_running (rs_engine rs1) \<and> (\<forall>i th. rs_threads rs1 i = Some th \<longrightarrow> th_phase th = Iterating)"
      using Cons.prems by (simp add: rs1_def)
    from Cons.IH [OF this] s show ?case by (auto simp: rs1_def restrict_map_def fun_eq_iff)
  qed (simp add: restrict_map_def fun_eq_iff)
  note joins = this [of "start_threads new_bytes headers mem en" schedule]
  have st: "rs_engine (start_threads new_bytes headers mem en) = en" "rs_mem (start_threads new_bytes headers mem en) = mem"
    by (simp_all add: start_threads_def)
  moreover have "th_phase th = Iterating" if "rs_threads (start_threads new_bytes headers mem en) i = Some th" for i th
    using that by (auto simp: start_threads_def split: if_splits)
  then have "\<exists>rs'. exec_fold (thread_step rt send pad tol) schedule (start_threads new_bytes headers mem en) = Ret rs' \<and>
      rs_threads rs' = rs_threads (start_threads new_bytes headers mem en) |` (- set schedule) \<and>
      rs_engine rs' = en \<and> rs_mem rs' = mem"
    using assms(1) joins st by simp
  then obtain rs where r: "engine_run_loop rt send pad new_bytes headers tol schedule mem en = Ret rs"
    "rs_threads rs = rs_threads (start_threads new_bytes headers mem en) |` (- set schedule)" "rs_engine rs = en" "rs_mem rs = mem"
    by (auto simp: engine_run_loop_def)
  have "rs_threads rs i = None" for i
    using assms(2) by (auto simp: r(2) start_threads_def restrict_map_def)
  then show ?thesis using r by (auto simp: fun_eq_iff)
qed

theorem run_loop_joins_witness:
  "\<exists>rs. engine_run_loop box_runtime (\<lambda>msg. (1, False)) zero_pad (\<lambda>n. replicate n 0) (zero_header, zero_header) 5000000
      [1, 0] four_queues (two_stream_engine\<lparr>en_running := False\<rparr>) = Ret rs \<and> rs_threads rs = Map.empty"
proof -
  have c: "i \<in> set [1, 0]" if "0 \<le> sint i" "sint i < 2" for i :: i32
  proof -
    have "sint i = sint (0 :: i32) \<or> sint i = sint (1 :: i32)" using that by simp linarith
    then show ?thesis unfolding sint_i32_inj by auto
  qed
  have n: "sint (en_num_streams (two_stream_engine\<lparr>en_running := False\<rparr>)) = 2" by (simp add: two_stream_engine_def box_engine_def)
  have "\<forall>i :: i32. 0 \<le> sint i \<and> sint i < sint (en_num_streams (two_stream_engine\<lparr>en_running := False\<rparr>)) \<longrightarrow> i \<in> set [1, 0]"
    unfolding n using c by blast
  then show ?thesis
    using run_loop_joins [of "two_stream_engine\<lparr>en_running := False\<rparr>" "[1, 0]" box_runtime "\<lambda>msg. (1, False)" zero_pad
        "\<lambda>n. replicate n 0" "(zero_header, zero_header)" 5000000 four_queues] by auto
qed

end
