(* ===== verification/Spec2Isabelle.thy ===== *)
theory Spec2Isabelle
  imports Queue_Spsc Engine_Results Engine_Threads
begin

text \<open>
  A verification development for the C++ core of a detector of electric arcs at the pantographs of
  trains: the sources under \<open>src/cpp\<close> of the repository.

  \<^bold>\<open>The program and its parts.\<close> Camera frames, one visible and one ultraviolet per moment and stream, come in through queues
  in shared memory. For every stream a thread takes a pair of frames, and the detector finds the
  pantograph on the visible frame with one neural network, looks for arcs on the blended image of each region with a second
  one, suppresses overlapping boxes, computes the energy of each box on the ultraviolet frame,
  and follows the arcs from frame to frame to classify their severity. The events go out as binary
  messages on a ZeroMQ socket. The theories follow the files:

  \<^item> \<open>Frame_Queue\<close> and \<open>Queue_Spsc\<close>: \<open>shm_frame_queue.h\<close> and \<open>shm_frame_queue.cpp\<close>. The ring of 64 slots is the record
    \<open>shm_queue\<close>; every C function is a definition of the same name. \<open>Queue_Spsc\<close> has
    the same functions as two threads, with one step per atomic access.
  \<^item> \<open>Severity\<close>, \<open>Kalman\<close>, \<open>Tracker\<close>, \<open>Tracker_Inv\<close>, \<open>Energy\<close>: \<open>arc_severity.h\<close> and \<open>arc_severity.cpp\<close>. The levels, the one-dimensional
    filter (\<open>kf_\<close> definitions), the tracks (\<open>arc_track\<close>, \<open>tracker\<close>, \<open>lt_update\<close>, \<open>lt_expire\<close>), and the two energy
    routines.
  \<^item> \<open>Geometry\<close> and \<open>Nms\<close>: the overlap of boxes and the suppression loops that \<open>trt_engine.cpp\<close> and
    \<open>arc_detector.cpp\<close> share.
  \<^item> \<open>Cuda_Preprocess\<close>: the kernels of \<open>cuda_preprocess.cu\<close> and their launchers. A launch runs its threads
    in the order of an arbitrary schedule.
  \<^item> \<open>Trt_Engine\<close>: \<open>trt_engine.h\<close> and \<open>trt_engine.cpp\<close>: loading, the pool of execution contexts, inference and decoding.
  \<^item> \<open>Zmq_Publisher\<close>: \<open>zmq_publisher.h\<close> and \<open>zmq_publisher.cpp\<close>: the layout of a result, sockets, framing.
  \<^item> \<open>Arc_Detector\<close>, \<open>Detector_Inv\<close>, \<open>Detect_Frame\<close>, \<open>Detect_Demo\<close>, \<open>Detect_History\<close>: \<open>arc_detector.h\<close> and \<open>arc_detector.cpp\<close>: the
    contexts of the streams and \<open>detect\<close>, with its parts as separate definitions; their resources; one frame; a
    runnable instance; histories of frames. \<open>init_stream_store\<close> is \<open>init_stream\<close> up to its assignment to the map, the
    state that a successful set-up reaches before its log line dereferences null.
  \<^item> \<open>Engine_Main\<close>, \<open>Engine_Inv\<close>, \<open>Engine_Results\<close>, \<open>Engine_Threads\<close>: \<open>engine_main.cpp\<close>: the globals (record \<open>engine\<close>),
    set-up and shutdown, \<open>process_frame\<close>, the loop of a stream and the threads of \<open>run_loop\<close>, which take turns at their
    iterations, at entering and at leaving the send on the shared socket.
  \<^item> \<open>Resources\<close>: what CUDA, TensorRT and ZeroMQ hand out and get back (record \<open>gpu_env\<close>), shared by the engines and the publisher.
  \<^item> \<open>Prelude\<close>, \<open>Fp\<close> and \<open>Float_Bits\<close> hold what they share: machine integers, undefined behaviour, checked \<open>int\<close>
    arithmetic, loops whose body may fail; \<open>float\<close> and \<open>double\<close> as rounded rational numbers; their bit patterns.

  \<^bold>\<open>Conventions.\<close> A value of type \<open>'a exec\<close> is \<open>Ret x\<close> or \<open>UB\<close>, undefined behaviour of the language (null dereference,
    access out of bounds, overflow of a signed integer); a theorem that a call is \<open>Ret\<close> says that
    it returns and is defined. Integers of fixed width that are stored or sent are words; \<open>int\<close> expressions are
    integers checked by \<open>ci32\<close>, \<open>ci64\<close> and \<open>to_int\<close>; signed additions and subtractions of stored numbers (ids, frame counters,
    times) are checked too (\<open>inc32\<close>, \<open>sub64\<close>), and overflow is \<open>UB\<close>. Buffers are lists. Every floating-point operation is the exact operation on
    rationals followed by one rounding, to nearest even, with the precision and the gradual underflow of the
    format. What is not in the repository's C++ code is an argument: the networks, the order of
    the threads of a kernel, the copy between device and host, the sorting routine, the outcome of
    every system, CUDA, TensorRT and ZeroMQ call, file contents. A network gives what an inference and the copy
    of its output bring to the host, or nothing when one of them fails, and then the code decodes what the host
    buffer held before. Their contracts are hypotheses
    (\<open>sched_ok\<close>, \<open>d2h_ok\<close>, \<open>std_sort\<close>, \<open>net_ok\<close>), each met by a concrete instance in the witnesses.

  \<^bold>\<open>What the lemmas show.\<close>
  \<^item> The queue is a bounded first-in first-out buffer (locale \<open>bounded_fifo\<close>, interpreted on the model), each
    operation refines the list of pending frames, and one producer and one consumer
    interleaved in any way neither race nor fail.
  \<^item> The tracker accounts for every detection once, keeps ids distinct, energies growing and bounded, and filters
    sound, reports the new totals of its tracks, and never drops a track but the oldest completed ones beyond the limit; the filter's gain stays between 0 and 1 under rounding; the classification is the highest level whose criterion is met.
  \<^item> The two energy routines compute the same number and stay in bounds for every box.
  \<^item> The kernels read and write in bounds for every order of their threads, and store the
    specified pixels; the letterbox fits.
  \<^item> The pool hands a context to one thread at a time; loading that fails anywhere leaks nothing.
  \<^item> The suppression loops equal greedy selection, for any overlap test and any sorting routine.
  \<^item> A message is received as it was sent, and no received bytes make the parser leave its buffers.
  \<^item> The detector, its regions, networks, suppression, energies and tracker together, processes any
    history of well-formed frames without undefined behaviour; what it reports is ordered, suppressed and attached to
    the tracks that its tracker holds; streams do not touch each other.
  \<^item> The engine takes pairs that are in step, publishes what is reported so that a consumer reads it
    back, and ends when it is told to; what its locale \<open>frame_handler\<close> asks of the handling of a pair is met by
    \<open>process_frame\<close> and by its part before the publication. The threads of all streams can run in any interleaving,
    except that two of them can use the shared socket at once, which is undefined and does
    happen when two streams have events. Shutting down gives back what the detector and the publisher hold. The engine loses a
    visible frame that has no partner yet, never recovers a stream that is out of step, reads past its
    buffer for a frame larger than a slot, and as the code stands cannot be set up at all, because of a null
    dereference on the success path of \<open>init_stream\<close>.

  \<^bold>\<open>Bounds and fuel.\<close> The history theorems assume networks whose coordinates are at most 32768 in size and
    frames of at most 32768 pixels in either direction (the queue's frames have at most 1920 x 1080 x 3 bytes), so that
    conversions to \<open>int\<close> are defined; times below \<open>2 ^ 62\<close> in magnitude, so that their differences are
    (146 years in nanoseconds); and room in the 32-bit counters of the trackers, the next id and the frames of a track, which a frame
    advances by at most the product of the boxes of the two networks. The only loop that need not end, the loop of a stream, has fuel: one
    unit per iteration, and one more than the iterations before the engine is stopped is enough
    (theory \<open>Engine_Inv\<close>). The threads of \<open>run_loop\<close> follow a list of turns.

  \<^bold>\<open>Not modelled.\<close> The Go program (\<open>cmd\<close>, \<open>pkg\<close>), build files and configuration; log lines, sleeps,
    locks (the critical sections of the pool are atomic steps; the threads of the engine are interleaved at
    their iterations and at both ends of a send, their queues and contexts being their own); shutting down while
    threads still run; overflow to infinity, NaN, the sign of zero and fused operations of the floating-point units;
    failing allocations of the detector and the loop (those of the engine's contexts are
    modelled); the Windows branch of the queue; the fields the code writes and never reads
    (\<open>track_matched\<close>, \<open>dt_s\<close>).
\<close>

end
